(* ===== verification/Prelude.thy ===== *)
theory Prelude
  imports Main "HOL-Library.Word"
begin

text \<open>
  Shared vocabulary of the development: the fixed-width integer types of the C++ sources, byte
  strings, the outcome type for code that throws or has undefined behaviour, the counting
  \<^verbatim>\<open>for\<close> loop over \<^verbatim>\<open>size_t\<close>, and the list and word facts that the component
  theories share.
\<close>

unbundle bit_operations_syntax

section \<open>Types of the C++ sources\<close>

type_synonym u8 = "8 word"
type_synonym u16 = "16 word"
type_synonym u32 = "32 word"
type_synonym u64 = "64 word"

text \<open>A \<^verbatim>\<open>std::string\<close> that carries packet data is a list of bytes.\<close>

type_synonym bytes = "u8 list"

text \<open>
  What can stop a call: an exception the sources throw, or an operation whose behaviour the
  C++ standard leaves undefined and which no value of the model could stand for.
  A \<open>Tagged_error\<close> carries the attempted system call and its error code.
\<close>

datatype cpp_fault =
    Runtime_error string
  | Out_of_range string
  | Division_by_zero
  | Empty_queue_front
  | Out_of_bounds_read
  | Invalid_argument string
  | Tagged_error string int
  | Length_error
  | Bad_optional_access

type_synonym 'a outcome = "cpp_fault + 'a"

definition obind :: "'a outcome \<Rightarrow> ('a \<Rightarrow> 'b outcome) \<Rightarrow> 'b outcome" where
  "obind m f = (case m of Inl e \<Rightarrow> Inl e | Inr x \<Rightarrow> f x)"

lemma obind_simps [simp]:
  "obind (Inl e) f = Inl e"
  "obind (Inr x) f = f x"
  by (simp_all add: obind_def)

lemma obind_cong [fundef_cong]:
  "m = m' \<Longrightarrow> (\<And>x. m' = Inr x \<Longrightarrow> f x = g x) \<Longrightarrow> obind m f = obind m' g"
  by (cases m) auto

lemma obind_Inr_iff: "obind m f = Inr y \<longleftrightarrow> (\<exists>x. m = Inr x \<and> f x = Inr y)"
  by (cases m) simp_all

text \<open>The collections that the component theories fill.\<close>

named_theorems stream_simps \<open>equations of the byte stream operations\<close>
named_theorems wf_intros \<open>preservation of the component invariants\<close>

section \<open>Words as bounded naturals\<close>

text \<open>The number of elements of a container, as the \<^verbatim>\<open>size_t\<close> that the code reads.\<close>

definition size_u64 :: "'a list \<Rightarrow> u64" where
  "size_u64 xs = word_of_nat (length xs)"

lemma unat_size_u64: "length xs < 2 ^ 64 \<Longrightarrow> unat (size_u64 xs) = length xs"
  by (simp add: size_u64_def unat_of_nat)

lemma size_u64_Nil [simp]: "size_u64 [] = 0"
  by (simp add: size_u64_def)

lemma unat_u64_less: "unat (w :: u64) < 18446744073709551616"
  using unsigned_less [of w, where 'a = nat] by simp

lemma unat_u32_less: "unat (w :: u32) < 4294967296"
  using unsigned_less [of w, where 'a = nat] by simp

lemma unat_u16_less: "unat (w :: u16) < 65536"
  using unsigned_less [of w, where 'a = nat] by simp

lemma unat_plus_exact:
  fixes a b :: "'a::len word"
  assumes "unat a + unat b < 2 ^ LENGTH('a)"
  shows "unat (a + b) = unat a + unat b"
  using assms by (simp add: unat_word_ariths)

lemma unat_minus_exact:
  fixes a b :: "'a::len word"
  assumes "unat b \<le> unat a"
  shows "unat (a - b) = unat a - unat b"
  using assms by (simp add: unat_sub word_le_nat_alt)

lemma unat_min [simp]: "unat (min a b) = min (unat a) (unat b)"
  by (simp add: min_def word_le_nat_alt)

lemma unat_max [simp]: "unat (max a b) = max (unat a) (unat b)"
  by (simp add: max_def word_le_nat_alt)

lemma unat_inc:
  fixes a :: "'a::len word"
  assumes "a < b"
  shows "unat (a + 1) = Suc (unat a)"
proof -
  have "unat a < unat b" and "unat b < 2 ^ LENGTH('a)"
    using assms by (simp_all add: word_less_nat_alt)
  then have "unat a + 1 < 2 ^ LENGTH('a)" by linarith
  then show ?thesis by (simp add: unat_word_ariths)
qed

lemma unat_ucast_up:
  assumes "LENGTH('a) \<le> LENGTH('b)"
  shows "unat (ucast (w :: 'a::len word) :: 'b::len word) = unat w"
proof -
  have "unat w < 2 ^ LENGTH('a)" by (rule unsigned_less)
  also have "\<dots> \<le> 2 ^ LENGTH('b)" using assms by (rule power_increasing) simp
  finally show ?thesis by (simp add: unsigned_ucast_eq take_bit_nat_eq_self)
qed

section \<open>The counting loop\<close>

text \<open>\<^verbatim>\<open>for (size_t i = a; i < b; i++) body(i);\<close>\<close>

function for_u64 :: "u64 \<Rightarrow> u64 \<Rightarrow> (u64 \<Rightarrow> 's \<Rightarrow> 's) \<Rightarrow> 's \<Rightarrow> 's" where
  "for_u64 i b body s = (if i < b then for_u64 (i + 1) b body (body i s) else s)"
  by pat_completeness auto
termination
  by (relation "measure (\<lambda>(i, b, _, _). unat b - unat i)")
    (auto simp: unat_inc word_less_nat_alt)

declare for_u64.simps [simp del]

lemma for_u64_fold:
  "for_u64 i b body s = fold (\<lambda>k. body (word_of_nat k)) [unat i..<unat b] s"
proof (induction i b body s rule: for_u64.induct)
  case (1 i b body s)
  show ?case
  proof (cases "i < b")
    case True
    then have "unat i < unat b" by (simp add: word_less_nat_alt)
    then have "[unat i..<unat b] = unat i # [Suc (unat i)..<unat b]"
      by (rule upt_conv_Cons)
    with True 1 show ?thesis
      by (simp add: for_u64.simps [of i] unat_inc)
  next
    case False
    then have "unat b \<le> unat i" by (simp add: word_less_nat_alt)
    with False show ?thesis by (simp add: for_u64.simps [of i])
  qed
qed

section \<open>Lists\<close>

text \<open>An invariant of a fold whose bound the loop index carries.\<close>

lemma fold_upt_induct:
  assumes "a \<le> b" and "P a s"
    and "\<And>k s. a \<le> k \<Longrightarrow> k < b \<Longrightarrow> P k s \<Longrightarrow> P (Suc k) (f k s)"
  shows "P b (fold f [a..<b] s)"
  using assms(1,3)
proof (induction b rule: dec_induct)
  case base
  with assms(2) show ?case by simp
next
  case (step n)
  then have "P n (fold f [a..<n] s)" by simp
  with step show ?case by simp
qed

lemma take_take_append_drop: "take n xs @ take m (drop n xs) = take (n + m) xs"
  by (simp add: take_add)

end
