(* ===== verification/Byte_Stream.thy ===== *)
theory Byte_Stream
  imports Prelude
begin

text \<open>
  The flow-controlled byte stream of \<^verbatim>\<open>libsponge/byte_stream.{hh,cc}\<close>: its record, one
  definition per method of \<^verbatim>\<open>ByteStream\<close>, the representation invariant, and the contract of
  a bounded first-in first-out channel that the stream implements.
\<close>

section \<open>State and operations\<close>

record byte_stream =
  bs_buffer :: bytes
  bs_capacity :: u64
  bs_size :: u64
  bs_nwritten :: u64
  bs_nread :: u64
  bs_input_ended :: bool
  bs_error :: bool

definition ByteStream_new :: "u64 \<Rightarrow> byte_stream" where
  "ByteStream_new capacity =
     \<lparr>bs_buffer = [], bs_capacity = capacity, bs_size = 0, bs_nwritten = 0, bs_nread = 0,
      bs_input_ended = False, bs_error = False\<rparr>"

definition ByteStream_remaining_capacity :: "byte_stream \<Rightarrow> u64" where
  "ByteStream_remaining_capacity s = bs_capacity s - bs_size s"

definition ByteStream_write :: "byte_stream \<Rightarrow> bytes \<Rightarrow> byte_stream \<times> u64" where
  "ByteStream_write s data =
     (let remain_capacity = ByteStream_remaining_capacity s;
          data_to_write = take (unat remain_capacity) data
      in (s\<lparr>bs_buffer := bs_buffer s @ data_to_write,
            bs_nwritten := bs_nwritten s + size_u64 data_to_write,
            bs_size := bs_size s + size_u64 data_to_write\<rparr>,
          size_u64 data_to_write))"

definition ByteStream_peek_output :: "byte_stream \<Rightarrow> u64 \<Rightarrow> bytes" where
  "ByteStream_peek_output s len = take (unat (min (bs_size s) len)) (bs_buffer s)"

definition ByteStream_pop_output :: "byte_stream \<Rightarrow> u64 \<Rightarrow> byte_stream" where
  "ByteStream_pop_output s len =
     (let len_to_pop = min (bs_size s) len
      in s\<lparr>bs_buffer := drop (unat len_to_pop) (bs_buffer s),
           bs_nread := bs_nread s + len_to_pop,
           bs_size := bs_size s - len_to_pop\<rparr>)"

definition ByteStream_read :: "byte_stream \<Rightarrow> u64 \<Rightarrow> byte_stream \<times> bytes" where
  "ByteStream_read s len =
     (let ret = ByteStream_peek_output s len in (ByteStream_pop_output s len, ret))"

definition ByteStream_end_input :: "byte_stream \<Rightarrow> byte_stream" where
  "ByteStream_end_input s = s\<lparr>bs_input_ended := True\<rparr>"

definition ByteStream_set_error :: "byte_stream \<Rightarrow> byte_stream" where
  "ByteStream_set_error s = s\<lparr>bs_error := True\<rparr>"

definition ByteStream_input_ended :: "byte_stream \<Rightarrow> bool" where
  "ByteStream_input_ended s = bs_input_ended s"

definition ByteStream_buffer_size :: "byte_stream \<Rightarrow> u64" where
  "ByteStream_buffer_size s = bs_size s"

definition ByteStream_buffer_empty :: "byte_stream \<Rightarrow> bool" where
  "ByteStream_buffer_empty s = (bs_size s = 0)"

definition ByteStream_eof :: "byte_stream \<Rightarrow> bool" where
  "ByteStream_eof s = (ByteStream_input_ended s \<and> ByteStream_buffer_empty s)"

definition ByteStream_bytes_written :: "byte_stream \<Rightarrow> u64" where
  "ByteStream_bytes_written s = bs_nwritten s"

definition ByteStream_bytes_read :: "byte_stream \<Rightarrow> u64" where
  "ByteStream_bytes_read s = bs_nread s"

definition ByteStream_error :: "byte_stream \<Rightarrow> bool" where
  "ByteStream_error s = bs_error s"

lemmas ByteStream_accessor_defs =
  ByteStream_remaining_capacity_def ByteStream_input_ended_def ByteStream_buffer_size_def
  ByteStream_buffer_empty_def ByteStream_eof_def ByteStream_bytes_written_def
  ByteStream_bytes_read_def ByteStream_error_def

lemmas ByteStream_update_defs =
  ByteStream_write_def ByteStream_pop_output_def ByteStream_read_def ByteStream_end_input_def
  ByteStream_set_error_def

section \<open>The representation invariant\<close>

text \<open>
  The cached size is the number of buffered bytes and never exceeds the capacity, and the two
  running totals differ by exactly what is buffered.
\<close>

definition bs_wf :: "byte_stream \<Rightarrow> bool" where
  "bs_wf s \<longleftrightarrow> unat (bs_size s) = length (bs_buffer s) \<and> bs_size s \<le> bs_capacity s \<and>
     bs_nwritten s = bs_nread s + bs_size s"

definition bs_room :: "byte_stream \<Rightarrow> nat" where
  "bs_room s = unat (ByteStream_remaining_capacity s)"

lemma bs_wf_length: "bs_wf s \<Longrightarrow> length (bs_buffer s) \<le> unat (bs_capacity s)"
  by (simp add: bs_wf_def word_le_nat_alt)

lemma bs_room_wf: "bs_wf s \<Longrightarrow> bs_room s = unat (bs_capacity s) - length (bs_buffer s)"
  by (simp add: bs_room_def bs_wf_def ByteStream_remaining_capacity_def unat_minus_exact
      word_le_nat_alt)

lemma bs_wf_empty_iff: "bs_wf s \<Longrightarrow> bs_size s = 0 \<longleftrightarrow> bs_buffer s = []"
  by (metis bs_wf_def length_0_conv unat_eq_zero)

lemma size_u64_take_room:
  "unat (size_u64 (take (bs_room s) data)) = min (bs_room s) (length data)"
proof -
  have "length (take (bs_room s) data) < 2 ^ 64"
    using unat_u64_less [of "ByteStream_remaining_capacity s"]
    by (simp add: bs_room_def)
  then show ?thesis by (simp add: unat_size_u64)
qed

lemma ByteStream_new_wf [wf_intros]: "bs_wf (ByteStream_new c)"
  by (simp add: bs_wf_def ByteStream_new_def)

lemma ByteStream_write_simps [stream_simps]:
  "bs_buffer (fst (ByteStream_write s data)) = bs_buffer s @ take (bs_room s) data"
  "bs_capacity (fst (ByteStream_write s data)) = bs_capacity s"
  "bs_nwritten (fst (ByteStream_write s data)) = bs_nwritten s + snd (ByteStream_write s data)"
  "bs_size (fst (ByteStream_write s data)) = bs_size s + snd (ByteStream_write s data)"
  "bs_nread (fst (ByteStream_write s data)) = bs_nread s"
  "bs_input_ended (fst (ByteStream_write s data)) = bs_input_ended s"
  "bs_error (fst (ByteStream_write s data)) = bs_error s"
  "unat (snd (ByteStream_write s data)) = min (bs_room s) (length data)"
  by (simp_all add: ByteStream_write_def Let_def bs_room_def [symmetric] size_u64_take_room)

lemma ByteStream_pop_simps [stream_simps]:
  "bs_capacity (ByteStream_pop_output s n) = bs_capacity s"
  "bs_nwritten (ByteStream_pop_output s n) = bs_nwritten s"
  "bs_size (ByteStream_pop_output s n) = bs_size s - min (bs_size s) n"
  "bs_nread (ByteStream_pop_output s n) = bs_nread s + min (bs_size s) n"
  "bs_input_ended (ByteStream_pop_output s n) = bs_input_ended s"
  "bs_error (ByteStream_pop_output s n) = bs_error s"
  by (simp_all add: ByteStream_pop_output_def Let_def)

lemma ByteStream_pop_buffer [stream_simps]:
  "bs_wf s \<Longrightarrow> bs_buffer (ByteStream_pop_output s n) = drop (unat n) (bs_buffer s)"
  by (auto simp: ByteStream_pop_output_def Let_def bs_wf_def min_def word_le_nat_alt)

lemma ByteStream_peek_buffer [stream_simps]:
  "bs_wf s \<Longrightarrow> ByteStream_peek_output s n = take (unat n) (bs_buffer s)"
  by (auto simp: ByteStream_peek_output_def bs_wf_def min_def word_le_nat_alt)

lemma ByteStream_read_simps [stream_simps]:
  "fst (ByteStream_read s n) = ByteStream_pop_output s n"
  "snd (ByteStream_read s n) = ByteStream_peek_output s n"
  by (simp_all add: ByteStream_read_def)

lemma ByteStream_write_wf [wf_intros]: "bs_wf s \<Longrightarrow> bs_wf (fst (ByteStream_write s data))"
proof -
  assume wf: "bs_wf s"
  have le: "length (bs_buffer s) + min (bs_room s) (length data) \<le> unat (bs_capacity s)"
    using bs_room_wf [OF wf] bs_wf_length [OF wf] by simp
  have sz: "unat (bs_size s) = length (bs_buffer s)"
    using wf by (simp add: bs_wf_def)
  have "unat (bs_size s + snd (ByteStream_write s data))
      = length (bs_buffer s) + min (bs_room s) (length data)"
    using le sz unat_u64_less [of "bs_capacity s"]
    by (subst unat_plus_exact) (simp_all add: stream_simps)
  with wf le show ?thesis
    by (simp add: bs_wf_def stream_simps word_le_nat_alt min.commute)
qed

lemma ByteStream_pop_wf [wf_intros]: "bs_wf s \<Longrightarrow> bs_wf (ByteStream_pop_output s n)"
proof -
  assume wf: "bs_wf s"
  have "unat (bs_size s - min (bs_size s) n) = unat (bs_size s) - unat (min (bs_size s) n)"
    by (rule unat_minus_exact) simp
  with wf show ?thesis
    by (auto simp: bs_wf_def stream_simps word_le_nat_alt)
qed

lemma ByteStream_read_wf [wf_intros]: "bs_wf s \<Longrightarrow> bs_wf (fst (ByteStream_read s n))"
  by (simp add: stream_simps wf_intros)

lemma ByteStream_end_input_wf [wf_intros]: "bs_wf s \<Longrightarrow> bs_wf (ByteStream_end_input s)"
  by (simp add: bs_wf_def ByteStream_end_input_def)

lemma ByteStream_set_error_wf [wf_intros]: "bs_wf s \<Longrightarrow> bs_wf (ByteStream_set_error s)"
  by (simp add: bs_wf_def ByteStream_set_error_def)

section \<open>The contract: a bounded first-in first-out channel\<close>

text \<open>
  What the users of a stream (the reassembler, the sender, the socket's event loop) rely on.
  A run interleaves writes and reads; it collects the bytes the writes accepted and the bytes
  the reads returned.
\<close>

datatype channel_op = Write_op bytes | Read_op u64

fun channel_run ::
  "('s \<Rightarrow> bytes \<Rightarrow> 's \<times> u64) \<Rightarrow> ('s \<Rightarrow> u64 \<Rightarrow> 's \<times> bytes) \<Rightarrow> 's \<Rightarrow> channel_op list \<Rightarrow>
   's \<times> bytes \<times> bytes" where
  "channel_run wr rd s [] = (s, [], [])"
| "channel_run wr rd s (Write_op data # ops) =
     (let (s', n) = wr s data; (t, acc, out) = channel_run wr rd s' ops
      in (t, take (unat n) data @ acc, out))"
| "channel_run wr rd s (Read_op n # ops) =
     (let (s', d) = rd s n; (t, acc, out) = channel_run wr rd s' ops in (t, acc, d @ out))"

locale byte_channel =
  fixes contents :: "'s \<Rightarrow> bytes"
    and room :: "'s \<Rightarrow> nat"
    and cap :: "'s \<Rightarrow> nat"
    and invar :: "'s \<Rightarrow> bool"
    and wr :: "'s \<Rightarrow> bytes \<Rightarrow> 's \<times> u64"
    and rd :: "'s \<Rightarrow> u64 \<Rightarrow> 's \<times> bytes"
  assumes wr_contents: "invar s \<Longrightarrow> contents (fst (wr s d)) = contents s @ take (room s) d"
    and wr_count: "invar s \<Longrightarrow> unat (snd (wr s d)) = min (room s) (length d)"
    and rd_contents: "invar s \<Longrightarrow> contents (fst (rd s n)) = drop (unat n) (contents s)"
    and rd_result: "invar s \<Longrightarrow> snd (rd s n) = take (unat n) (contents s)"
    and room_cap: "invar s \<Longrightarrow> length (contents s) + room s = cap s"
    and wr_cap: "cap (fst (wr s d)) = cap s"
    and rd_cap: "cap (fst (rd s n)) = cap s"
    and wr_invar: "invar s \<Longrightarrow> invar (fst (wr s d))"
    and rd_invar: "invar s \<Longrightarrow> invar (fst (rd s n))"
begin

lemma run_fst:
  "fst (channel_run wr rd s (Write_op d # ops)) = fst (channel_run wr rd (fst (wr s d)) ops)"
  "fst (channel_run wr rd s (Read_op n # ops)) = fst (channel_run wr rd (fst (rd s n)) ops)"
  by (simp_all add: case_prod_beta)

lemma run_invar: "invar s \<Longrightarrow> invar (fst (channel_run wr rd s ops))"
proof (induction ops arbitrary: s)
  case (Cons x ops)
  then show ?case
    by (cases x) (simp_all only: run_fst wr_invar rd_invar)
qed simp

lemma run_cap: "cap (fst (channel_run wr rd s ops)) = cap s"
proof (induction ops arbitrary: s)
  case (Cons x ops)
  then show ?case
    by (cases x) (simp_all only: run_fst wr_cap rd_cap)
qed simp

lemma run_bounded: "invar s \<Longrightarrow> length (contents (fst (channel_run wr rd s ops))) \<le> cap s"
  using room_cap [OF run_invar] by (metis le_add1 run_cap)

lemma run_fifo:
  "invar s \<Longrightarrow> (case channel_run wr rd s ops of (t, acc, out) \<Rightarrow>
     contents s @ acc = out @ contents t)"
proof (induction ops arbitrary: s)
  case Nil
  then show ?case by simp
next
  case (Cons x ops)
  show ?case
  proof (cases x)
    case (Write_op d)
    obtain t acc out where r: "channel_run wr rd (fst (wr s d)) ops = (t, acc, out)"
      by (cases "channel_run wr rd (fst (wr s d)) ops") auto
    have "contents (fst (wr s d)) @ acc = out @ contents t"
      using Cons.IH [OF wr_invar [OF Cons.prems], of d] by (simp add: r)
    moreover have "take (unat (snd (wr s d))) d = take (room s) d"
      by (simp add: wr_count [OF Cons.prems] min_def)
    ultimately show ?thesis
      using Write_op r by (simp add: case_prod_beta wr_contents [OF Cons.prems])
  next
    case (Read_op n)
    obtain t acc out where r: "channel_run wr rd (fst (rd s n)) ops = (t, acc, out)"
      by (cases "channel_run wr rd (fst (rd s n)) ops") auto
    have "drop (unat n) (contents s) @ acc = out @ contents t"
      using Cons.IH [OF rd_invar [OF Cons.prems], of n]
      by (simp add: r rd_contents [OF Cons.prems])
    then have "contents s @ acc = take (unat n) (contents s) @ out @ contents t"
      by (metis append.assoc append_take_drop_id)
    then show ?thesis
      using Read_op r by (simp add: case_prod_beta rd_result [OF Cons.prems])
  qed
qed

end

interpretation bs: byte_channel bs_buffer bs_room "\<lambda>s. unat (bs_capacity s)" bs_wf
    ByteStream_write ByteStream_read
  by unfold_locales
    (auto simp: stream_simps wf_intros bs_room_wf dest: bs_wf_length)

section \<open>Properties\<close>

text \<open>
  C24: over any interleaving of writes and reads from a well-formed stream, what was buffered
  followed by the bytes the writes reported as accepted is exactly what the reads returned
  followed by what is buffered at the end; and the stream never buffers more than its capacity.
\<close>

theorem ByteStream_fifo:
  assumes "bs_wf s" and "channel_run ByteStream_write ByteStream_read s ops = (t, accepted, returned)"
  shows "bs_buffer s @ accepted = returned @ bs_buffer t \<and>
    bs_wf t \<and> length (bs_buffer t) \<le> unat (bs_capacity s)"
  using bs.run_fifo [OF assms(1), of ops] bs.run_invar [OF assms(1), of ops]
    bs.run_bounded [OF assms(1), of ops]
  by (simp add: assms(2))

theorem ByteStream_fifo_witness:
  "bs_buffer (ByteStream_new 2) @ [1, 2] =
     [1] @ bs_buffer (fst (channel_run ByteStream_write ByteStream_read (ByteStream_new 2)
       [Write_op [1, 2, 3], Read_op 1]))"
proof -
  have run: "channel_run ByteStream_write ByteStream_read (ByteStream_new 2)
      [Write_op [1, 2, 3], Read_op 1]
    = (ByteStream_new 2\<lparr>bs_buffer := [2], bs_size := 1, bs_nwritten := 2, bs_nread := 1\<rparr>,
       [1, 2], [1])"
    by (simp add: ByteStream_new_def ByteStream_write_def ByteStream_read_def size_u64_def
        ByteStream_peek_output_def ByteStream_pop_output_def ByteStream_remaining_capacity_def
        min_def word_le_nat_alt)
  from ByteStream_fifo [OF ByteStream_new_wf run] show ?thesis
    by (simp only: run fst_conv)
qed

text \<open>
  A reader of a well-formed stream sees end-of-file exactly when the writer has ended the
  input and every byte ever written has been popped (the two running totals agree).
\<close>

theorem ByteStream_eof_iff:
  assumes "bs_wf s"
  shows "ByteStream_eof s \<longleftrightarrow>
    ByteStream_input_ended s \<and> ByteStream_bytes_read s = ByteStream_bytes_written s"
  using assms by (auto simp: bs_wf_def ByteStream_accessor_defs)

theorem ByteStream_eof_iff_witness:
  "bs_wf (ByteStream_new 3) \<and>
   (ByteStream_eof (ByteStream_new 3) \<longleftrightarrow> ByteStream_input_ended (ByteStream_new 3) \<and>
     ByteStream_bytes_read (ByteStream_new 3) = ByteStream_bytes_written (ByteStream_new 3))"
  using ByteStream_eof_iff [OF ByteStream_new_wf, of 3] by (simp add: wf_intros)

text \<open>
  Ending the input does not stop a later write: it accepts as many bytes as before and
  appends them, so the stream leaves end-of-file again.
\<close>

theorem ByteStream_write_ignores_end:
  "snd (ByteStream_write (ByteStream_end_input s) data) = snd (ByteStream_write s data) \<and>
   bs_buffer (fst (ByteStream_write (ByteStream_end_input s) data))
     = bs_buffer (fst (ByteStream_write s data))"
  by (simp add: ByteStream_write_def ByteStream_end_input_def Let_def
      ByteStream_remaining_capacity_def)

end
