(* ===== verification/Wrapping_Integers.thy ===== *)
theory Wrapping_Integers
  imports Prelude
begin

text \<open>
  Sequence numbers: \<^verbatim>\<open>libsponge/wrapping_integers.{hh,cc}\<close>.  A \<^verbatim>\<open>WrappingInt32\<close> is a
  32-bit value relative to an initial sequence number; \<^verbatim>\<open>wrap\<close> forgets the upper half of an
  absolute 64-bit number and \<^verbatim>\<open>unwrap\<close> recovers it near a checkpoint.
\<close>

section \<open>Definitions\<close>

datatype WrappingInt32 = WrappingInt32 (raw_value: u32)

text \<open>\<^verbatim>\<open>operator-\<close> on two sequence numbers returns an \<^verbatim>\<open>int32_t\<close>, kept as the number it denotes.\<close>

definition WrappingInt32_minus :: "WrappingInt32 \<Rightarrow> WrappingInt32 \<Rightarrow> int" where
  "WrappingInt32_minus a b = sint (raw_value a - raw_value b)"

definition WrappingInt32_eq :: "WrappingInt32 \<Rightarrow> WrappingInt32 \<Rightarrow> bool" where
  "WrappingInt32_eq a b = (raw_value a = raw_value b)"

definition WrappingInt32_plus :: "WrappingInt32 \<Rightarrow> u32 \<Rightarrow> WrappingInt32" where
  "WrappingInt32_plus a b = WrappingInt32 (raw_value a + b)"

definition WrappingInt32_minus_u32 :: "WrappingInt32 \<Rightarrow> u32 \<Rightarrow> WrappingInt32" where
  "WrappingInt32_minus_u32 a b = WrappingInt32_plus a (- b)"

definition wrap :: "u64 \<Rightarrow> WrappingInt32 \<Rightarrow> WrappingInt32" where
  "wrap n isn = WrappingInt32_plus isn (ucast n)"

definition unwrap :: "WrappingInt32 \<Rightarrow> WrappingInt32 \<Rightarrow> u64 \<Rightarrow> u64" where
  "unwrap n isn checkpoint =
     (let wrap_checkpoint = wrap checkpoint isn;
          diff = (word_of_int (WrappingInt32_minus n wrap_checkpoint) :: u32)
      in if diff AND 0x80000000 \<noteq> 0 \<and> ucast diff + checkpoint \<le> 0xFFFFFFFF
         then checkpoint + ucast diff
         else checkpoint + word_of_int (sint diff))"

section \<open>Arithmetic of the two maps\<close>

lemma WrappingInt32_eq_iff: "WrappingInt32_eq a b \<longleftrightarrow> a = b"
  by (cases a; cases b) (simp add: WrappingInt32_eq_def)

lemma WrappingInt32_plus_minus_u32:
  "WrappingInt32_minus_u32 (WrappingInt32_plus a b) b = a"
  by (cases a) (simp add: WrappingInt32_minus_u32_def WrappingInt32_plus_def)

lemma uint_wrap: "uint (raw_value (wrap n isn)) = (uint (raw_value isn) + uint n) mod 2 ^ 32"
  by (simp add: wrap_def WrappingInt32_plus_def uint_word_ariths unsigned_ucast_eq take_bit_eq_mod
      mod_simps)

lemma wrap_eq_iff:
  "wrap m isn = n \<longleftrightarrow> (uint (raw_value isn) + uint m) mod 2 ^ 32 = uint (raw_value n)"
proof -
  have "wrap m isn = n \<longleftrightarrow> uint (raw_value (wrap m isn)) = uint (raw_value n)"
    by (cases n; cases "wrap m isn") (simp add: word_uint_eq_iff)
  then show ?thesis by (simp add: uint_wrap)
qed

lemma wrap_plus: "wrap (a + b) isn = WrappingInt32_plus (wrap a isn) (ucast b)"
  by (simp add: wrap_def WrappingInt32_plus_def add.assoc unsigned_ucast_eq
      word_uint_eq_iff uint_word_ariths take_bit_eq_mod mod_simps mod_mod_cancel
      mod_add_right_eq [of _ "_ mod 18446744073709551616", symmetric])

text \<open>The distance from the checkpoint to \<open>n\<close>, counted upwards.\<close>

definition seq_offset :: "WrappingInt32 \<Rightarrow> WrappingInt32 \<Rightarrow> u64 \<Rightarrow> int" where
  "seq_offset n isn cp = (uint (raw_value n) - uint (raw_value isn) - uint cp) mod 2 ^ 32"

lemma seq_offset_bounds: "0 \<le> seq_offset n isn cp" "seq_offset n isn cp < 2 ^ 32"
  by (simp_all add: seq_offset_def)

lemma seq_offset_diff:
  "uint (word_of_int (WrappingInt32_minus n (wrap cp isn)) :: u32) = seq_offset n isn cp"
proof -
  have "(word_of_int (WrappingInt32_minus n (wrap cp isn)) :: u32)
      = raw_value n - raw_value (wrap cp isn)"
    by (simp add: WrappingInt32_minus_def)
  then show ?thesis
    by (simp only:) (simp add: uint_word_ariths seq_offset_def uint_wrap mod_simps algebra_simps)
qed

lemma uint_u32_range: "0 \<le> uint (d :: u32)" "uint (d :: u32) < 2 ^ 32"
  using uint_bounded [of d] by simp_all

lemma high_bit_u32: "(d :: u32) AND 0x80000000 \<noteq> 0 \<longleftrightarrow> 2 ^ 31 \<le> uint d"
proof -
  have "(0x80000000 :: u32) = 2 ^ 31" by simp
  then have "d AND 0x80000000 \<noteq> 0 \<longleftrightarrow> bit d 31"
    by (simp only: and_exp_eq_0_iff_not_bit not_not)
  also have "\<dots> \<longleftrightarrow> bit (uint d) 31"
    by (simp add: bit_uint_iff)
  also have "\<dots> \<longleftrightarrow> odd (uint d div 2 ^ 31)"
    by (simp only: bit_iff_odd)
  also have "\<dots> \<longleftrightarrow> 2 ^ 31 \<le> uint d"
  proof (cases "uint d < 2 ^ 31")
    case True
    then show ?thesis using uint_u32_range [of d] by simp
  next
    case False
    then have "uint d div 2 ^ 31 = 1"
      using uint_u32_range [of d] by (simp add: int_div_pos_eq)
    with False show ?thesis by simp
  qed
  finally show ?thesis .
qed

lemma sint_u32: "sint (d :: u32) = (if uint d < 2 ^ 31 then uint d else uint d - 2 ^ 32)"
proof -
  have "uint d = sint d mod 2 ^ 32"
    by (simp add: uint_sint [of d] take_bit_eq_mod)
  moreover have "- (2 ^ 31) \<le> sint d" and "sint d < 2 ^ 31"
    using sint_ge [of d] sint_lt [of d] by simp_all
  moreover have "sint d mod 2 ^ 32 = (if sint d < 0 then sint d + 2 ^ 32 else sint d)"
    if "- (2 ^ 31) \<le> sint d" "sint d < 2 ^ 31"
    using that mod_pos_pos_trivial [of "sint d + 2 ^ 32" "2 ^ 32"]
    by (auto simp: mod_pos_pos_trivial)
  ultimately show ?thesis by simp
qed

text \<open>
  The value of \<^verbatim>\<open>unwrap\<close>, away from the very top of the 64-bit range: the candidate
  above the checkpoint when it is the nearer one or when the one below would be negative, and
  otherwise the candidate below.
\<close>

lemma uint_unwrap:
  assumes cp: "uint cp + 2 ^ 32 \<le> 2 ^ 64"
  shows "uint (unwrap n isn cp) =
    (let d = seq_offset n isn cp
     in if d < 2 ^ 31 \<or> uint cp + d < 2 ^ 32 then uint cp + d else uint cp + d - 2 ^ 32)"
proof -
  define diff where "diff = (word_of_int (WrappingInt32_minus n (wrap cp isn)) :: u32)"
  define d where "d = seq_offset n isn cp"
  have d: "uint diff = d" "0 \<le> d" "d < 2 ^ 32"
    using seq_offset_bounds by (auto simp: diff_def d_def seq_offset_diff)
  have c0: "0 \<le> uint cp" by simp
  have sum: "uint (cp + ucast diff) = uint cp + d"
    using d c0 cp by (simp add: uint_word_ariths unsigned_ucast_eq take_bit_eq_mod)
  have uint_max: "uint (0xFFFFFFFF :: u64) = 0xFFFFFFFF" by simp
  have le: "ucast diff + cp \<le> 0xFFFFFFFF \<longleftrightarrow> uint cp + d < 2 ^ 32"
    using sum uint_max by (simp only: word_le_def add.commute [of "ucast diff"]) (simp, linarith)
  have low: "uint (cp + word_of_int (sint diff)) = uint cp + d - 2 ^ 32"
    if "2 ^ 31 \<le> d" "\<not> uint cp + d < 2 ^ 32"
    using that d c0 cp by (simp add: uint_word_ariths sint_u32 uint_word_of_int mod_simps)
  have up: "uint (cp + word_of_int (sint diff)) = uint cp + d" if "d < 2 ^ 31"
    using that d c0 cp by (simp add: uint_word_ariths sint_u32 uint_word_of_int mod_simps)
  show ?thesis
    unfolding unwrap_def Let_def diff_def [symmetric] d_def [symmetric]
    using le sum low up d by (auto simp: high_bit_u32)
qed

section \<open>What the two maps promise\<close>

lemma wrap_unwrap_mod:
  assumes "uint cp + 2 ^ 32 \<le> 2 ^ 64"
  shows "wrap (unwrap n isn cp) isn = n"
proof -
  define q where "q = uint (raw_value n) - uint (raw_value isn) - uint cp"
  have qmod: "q mod 2 ^ 32 = q - q div 2 ^ 32 * 2 ^ 32"
    by (rule minus_div_mult_eq_mod [symmetric])
  obtain k :: int where k: "uint (unwrap n isn cp) = uint cp + q + k * 2 ^ 32"
  proof (cases "q mod 2 ^ 32 < 2 ^ 31 \<or> uint cp + q mod 2 ^ 32 < 2 ^ 32")
    case True
    then show ?thesis
      using that [of "- (q div 2 ^ 32)"] uint_unwrap [OF assms, of n isn] qmod
      by (simp add: seq_offset_def q_def)
  next
    case False
    then show ?thesis
      using that [of "- (q div 2 ^ 32) - 1"] uint_unwrap [OF assms, of n isn] qmod
      by (simp add: seq_offset_def q_def algebra_simps)
  qed
  have "uint (raw_value isn) + uint (unwrap n isn cp) = uint (raw_value n) + k * 2 ^ 32"
    by (simp add: k q_def)
  then show ?thesis
    using uint_u32_range [of "raw_value n"] by (simp add: wrap_eq_iff mod_pos_pos_trivial)
qed

lemma wrap_congruent:
  assumes "wrap m isn = n"
  obtains k where "uint m = uint cp + seq_offset n isn cp + k * 2 ^ 32"
proof -
  have "uint (raw_value n) = (uint (raw_value isn) + uint m) mod 2 ^ 32"
    using assms by (simp add: wrap_eq_iff)
  then have "seq_offset n isn cp = (uint m - uint cp) mod 2 ^ 32"
    by (simp add: seq_offset_def diff_diff_eq mod_diff_left_eq)
  then have "uint m - uint cp
      = (uint m - uint cp) div 2 ^ 32 * 2 ^ 32 + seq_offset n isn cp"
    by (simp only: div_mult_mod_eq)
  then show thesis
    by (intro that [of "(uint m - uint cp) div 2 ^ 32"]) linarith
qed

lemma unwrap_wrap_near:
  assumes cp: "uint cp + 2 ^ 32 \<le> 2 ^ 64"
    and near: "uint cp - 2 ^ 31 \<le> uint x" "uint x < uint cp + 2 ^ 31"
  shows "unwrap (wrap x isn) isn cp = x"
proof -
  have x0: "0 \<le> uint x" by simp
  obtain k where k: "uint x = uint cp + seq_offset (wrap x isn) isn cp + k * 2 ^ 32"
    by (rule wrap_congruent [OF refl])
  have d: "0 \<le> seq_offset (wrap x isn) isn cp" "seq_offset (wrap x isn) isn cp < 2 ^ 32"
    by (rule seq_offset_bounds)+
  with k near have "- 2 < k" and "k < 1" by simp_all
  then have "k = 0 \<or> k = - 1" by linarith
  with k d near x0 have "uint (unwrap (wrap x isn) isn cp) = uint x"
    by (auto simp: uint_unwrap [OF cp] Let_def)
  then show ?thesis by (simp add: word_uint_eq_iff)
qed

lemma unwrap_closest:
  assumes cp: "uint cp + 2 ^ 32 \<le> 2 ^ 64" and m: "wrap m isn = n"
  shows "\<bar>uint (unwrap n isn cp) - uint cp\<bar> \<le> \<bar>uint m - uint cp\<bar>"
proof -
  have m0: "0 \<le> uint m" by simp
  define d where "d = seq_offset n isn cp"
  obtain k where k: "uint m = uint cp + d + k * 2 ^ 32"
    unfolding d_def by (rule wrap_congruent [OF m])
  have d: "0 \<le> d" "d < 2 ^ 32"
    unfolding d_def by (rule seq_offset_bounds)+
  have u: "uint (unwrap n isn cp) - uint cp =
      (if d < 2 ^ 31 \<or> uint cp + d < 2 ^ 32 then d else d - 2 ^ 32)"
    by (simp add: uint_unwrap [OF cp] Let_def d_def)
  consider "1 \<le> k" | "k = 0" | "k = - 1" | "k \<le> - 2" by linarith
  then show ?thesis
    using k d m0 unfolding u by cases (auto simp: abs_if)
qed

section \<open>Sequence numbers as an interface\<close>

text \<open>
  What the receiver and the sender rely on: a number that is sent and decoded against a
  checkpoint closer than half the 32-bit space comes back unchanged.
\<close>

locale seq_codec =
  fixes enc :: "u64 \<Rightarrow> 'n"
    and dec :: "'n \<Rightarrow> u64 \<Rightarrow> u64"
  assumes dec_enc: "uint cp + 2 ^ 32 \<le> 2 ^ 64 \<Longrightarrow> uint cp - 2 ^ 31 \<le> uint x \<Longrightarrow>
    uint x < uint cp + 2 ^ 31 \<Longrightarrow> dec (enc x) cp = x"
begin

lemma dec_enc_nat:
  assumes "unat cp + 2 ^ 32 \<le> 2 ^ 64" and "unat cp \<le> unat x + 2 ^ 31"
    and "unat x < unat cp + 2 ^ 31"
  shows "dec (enc x) cp = x"
proof (rule dec_enc)
  show "uint cp + 2 ^ 32 \<le> 2 ^ 64"
    using of_nat_mono [OF assms(1), where 'a = int] by simp
  show "uint cp - 2 ^ 31 \<le> uint x"
    using of_nat_mono [OF assms(2), where 'a = int] by simp
  show "uint x < uint cp + 2 ^ 31"
    using of_nat_mono [OF Suc_leI [OF assms(3)], where 'a = int] by simp
qed

lemma enc_inj_near:
  assumes "unat x < 2 ^ 31" and "unat y < 2 ^ 31" and "enc x = enc y"
  shows "x = y"
proof -
  have "dec (enc x) 0 = x" and "dec (enc y) 0 = y"
    using assms(1,2) by (auto intro!: dec_enc_nat)
  with assms(3) show ?thesis by metis
qed

end

interpretation seqno: seq_codec "\<lambda>n. wrap n isn" "\<lambda>n cp. unwrap n isn cp" for isn
  by unfold_locales (rule unwrap_wrap_near)

section \<open>Properties\<close>

text \<open>
  C10: for every sequence number, initial sequence number and checkpoint (at least
  \<open>2\<^sup>3\<^sup>2\<close> below the top of the 64-bit range), \<^verbatim>\<open>unwrap\<close> returns an absolute number
  that wraps to the given one, and no other number that wraps to it is closer to the
  checkpoint: the contract in the comment of \<^verbatim>\<open>unwrap\<close>.
\<close>

theorem unwrap_is_closest:
  assumes "uint checkpoint + 2 ^ 32 \<le> 2 ^ 64"
  shows "wrap (unwrap n isn checkpoint) isn = n \<and>
    (\<forall>m. wrap m isn = n \<longrightarrow>
       \<bar>uint (unwrap n isn checkpoint) - uint checkpoint\<bar> \<le> \<bar>uint m - uint checkpoint\<bar>)"
  using wrap_unwrap_mod [OF assms] unwrap_closest [OF assms] by blast

theorem unwrap_is_closest_witness:
  "uint (5 :: u64) + 2 ^ 32 \<le> 2 ^ 64 \<and>
   wrap (unwrap (WrappingInt32 7) (WrappingInt32 16) 5) (WrappingInt32 16) = WrappingInt32 7"
  using unwrap_is_closest [of 5 "WrappingInt32 7" "WrappingInt32 16"] by simp

text \<open>
  Wrapping an absolute number and unwrapping it against a checkpoint less than
  \<open>2\<^sup>3\<^sup>1\<close> away gives the number back, whatever the initial sequence number.
\<close>

theorem unwrap_wrap_roundtrip:
  assumes "unat checkpoint + 2 ^ 32 \<le> 2 ^ 64"
    and "unat checkpoint \<le> unat n + 2 ^ 31" and "unat n < unat checkpoint + 2 ^ 31"
  shows "unwrap (wrap n isn) isn checkpoint = n"
  using assms by (rule seqno.dec_enc_nat)

theorem unwrap_wrap_roundtrip_witness:
  "unwrap (wrap 4294967300 (WrappingInt32 4294967295)) (WrappingInt32 4294967295) 4294967290
     = 4294967300"
  by (rule unwrap_wrap_roundtrip) simp_all

end
