(* ===== verification/Stream_Reassembler.thy ===== *)
theory Stream_Reassembler
  imports Byte_Stream
begin

text \<open>
  The reassembler of \<^verbatim>\<open>libsponge/stream_reassembler.{hh,cc}\<close>: a circular buffer of
  \<^verbatim>\<open>_capacity\<close> slots with one mark per slot, the position \<^verbatim>\<open>rpos\<close> of the first byte
  not yet written to the output, and the output stream.  The theory gives the record and the
  operations, an abstract window (a partial map from stream indices to bytes), the refinement
  of \<^verbatim>\<open>push_substring\<close> to an operation on that window, and the safety of reassembly.
\<close>

section \<open>State and operations\<close>

record stream_reassembler =
  sr_output :: byte_stream
  sr_capacity :: u64
  sr_buffer :: bytes
  sr_bit_map :: bytes
  sr_rpos :: u64
  sr_unassembled_bytes :: u64
  sr_eof_index :: u64

definition StreamReassembler_new :: "u64 \<Rightarrow> stream_reassembler" where
  "StreamReassembler_new capacity =
     \<lparr>sr_output = ByteStream_new capacity, sr_capacity = capacity,
      sr_buffer = replicate (unat capacity) 0, sr_bit_map = replicate (unat capacity) 0,
      sr_rpos = 0, sr_unassembled_bytes = 0, sr_eof_index = -1\<rparr>"

text \<open>The body of the first loop of \<^verbatim>\<open>push_substring\<close>: one byte into its slot.\<close>

definition store_byte :: "bytes \<Rightarrow> u64 \<Rightarrow> u64 \<Rightarrow> stream_reassembler \<Rightarrow> stream_reassembler" where
  "store_byte data index i s =
     (let bi = unat (i mod sr_capacity s);
          s' = s\<lparr>sr_buffer := (sr_buffer s)[bi := data ! unat (i - index)]\<rparr>
      in if sr_bit_map s' ! bi = 0
         then s'\<lparr>sr_bit_map := (sr_bit_map s')[bi := 1],
                 sr_unassembled_bytes := sr_unassembled_bytes s' + 1\<rparr>
         else s')"

text \<open>The loop that looks for the end of the contiguous bytes at the front of the window.\<close>

function find_avail_end :: "stream_reassembler \<Rightarrow> u64 \<Rightarrow> u64" where
  "find_avail_end s avail_end =
     (if sr_bit_map s ! unat (avail_end mod sr_capacity s) \<noteq> 0 \<and>
         avail_end < sr_rpos s + sr_capacity s
      then find_avail_end s (avail_end + 1) else avail_end)"
  by pat_completeness auto
termination
  by (relation "measure (\<lambda>(s, i). unat (sr_rpos s + sr_capacity s) - unat i)")
    (auto simp: unat_inc word_less_nat_alt)

declare find_avail_end.simps [simp del]

text \<open>The body of the loop that releases the slots of the bytes that were written.\<close>

definition clear_slot :: "u64 \<Rightarrow> stream_reassembler \<Rightarrow> stream_reassembler" where
  "clear_slot i s =
     s\<lparr>sr_bit_map := (sr_bit_map s)[unat (i mod sr_capacity s) := 0]\<rparr>"

definition submit_available :: "u64 \<Rightarrow> stream_reassembler \<Rightarrow> stream_reassembler" where
  "submit_available avail_end s =
     (if avail_end > sr_rpos s then
        let data_submit =
              map (\<lambda>k. sr_buffer s ! unat ((sr_rpos s + word_of_nat k) mod sr_capacity s))
                [0..<unat (avail_end - sr_rpos s)];
            (output', written_bytes) = ByteStream_write (sr_output s) data_submit;
            s' = for_u64 (sr_rpos s) (sr_rpos s + written_bytes) clear_slot
                   (s\<lparr>sr_output := output'\<rparr>)
        in s'\<lparr>sr_rpos := sr_rpos s' + written_bytes,
              sr_unassembled_bytes := sr_unassembled_bytes s' - written_bytes\<rparr>
      else s)"

definition update_eof :: "bytes \<Rightarrow> u64 \<Rightarrow> bool \<Rightarrow> stream_reassembler \<Rightarrow> stream_reassembler" where
  "update_eof data index eof s =
     (let s' = (if eof then s\<lparr>sr_eof_index := index + size_u64 data\<rparr> else s)
      in if ByteStream_bytes_written (sr_output s') = sr_eof_index s'
         then s'\<lparr>sr_output := ByteStream_end_input (sr_output s')\<rparr>
         else s')"

text \<open>
  With no capacity the modulo operation in the condition of the second loop divides by zero;
  the first loop is empty then.
\<close>

definition push_substring ::
  "stream_reassembler \<Rightarrow> bytes \<Rightarrow> u64 \<Rightarrow> bool \<Rightarrow> stream_reassembler outcome" where
  "push_substring s data index eof =
     (if sr_capacity s = 0 then Inl Division_by_zero
      else
        let start_index = max (sr_rpos s) index;
            end_index = min (sr_rpos s + sr_capacity s) (index + size_u64 data);
            s1 = for_u64 start_index end_index (store_byte data index) s;
            s2 = submit_available (find_avail_end s1 (sr_rpos s1)) s1
        in Inr (update_eof data index eof s2))"

definition StreamReassembler_stream_out :: "stream_reassembler \<Rightarrow> byte_stream" where
  "StreamReassembler_stream_out s = sr_output s"

definition StreamReassembler_unassembled_bytes :: "stream_reassembler \<Rightarrow> u64" where
  "StreamReassembler_unassembled_bytes s = sr_unassembled_bytes s"

definition StreamReassembler_empty :: "stream_reassembler \<Rightarrow> bool" where
  "StreamReassembler_empty s = (StreamReassembler_unassembled_bytes s = 0)"

section \<open>The abstract window\<close>

definition sr_cap :: "stream_reassembler \<Rightarrow> nat" where
  "sr_cap s = unat (sr_capacity s)"

definition sr_pos :: "stream_reassembler \<Rightarrow> nat" where
  "sr_pos s = unat (sr_rpos s)"

definition marked :: "bytes \<Rightarrow> nat" where
  "marked bm = length (filter (\<lambda>b. b \<noteq> 0) bm)"

text \<open>The byte stored for stream index \<open>i\<close>, if there is one.\<close>

definition sr_window :: "stream_reassembler \<Rightarrow> nat \<Rightarrow> u8 option" where
  "sr_window s i =
     (if sr_pos s \<le> i \<and> i < sr_pos s + sr_cap s \<and> sr_bit_map s ! (i mod sr_cap s) \<noteq> 0
      then Some (sr_buffer s ! (i mod sr_cap s)) else None)"

text \<open>The shape of the arrays and the count of marked slots.\<close>

definition sr_arrays :: "stream_reassembler \<Rightarrow> bool" where
  "sr_arrays s \<longleftrightarrow> 0 < sr_cap s \<and> length (sr_buffer s) = sr_cap s \<and>
     length (sr_bit_map s) = sr_cap s"

definition sr_shape :: "stream_reassembler \<Rightarrow> bool" where
  "sr_shape s \<longleftrightarrow> sr_arrays s \<and>
     sr_unassembled_bytes s = word_of_nat (marked (sr_bit_map s))"

definition sr_wf :: "stream_reassembler \<Rightarrow> bool" where
  "sr_wf s \<longleftrightarrow> sr_shape s \<and> bs_wf (sr_output s) \<and> bs_capacity (sr_output s) = sr_capacity s \<and>
     sr_rpos s = bs_nwritten (sr_output s)"

text \<open>Two indices of one window never share a slot.\<close>

lemma window_slot_inj:
  fixes i j r c :: nat
  assumes "r \<le> i" "i < r + c" "r \<le> j" "j < r + c" "i mod c = j mod c"
  shows "i = j"
proof -
  have "\<bar>int i - int j\<bar> < int c" using assms by linarith
  moreover have "int c dvd int i - int j"
    using assms(5) by (metis mod_eq_dvd_iff of_nat_mod)
  ultimately show ?thesis
    by (metis zdvd_imp_le zdvd_not_zless abs_if diff_0_right dvd_abs_iff eq_iff_diff_eq_0 nat_int
        linorder_neqE_linordered_idom zero_less_abs_iff)
qed

lemma sr_window_outside: "\<not> (sr_pos s \<le> i \<and> i < sr_pos s + sr_cap s) \<Longrightarrow> sr_window s i = None"
  by (auto simp: sr_window_def)

lemma sr_window_updates [simp]:
  "sr_window (s\<lparr>sr_unassembled_bytes := u\<rparr>) = sr_window s"
  "sr_window (s\<lparr>sr_output := b\<rparr>) = sr_window s"
  "sr_window (s\<lparr>sr_eof_index := e\<rparr>) = sr_window s"
  by (simp_all add: fun_eq_iff sr_window_def sr_pos_def sr_cap_def)

lemma marked_update:
  assumes "k < length bm"
  shows "marked (bm[k := v]) + of_bool (bm ! k \<noteq> 0) = marked bm + of_bool (v \<noteq> 0)"
  using assms
proof (induction bm arbitrary: k)
  case (Cons b bm)
  then show ?case by (cases k) (auto simp: marked_def)
qed simp

lemma marked_le: "marked bm \<le> length bm"
  by (simp add: marked_def)

lemma unat_slot:
  assumes "k < 2 ^ 64"
  shows "unat ((word_of_nat k :: u64) mod c) = k mod unat c"
  using assms by (simp add: unat_mod unat_of_nat)

section \<open>The three loops on the window\<close>

text \<open>What the loops leave alone.\<close>

definition sr_same_frame :: "stream_reassembler \<Rightarrow> stream_reassembler \<Rightarrow> bool" where
  "sr_same_frame s t \<longleftrightarrow> sr_capacity t = sr_capacity s \<and> sr_rpos t = sr_rpos s \<and>
     sr_output t = sr_output s \<and> sr_eof_index t = sr_eof_index s"

lemma sr_same_frame_cap: "sr_same_frame s t \<Longrightarrow> sr_cap t = sr_cap s \<and> sr_pos t = sr_pos s"
  by (simp add: sr_same_frame_def sr_cap_def sr_pos_def)

lemma store_byte_frame: "sr_same_frame s (store_byte data index i s)"
  by (simp add: sr_same_frame_def store_byte_def Let_def)

lemma clear_slot_frame: "sr_same_frame s (clear_slot i s)"
  by (simp add: sr_same_frame_def clear_slot_def)

lemma store_byte_shape:
  assumes "sr_shape s"
  shows "sr_shape (store_byte data index i s)"
proof -
  define bi where "bi = unat (i mod sr_capacity s)"
  have "bi < sr_cap s"
    using assms unat_mod [of i "sr_capacity s"]
    by (simp add: bi_def sr_shape_def sr_arrays_def sr_cap_def)
  then have "marked ((sr_bit_map s)[bi := 1]) + of_bool (sr_bit_map s ! bi \<noteq> 0)
      = marked (sr_bit_map s) + of_bool ((1 :: u8) \<noteq> 0)"
    using assms by (intro marked_update) (simp add: sr_shape_def sr_arrays_def)
  then have "sr_bit_map s ! bi = 0 \<Longrightarrow>
      marked ((sr_bit_map s)[bi := 1]) = Suc (marked (sr_bit_map s))" by simp
  then show ?thesis
    using assms
    by (simp add: sr_shape_def sr_arrays_def store_byte_def Let_def sr_cap_def bi_def [symmetric]
        add.commute)
qed

lemma store_byte_window:
  assumes arrays: "sr_arrays s" and k: "sr_pos s \<le> k" "k < sr_pos s + sr_cap s" "k < 2 ^ 64"
    and index: "unat index \<le> k"
  shows "sr_window (store_byte data index (word_of_nat k) s)
    = (sr_window s)(k \<mapsto> data ! (k - unat index))"
proof
  fix i
  define bi where "bi = k mod sr_cap s"
  have c0: "0 < sr_cap s" and lb: "length (sr_buffer s) = sr_cap s"
    and lm: "length (sr_bit_map s) = sr_cap s"
    using arrays by (simp_all add: sr_arrays_def)
  have bi: "unat ((word_of_nat k :: u64) mod sr_capacity s) = bi" "bi < sr_cap s"
    using k(3) c0 by (simp_all add: unat_slot bi_def sr_cap_def)
  have off: "unat ((word_of_nat k :: u64) - index) = k - unat index"
    using k(3) index by (subst unat_minus_exact) (simp_all add: unat_of_nat)
  let ?t = "store_byte data index (word_of_nat k) s"
  have fr: "sr_cap ?t = sr_cap s" "sr_pos ?t = sr_pos s"
    using sr_same_frame_cap [OF store_byte_frame] by auto
  have buf: "sr_buffer ?t = (sr_buffer s)[bi := data ! (k - unat index)]"
    by (simp add: store_byte_def Let_def bi off)
  have bm: "sr_bit_map ?t = (if sr_bit_map s ! bi = 0 then (sr_bit_map s)[bi := 1] else sr_bit_map s)"
    by (simp add: store_byte_def Let_def bi)
  show "sr_window ?t i = ((sr_window s)(k \<mapsto> data ! (k - unat index))) i"
  proof (cases "sr_pos s \<le> i \<and> i < sr_pos s + sr_cap s")
    case True
    show ?thesis
    proof (cases "i = k")
      case True
      with k bi lb lm show ?thesis
        by (simp add: sr_window_def fr buf bm bi_def [symmetric])
    next
      case False
      with True k have "i mod sr_cap s \<noteq> bi"
        using window_slot_inj [of "sr_pos s" i "sr_cap s" k] by (auto simp: bi_def)
      with False show ?thesis
        by (simp add: sr_window_def fr buf bm)
    qed
  next
    case False
    with k show ?thesis by (auto simp: sr_window_def fr)
  qed
qed

lemma clear_slot_window:
  assumes arrays: "sr_arrays s" and k: "sr_pos s \<le> k" "k < sr_pos s + sr_cap s" "k < 2 ^ 64"
  shows "sr_window (clear_slot (word_of_nat k) s) = (sr_window s)(k := None)"
proof
  fix i
  have c0: "0 < sr_cap s" and lm: "length (sr_bit_map s) = sr_cap s"
    using arrays by (simp_all add: sr_arrays_def)
  have bi: "unat ((word_of_nat k :: u64) mod sr_capacity s) = k mod sr_cap s"
    "k mod sr_cap s < sr_cap s"
    using k(3) c0 by (simp_all add: unat_slot sr_cap_def)
  have fr: "sr_cap (clear_slot (word_of_nat k) s) = sr_cap s"
    "sr_pos (clear_slot (word_of_nat k) s) = sr_pos s"
    using sr_same_frame_cap [OF clear_slot_frame] by auto
  show "sr_window (clear_slot (word_of_nat k) s) i = ((sr_window s)(k := None)) i"
  proof (cases "sr_pos s \<le> i \<and> i < sr_pos s + sr_cap s \<and> i \<noteq> k")
    case True
    with k have "i mod sr_cap s \<noteq> k mod sr_cap s"
      using window_slot_inj [of "sr_pos s" i "sr_cap s" k] by auto
    with True show ?thesis
      by (simp add: sr_window_def fr) (simp add: clear_slot_def bi)
  next
    case False
    show ?thesis
    proof (cases "i = k")
      case True
      have "sr_bit_map (clear_slot (word_of_nat k) s) ! (k mod sr_cap s) = 0"
        using bi lm by (simp add: clear_slot_def)
      with True show ?thesis by (simp add: sr_window_def fr)
    next
      case neq: False
      with False have "\<not> (sr_pos s \<le> i \<and> i < sr_pos s + sr_cap s)" by simp
      with neq show ?thesis by (simp add: sr_window_outside fr)
    qed
  qed
qed

lemma clear_slot_marked:
  assumes arrays: "sr_arrays s" and "k < 2 ^ 64" "sr_window s k \<noteq> None"
  shows "marked (sr_bit_map s) = Suc (marked (sr_bit_map (clear_slot (word_of_nat k) s)))"
proof -
  have bm: "sr_bit_map (clear_slot (word_of_nat k) s) = (sr_bit_map s)[k mod sr_cap s := 0]"
    using unat_slot [OF assms(2), of "sr_capacity s"] by (simp add: clear_slot_def sr_cap_def)
  have "sr_bit_map s ! (k mod sr_cap s) \<noteq> 0"
    using assms(3) by (simp add: sr_window_def split: if_splits)
  then show ?thesis
    using marked_update [of "k mod sr_cap s" "sr_bit_map s" 0] arrays
    by (simp add: bm sr_arrays_def)
qed

text \<open>What storing a substring does to a window at position \<open>r\<close> of width \<open>c\<close>.\<close>

definition spec_store :: "nat \<Rightarrow> nat \<Rightarrow> bytes \<Rightarrow> nat \<Rightarrow> (nat \<Rightarrow> u8 option) \<Rightarrow> nat \<Rightarrow> u8 option" where
  "spec_store r c d k W i =
     (if r \<le> i \<and> i < r + c \<and> k \<le> i \<and> i < k + length d then Some (d ! (i - k)) else W i)"

lemma sr_same_frame_trans: "sr_same_frame s t \<Longrightarrow> sr_same_frame t u \<Longrightarrow> sr_same_frame s u"
  by (simp add: sr_same_frame_def)

lemma sr_same_frame_refl: "sr_same_frame s s"
  by (simp add: sr_same_frame_def)

lemma store_loop:
  assumes shape: "sr_shape s" and bound: "sr_pos s + sr_cap s < 2 ^ 64"
    and index: "unat index + length data < 2 ^ 64"
    and t: "t = for_u64 (max (sr_rpos s) index)
      (min (sr_rpos s + sr_capacity s) (index + size_u64 data)) (store_byte data index) s"
  shows "sr_same_frame s t \<and> sr_shape t \<and>
    sr_window t = spec_store (sr_pos s) (sr_cap s) data (unat index) (sr_window s)"
proof -
  define a where "a = max (sr_pos s) (unat index)"
  define b where "b = min (sr_pos s + sr_cap s) (unat index + length data)"
  define P where "P k t \<longleftrightarrow> sr_same_frame s t \<and> sr_shape t \<and> sr_window t =
      (\<lambda>i. if a \<le> i \<and> i < k then Some (data ! (i - unat index)) else sr_window s i)" for k t
  have "unat (sr_rpos s + sr_capacity s) = sr_pos s + sr_cap s"
    using bound by (subst unat_plus_exact) (simp_all add: sr_pos_def sr_cap_def)
  moreover have "unat (index + size_u64 data) = unat index + length data"
    using index by (subst unat_plus_exact) (simp_all add: unat_size_u64)
  ultimately have t': "t = fold (\<lambda>k. store_byte data index (word_of_nat k)) [a..<b] s"
    by (simp add: t for_u64_fold a_def b_def sr_pos_def)
  have "P (max a b) t"
  proof (cases "a \<le> b")
    case True
    have "P b t"
      unfolding t'
    proof (rule fold_upt_induct [OF True])
      show "P a s" using shape by (auto simp: P_def sr_same_frame_refl fun_eq_iff)
    next
      fix k u assume k: "a \<le> k" "k < b" and P: "P k u"
      then have u: "sr_same_frame s u" "sr_shape u" by (simp_all add: P_def)
      have "sr_window (store_byte data index (word_of_nat k) u)
          = (sr_window u)(k \<mapsto> data ! (k - unat index))"
        using k u(2) bound sr_same_frame_cap [OF u(1)]
        by (intro store_byte_window) (auto simp: a_def b_def sr_shape_def)
      then show "P (Suc k) (store_byte data index (word_of_nat k) u)"
        using P u sr_same_frame_trans [OF u(1) store_byte_frame] store_byte_shape [OF u(2)] k
        by (auto simp: P_def fun_eq_iff less_Suc_eq)
    qed
    with True show ?thesis by (simp add: max_def)
  next
    case False
    then show ?thesis using shape by (auto simp: t' P_def sr_same_frame_refl fun_eq_iff)
  qed
  then show ?thesis
    by (auto simp: P_def spec_store_def fun_eq_iff a_def b_def)
qed

text \<open>The number of contiguous bytes that are ready at the front of a window.\<close>

definition ready_count :: "(nat \<Rightarrow> u8 option) \<Rightarrow> nat \<Rightarrow> nat \<Rightarrow> nat" where
  "ready_count W r e = length (takeWhile (\<lambda>i. W i \<noteq> None) [r..<e])"

lemma ready_count_step:
  "ready_count W r e = (if r < e \<and> W r \<noteq> None then Suc (ready_count W (Suc r) e) else 0)"
  by (cases "r < e") (auto simp: ready_count_def upt_conv_Cons)

lemma ready_count_le: "ready_count W r e \<le> e - r"
  unfolding ready_count_def by (metis length_takeWhile_le length_upt)

lemma ready_count_defined: "r \<le> i \<Longrightarrow> i < r + ready_count W r e \<Longrightarrow> W i \<noteq> None"
proof -
  assume i: "r \<le> i" "i < r + ready_count W r e"
  then have "i - r < length (takeWhile (\<lambda>i. W i \<noteq> None) [r..<e])"
    by (simp add: ready_count_def)
  from nth_mem [OF this] takeWhile_nth [OF this] i ready_count_le [of W r e]
  show ?thesis by (auto dest: set_takeWhileD)
qed

lemma ready_count_maximal: "r + ready_count W r e < e \<Longrightarrow> W (r + ready_count W r e) = None"
proof -
  assume "r + ready_count W r e < e"
  then have "length (takeWhile (\<lambda>i. W i \<noteq> None) [r..<e]) < length [r..<e]"
    by (simp add: ready_count_def)
  from nth_length_takeWhile [OF this] \<open>r + ready_count W r e < e\<close> show ?thesis
    by (simp add: ready_count_def)
qed

lemma find_avail_end_ready:
  assumes bound: "sr_pos s + sr_cap s < 2 ^ 64"
  shows "sr_pos s \<le> unat i \<Longrightarrow>
    unat (find_avail_end s i) = unat i + ready_count (sr_window s) (unat i) (sr_pos s + sr_cap s)"
  using bound
proof (induction s i rule: find_avail_end.induct)
  case (1 s i)
  have lim: "unat (sr_rpos s + sr_capacity s) = sr_pos s + sr_cap s"
    using "1.prems" by (subst unat_plus_exact) (simp_all add: sr_pos_def sr_cap_def)
  have cond: "sr_bit_map s ! unat (i mod sr_capacity s) \<noteq> 0 \<and> i < sr_rpos s + sr_capacity s \<longleftrightarrow>
      unat i < sr_pos s + sr_cap s \<and> sr_window s (unat i) \<noteq> None"
    using "1.prems" by (auto simp: word_less_nat_alt lim sr_window_def unat_mod sr_cap_def)
  show ?case
  proof (cases "unat i < sr_pos s + sr_cap s \<and> sr_window s (unat i) \<noteq> None")
    case True
    then have inc: "unat (i + 1) = Suc (unat i)"
      using lim unat_inc [of i "sr_rpos s + sr_capacity s"] by (simp add: word_less_nat_alt)
    have "unat (find_avail_end s (i + 1))
        = Suc (unat i) + ready_count (sr_window s) (Suc (unat i)) (sr_pos s + sr_cap s)"
      using "1.IH" "1.prems" True cond by (simp add: inc)
    with True cond show ?thesis
      by (simp add: find_avail_end.simps [of s i] ready_count_step [of _ "unat i"])
  next
    case False
    with cond show ?thesis
      by (simp only: find_avail_end.simps [of s i] ready_count_step [of _ "unat i"]) auto
  qed
qed

lemma clear_loop:
  assumes arrays: "sr_arrays s" and w: "w \<le> sr_cap s" and bound: "sr_pos s + w < 2 ^ 64"
    and full: "\<And>i. sr_pos s \<le> i \<Longrightarrow> i < sr_pos s + w \<Longrightarrow> sr_window s i \<noteq> None"
    and t: "t = fold (\<lambda>k. clear_slot (word_of_nat k)) [sr_pos s..<sr_pos s + w] s"
  shows "sr_same_frame s t \<and> sr_arrays t \<and> sr_buffer t = sr_buffer s \<and>
    sr_unassembled_bytes t = sr_unassembled_bytes s \<and>
    marked (sr_bit_map s) = marked (sr_bit_map t) + w \<and>
    sr_window t = (\<lambda>i. if i < sr_pos s + w then None else sr_window s i)"
proof -
  define P where "P k t \<longleftrightarrow> sr_same_frame s t \<and> sr_arrays t \<and> sr_buffer t = sr_buffer s \<and>
    sr_unassembled_bytes t = sr_unassembled_bytes s \<and>
    marked (sr_bit_map s) + sr_pos s = marked (sr_bit_map t) + k \<and>
    sr_window t = (\<lambda>i. if i < k then None else sr_window s i)" for k t
  have "P (sr_pos s + w) t"
    unfolding t
  proof (rule fold_upt_induct)
    show "P (sr_pos s) s"
      using arrays by (auto simp: P_def sr_same_frame_refl fun_eq_iff sr_window_outside)
  next
    fix k u assume k: "sr_pos s \<le> k" "k < sr_pos s + w" and P: "P k u"
    let ?u' = "clear_slot (word_of_nat k) u"
    have u: "sr_same_frame s u" "sr_arrays u" using P by (simp_all add: P_def)
    have win: "sr_window ?u' = (sr_window u)(k := None)"
      using k u(2) w bound sr_same_frame_cap [OF u(1)] by (intro clear_slot_window) auto
    have "sr_window u k \<noteq> None" using P k full by (simp add: P_def)
    then have m: "marked (sr_bit_map u) = Suc (marked (sr_bit_map ?u'))"
      using k bound u(2) by (intro clear_slot_marked) auto
    have "sr_arrays ?u'"
      using u(2) by (simp add: sr_arrays_def clear_slot_def sr_cap_def)
    with P m show "P (Suc k) ?u'"
      using sr_same_frame_trans [OF u(1) clear_slot_frame] win
      by (auto simp: P_def fun_eq_iff less_Suc_eq) (simp_all add: clear_slot_def)
  qed simp
  then show ?thesis by (auto simp: P_def)
qed

text \<open>Moving the position over slots that hold nothing leaves the window as it is.\<close>

lemma sr_window_advance:
  assumes "0 < sr_cap s" and r': "sr_pos s \<le> unat r'" "unat r' \<le> sr_pos s + sr_cap s"
    and empty: "\<And>i. i < unat r' \<Longrightarrow> sr_window s i = None"
  shows "sr_window (s\<lparr>sr_rpos := r'\<rparr>) = sr_window s"
proof
  fix i
  have fr: "sr_cap (s\<lparr>sr_rpos := r'\<rparr>) = sr_cap s" "sr_pos (s\<lparr>sr_rpos := r'\<rparr>) = unat r'"
    by (simp_all add: sr_cap_def sr_pos_def)
  consider "i < unat r'" | "unat r' \<le> i" "i < sr_pos s + sr_cap s"
    | "sr_pos s + sr_cap s \<le> i" "i < unat r' + sr_cap s" | "unat r' + sr_cap s \<le> i"
    by linarith
  then show "sr_window (s\<lparr>sr_rpos := r'\<rparr>) i = sr_window s i"
  proof cases
    case 3
    then have "sr_window s (i - sr_cap s) = None"
      using empty r' by (intro empty) linarith
    moreover have "sr_pos s \<le> i - sr_cap s" "i - sr_cap s < sr_pos s + sr_cap s"
      using 3 r' by linarith+
    moreover have "(i - sr_cap s) mod sr_cap s = i mod sr_cap s"
      using 3 by (simp add: le_mod_geq)
    ultimately have "sr_bit_map s ! (i mod sr_cap s) = 0"
      by (auto simp: sr_window_def split: if_splits)
    with 3 show ?thesis by (simp add: sr_window_def fr)
  qed (use empty r' in \<open>auto simp: sr_window_outside fr, auto simp: sr_window_def fr\<close>)
qed

lemma ByteStream_write_Nil: "ByteStream_write b [] = (b, 0)"
  by (simp add: ByteStream_write_def)

lemma submit_data:
  assumes bound: "sr_pos s + sr_cap s < 2 ^ 64" and n: "n \<le> sr_cap s"
    and full: "\<And>i. sr_pos s \<le> i \<Longrightarrow> i < sr_pos s + n \<Longrightarrow> sr_window s i \<noteq> None"
  shows "map (\<lambda>k. sr_buffer s ! unat ((sr_rpos s + word_of_nat k) mod sr_capacity s)) [0..<n]
    = map (\<lambda>i. the (sr_window s i)) [sr_pos s..<sr_pos s + n]"
proof (rule nth_equalityI)
  fix j assume "j < length (map (\<lambda>k. sr_buffer s !
      unat ((sr_rpos s + word_of_nat k) mod sr_capacity s)) [0..<n])"
  then have j: "j < n" by simp
  have "unat (sr_rpos s + word_of_nat j) = sr_pos s + j"
    using j n bound by (subst unat_plus_exact) (simp_all add: unat_of_nat sr_pos_def)
  then have "unat ((sr_rpos s + word_of_nat j) mod sr_capacity s) = (sr_pos s + j) mod sr_cap s"
    by (simp add: unat_mod sr_cap_def)
  moreover have "the (sr_window s (sr_pos s + j)) = sr_buffer s ! ((sr_pos s + j) mod sr_cap s)"
    using full [of "sr_pos s + j"] j by (auto simp: sr_window_def split: if_splits)
  ultimately show "map (\<lambda>k. sr_buffer s ! unat ((sr_rpos s + word_of_nat k) mod sr_capacity s))
      [0..<n] ! j = map (\<lambda>i. the (sr_window s i)) [sr_pos s..<sr_pos s + n] ! j"
    using j by simp
qed simp

lemma release_slots:
  assumes arrays: "sr_arrays s" and k: "unat k = w" "w \<le> sr_cap s" "sr_pos s + w < 2 ^ 64"
    and full: "\<And>i. sr_pos s \<le> i \<Longrightarrow> i < sr_pos s + w \<Longrightarrow> sr_window s i \<noteq> None"
    and count: "sr_unassembled_bytes s = word_of_nat (marked (sr_bit_map s))"
    and s1: "s1 = for_u64 (sr_rpos s) (sr_rpos s + k) clear_slot s"
    and t: "t = s1\<lparr>sr_rpos := sr_rpos s1 + k, sr_unassembled_bytes := sr_unassembled_bytes s1 - k\<rparr>"
  shows "sr_capacity t = sr_capacity s \<and> sr_output t = sr_output s \<and> sr_eof_index t = sr_eof_index s \<and>
    sr_rpos t = sr_rpos s + k \<and> sr_pos t = sr_pos s + w \<and> sr_arrays t \<and>
    sr_unassembled_bytes t = word_of_nat (marked (sr_bit_map t)) \<and>
    sr_window t = (\<lambda>i. if i < sr_pos s + w then None else sr_window s i)"
proof -
  have pos': "unat (sr_rpos s + k) = sr_pos s + w"
    using k by (subst unat_plus_exact) (simp_all add: sr_pos_def)
  then have "s1 = fold (\<lambda>k. clear_slot (word_of_nat k)) [sr_pos s..<sr_pos s + w] s"
    by (simp add: s1 for_u64_fold sr_pos_def [symmetric])
  from clear_loop [OF arrays k(2,3) full this] have cl: "sr_same_frame s s1" "sr_arrays s1"
    "sr_unassembled_bytes s1 = sr_unassembled_bytes s" "marked (sr_bit_map s) = marked (sr_bit_map s1) + w"
    "sr_window s1 = (\<lambda>i. if i < sr_pos s + w then None else sr_window s i)"
    by blast+
  have fr: "sr_capacity s1 = sr_capacity s" "sr_rpos s1 = sr_rpos s" "sr_output s1 = sr_output s"
    "sr_eof_index s1 = sr_eof_index s"
    using cl(1) by (simp_all add: sr_same_frame_def)
  have "sr_window (s1\<lparr>sr_rpos := sr_rpos s + k\<rparr>) = sr_window s1"
    using cl(2,5) pos' k(2) fr
    by (intro sr_window_advance) (simp_all add: sr_arrays_def sr_pos_def sr_cap_def)
  then have "sr_window t = sr_window s1" by (simp add: t fr)
  moreover have "sr_unassembled_bytes s1 - k = word_of_nat (marked (sr_bit_map s1))"
    using cl(3,4) count k(1) by auto
  ultimately show ?thesis
    using cl(2,5) fr pos' by (simp add: t sr_pos_def sr_arrays_def sr_cap_def)
qed

lemma submit_available_window:
  assumes wf: "sr_wf s" and bound: "sr_pos s + sr_cap s < 2 ^ 64"
    and n: "n = ready_count (sr_window s) (sr_pos s) (sr_pos s + sr_cap s)"
    and w: "w = min (bs_room (sr_output s)) n"
    and t: "t = submit_available (find_avail_end s (sr_rpos s)) s"
  shows "sr_wf t \<and> sr_capacity t = sr_capacity s \<and> sr_eof_index t = sr_eof_index s \<and>
    sr_pos t = sr_pos s + w \<and>
    sr_output t = fst (ByteStream_write (sr_output s)
      (map (\<lambda>i. the (sr_window s i)) [sr_pos s..<sr_pos s + n])) \<and>
    sr_window t = (\<lambda>i. if i < sr_pos s + w then None else sr_window s i)"
proof -
  define ae where "ae = find_avail_end s (sr_rpos s)"
  have ae: "unat ae = sr_pos s + n"
    using find_avail_end_ready [OF bound, of "sr_rpos s"] by (simp add: ae_def n sr_pos_def)
  have nle: "n \<le> sr_cap s" using ready_count_le [of "sr_window s" "sr_pos s" "sr_pos s + sr_cap s"] by (simp add: n)
  have full: "sr_window s i \<noteq> None" if "sr_pos s \<le> i" "i < sr_pos s + n" for i
    using that ready_count_defined unfolding n by blast
  show ?thesis
  proof (cases "n = 0")
    case True
    then have "\<not> sr_rpos s < ae" using ae by (simp add: word_less_nat_alt sr_pos_def)
    then have "t = s" by (simp add: t submit_available_def ae_def)
    with True wf show ?thesis
      by (auto simp: w fun_eq_iff ByteStream_write_Nil sr_window_outside)
  next
    case False
    define d where "d = map (\<lambda>i. the (sr_window s i)) [sr_pos s..<sr_pos s + n]"
    define k where "k = snd (ByteStream_write (sr_output s) d)"
    define s0 where "s0 = s\<lparr>sr_output := fst (ByteStream_write (sr_output s) d)\<rparr>"
    have gt: "sr_rpos s < ae" using ae False by (simp add: word_less_nat_alt sr_pos_def)
    have "unat (ae - sr_rpos s) = n" using ae by (subst unat_minus_exact) (simp_all add: sr_pos_def)
    then have sub: "map (\<lambda>k. sr_buffer s ! unat ((sr_rpos s + word_of_nat k) mod sr_capacity s))
        [0..<unat (ae - sr_rpos s)] = d"
      using submit_data [OF bound nle full] by (simp add: d_def)
    define s1 where "s1 = for_u64 (sr_rpos s0) (sr_rpos s0 + k) clear_slot s0"
    have tt: "t = s1\<lparr>sr_rpos := sr_rpos s1 + k, sr_unassembled_bytes := sr_unassembled_bytes s1 - k\<rparr>"
      using gt sub by (simp add: t submit_available_def ae_def [symmetric] case_prod_beta Let_def
          s1_def s0_def k_def)
    have s0: "sr_pos s0 = sr_pos s" "sr_cap s0 = sr_cap s" "sr_arrays s0" "sr_window s0 = sr_window s"
      "sr_unassembled_bytes s0 = word_of_nat (marked (sr_bit_map s0))"
      using wf by (simp_all add: s0_def sr_pos_def sr_cap_def sr_arrays_def sr_wf_def sr_shape_def)
    have "unat k = w" "w \<le> n" by (simp_all add: k_def stream_simps d_def w)
    with release_slots [OF s0(3) _ _ _ _ s0(5) s1_def tt, of w] nle bound full
    have r: "sr_capacity t = sr_capacity s0" "sr_output t = sr_output s0" "sr_eof_index t = sr_eof_index s0"
      "sr_rpos t = sr_rpos s0 + k" "sr_pos t = sr_pos s + w" "sr_shape t"
      "sr_window t = (\<lambda>i. if i < sr_pos s + w then None else sr_window s i)"
      by (simp_all add: s0(1,2,4) sr_shape_def cong: if_cong)
    then have "sr_wf t" using wf by (simp add: s0_def k_def sr_wf_def stream_simps wf_intros)
    with r show ?thesis by (simp add: s0_def d_def)
  qed
qed

section \<open>Refinement of push_substring\<close>

text \<open>
  The window after the substring is stored, the bytes that are then contiguous at its front,
  and the part of them that the output has room for.
\<close>

definition pushed_window :: "stream_reassembler \<Rightarrow> bytes \<Rightarrow> u64 \<Rightarrow> nat \<Rightarrow> u8 option" where
  "pushed_window s data index =
     spec_store (sr_pos s) (sr_cap s) data (unat index) (sr_window s)"

definition pushed_ready :: "stream_reassembler \<Rightarrow> bytes \<Rightarrow> u64 \<Rightarrow> bytes" where
  "pushed_ready s data index =
     (let W = pushed_window s data index
      in map (\<lambda>i. the (W i))
           [sr_pos s..<sr_pos s + ready_count W (sr_pos s) (sr_pos s + sr_cap s)])"

lemma update_eof_simps:
  "sr_capacity (update_eof data index eof s) = sr_capacity s"
  "sr_rpos (update_eof data index eof s) = sr_rpos s"
  "sr_pos (update_eof data index eof s) = sr_pos s"
  "sr_cap (update_eof data index eof s) = sr_cap s"
  "sr_window (update_eof data index eof s) = sr_window s"
  "bs_buffer (sr_output (update_eof data index eof s)) = bs_buffer (sr_output s)"
  "bs_nread (sr_output (update_eof data index eof s)) = bs_nread (sr_output s)"
  "bs_nwritten (sr_output (update_eof data index eof s)) = bs_nwritten (sr_output s)"
  "bs_error (sr_output (update_eof data index eof s)) = bs_error (sr_output s)"
  "sr_eof_index (update_eof data index eof s) =
     (if eof then index + size_u64 data else sr_eof_index s)"
  "bs_input_ended (sr_output (update_eof data index eof s)) \<longleftrightarrow>
     bs_input_ended (sr_output s) \<or>
     bs_nwritten (sr_output s) = (if eof then index + size_u64 data else sr_eof_index s)"
  by (simp_all add: update_eof_def Let_def ByteStream_end_input_def ByteStream_bytes_written_def
      sr_pos_def sr_cap_def)

lemma update_eof_wf: "sr_wf s \<Longrightarrow> sr_wf (update_eof data index eof s)"
  by (auto simp: update_eof_def Let_def sr_wf_def sr_shape_def sr_arrays_def sr_cap_def bs_wf_def
      ByteStream_end_input_def)

lemma push_substring_refines:
  assumes wf: "sr_wf s" and bound: "sr_pos s + sr_cap s < 2 ^ 64"
    and index: "unat index + length data < 2 ^ 64"
  obtains t where "push_substring s data index eof = Inr t" "sr_wf t"
    "sr_capacity t = sr_capacity s"
    "sr_pos t = sr_pos s + min (bs_room (sr_output s)) (length (pushed_ready s data index))"
    "bs_buffer (sr_output t) = bs_buffer (sr_output s) @
       take (bs_room (sr_output s)) (pushed_ready s data index)"
    "bs_nread (sr_output t) = bs_nread (sr_output s)"
    "bs_error (sr_output t) = bs_error (sr_output s)"
    "sr_window t = (\<lambda>i. if i < sr_pos t then None else pushed_window s data index i)"
    "sr_eof_index t = (if eof then index + size_u64 data else sr_eof_index s)"
    "bs_input_ended (sr_output t) \<longleftrightarrow> bs_input_ended (sr_output s) \<or> sr_rpos t = sr_eof_index t"
proof -
  define s1 where "s1 = for_u64 (max (sr_rpos s) index)
      (min (sr_rpos s + sr_capacity s) (index + size_u64 data)) (store_byte data index) s"
  have s1: "sr_same_frame s s1" "sr_shape s1" "sr_window s1 = pushed_window s data index"
    using store_loop [OF _ bound index s1_def] wf by (auto simp: sr_wf_def pushed_window_def)
  have fr: "sr_pos s1 = sr_pos s" "sr_cap s1 = sr_cap s" "sr_output s1 = sr_output s"
    "sr_capacity s1 = sr_capacity s" "sr_eof_index s1 = sr_eof_index s" "sr_rpos s1 = sr_rpos s"
    using s1(1) by (auto simp: sr_same_frame_def sr_pos_def sr_cap_def)
  have wf1: "sr_wf s1" using wf s1 fr by (simp add: sr_wf_def)
  define s2 where "s2 = submit_available (find_avail_end s1 (sr_rpos s1)) s1"
  define t where "t = update_eof data index eof s2"
  have "sr_capacity s \<noteq> 0" using wf by (auto simp: sr_wf_def sr_shape_def sr_arrays_def sr_cap_def)
  then have "push_substring s data index eof = Inr t"
    by (simp add: push_substring_def Let_def s1_def s2_def t_def)
  moreover have sub: "sr_wf s2" "sr_capacity s2 = sr_capacity s" "sr_eof_index s2 = sr_eof_index s"
    "sr_pos s2 = sr_pos s + min (bs_room (sr_output s)) (length (pushed_ready s data index))"
    "sr_output s2 = fst (ByteStream_write (sr_output s) (pushed_ready s data index))"
    "sr_window s2 = (\<lambda>i. if i < sr_pos s2 then None else pushed_window s data index i)"
    using submit_available_window [OF wf1 _ refl refl s2_def] bound
    unfolding s1(3) fr pushed_ready_def Let_def by simp_all
  moreover have "bs_nwritten (sr_output s2) = sr_rpos s2" using sub(1) by (simp add: sr_wf_def)
  moreover have "bs_input_ended (sr_output s2) = bs_input_ended (sr_output s)"
    "bs_buffer (sr_output s2) = bs_buffer (sr_output s) @
       take (bs_room (sr_output s)) (pushed_ready s data index)"
    "bs_nread (sr_output s2) = bs_nread (sr_output s)"
    "bs_error (sr_output s2) = bs_error (sr_output s)"
    by (simp_all add: sub(5) stream_simps)
  ultimately show thesis
    by (intro that [of t]) (simp_all only: t_def update_eof_simps update_eof_wf)
qed

section \<open>Reassembly of a peer's stream\<close>

text \<open>
  The reassembler is correct relative to the stream \<open>S\<close> that the peer cuts into substrings: a
  pushed substring is consistent with \<open>S\<close> when it is a piece of it (an empty one may lie anywhere),
  flagged as the last one only at its end.
\<close>

definition piece_of :: "bytes \<Rightarrow> bytes \<Rightarrow> u64 \<Rightarrow> bool \<Rightarrow> bool" where
  "piece_of S data index eof \<longleftrightarrow>
     take (length data) (drop (unat index) S) = data \<and>
     (eof \<longrightarrow> unat index + length data = length S)"

text \<open>What the state knows of \<open>S\<close>: it wrote a prefix, and every stored byte is the right one.\<close>

definition sr_agrees :: "bytes \<Rightarrow> stream_reassembler \<Rightarrow> bool" where
  "sr_agrees S s \<longleftrightarrow> sr_wf s \<and> length S + sr_cap s < 2 ^ 64 \<and> sr_pos s \<le> length S \<and>
     bs_buffer (sr_output s) = drop (unat (bs_nread (sr_output s))) (take (sr_pos s) S) \<and>
     unat (bs_nread (sr_output s)) \<le> sr_pos s \<and>
     (\<forall>i b. sr_window s i = Some b \<longrightarrow> i < length S \<and> b = S ! i) \<and>
     (sr_eof_index s = -1 \<or> sr_eof_index s = size_u64 S) \<and>
     (bs_input_ended (sr_output s) \<longleftrightarrow> sr_rpos s = sr_eof_index s)"

lemma sr_new_wf: "c \<noteq> 0 \<Longrightarrow> sr_wf (StreamReassembler_new c)"
  by (simp add: sr_wf_def sr_shape_def sr_arrays_def sr_cap_def marked_def wf_intros
      StreamReassembler_new_def) (simp add: ByteStream_new_def unat_gt_0)

lemma sr_new_agrees:
  assumes "c \<noteq> 0" "length S + unat c < 2 ^ 64"
  shows "sr_agrees S (StreamReassembler_new c)"
  using sr_new_wf [OF assms(1)] assms(2)
  by (auto simp: sr_agrees_def sr_window_def StreamReassembler_new_def ByteStream_new_def
      sr_cap_def sr_pos_def)

lemma piece_of_le:
  assumes "piece_of S data index eof" "data \<noteq> []"
  shows "unat index + length data \<le> length S"
proof -
  have "length (take (length data) (drop (unat index) S)) = length data"
    using assms(1) by (simp add: piece_of_def)
  with assms(2) show ?thesis by (cases data) auto
qed

lemma piece_of_nth:
  assumes "piece_of S data index eof" "j < length data"
  shows "data ! j = S ! (unat index + j)"
proof -
  have "data ! j = take (length data) (drop (unat index) S) ! j"
    using assms(1) unfolding piece_of_def by metis
  also have "\<dots> = S ! (unat index + j)"
  proof -
    have "unat index + length data \<le> length S" using piece_of_le [OF assms(1)] assms(2) by fastforce
    with assms(2) show ?thesis by simp
  qed
  finally show ?thesis .
qed

lemma pushed_window_agrees:
  assumes "sr_agrees S s" "piece_of S data index eof" "pushed_window s data index i = Some b"
  shows "i < length S \<and> b = S ! i"
proof (cases "sr_pos s \<le> i \<and> i < sr_pos s + sr_cap s \<and> unat index \<le> i \<and> i < unat index + length data")
  case True
  then have "b = data ! (i - unat index)"
    using assms(3) by (simp add: pushed_window_def spec_store_def)
  moreover have "i - unat index < length data" "unat index + length data \<le> length S"
    using True piece_of_le [OF assms(2)] by (fastforce simp: less_diff_conv2)+
  ultimately show ?thesis
    using True piece_of_nth [OF assms(2), of "i - unat index"] by simp
next
  case False
  then show ?thesis
    using assms(1,3) by (simp add: pushed_window_def spec_store_def sr_agrees_def split: if_splits)
qed

lemma pushed_ready_agrees:
  assumes "sr_agrees S s" "piece_of S data index eof"
  shows "sr_pos s + length (pushed_ready s data index) \<le> length S \<and>
    pushed_ready s data index = take (length (pushed_ready s data index)) (drop (sr_pos s) S)"
proof -
  let ?W = "pushed_window s data index"
  let ?n = "ready_count ?W (sr_pos s) (sr_pos s + sr_cap s)"
  have known: "i < length S \<and> the (?W i) = S ! i" if i: "sr_pos s \<le> i" "i < sr_pos s + ?n" for i
  proof -
    from ready_count_defined [OF i] obtain b where "?W i = Some b" by blast
    with pushed_window_agrees [OF assms] show ?thesis by fastforce
  qed
  have len: "sr_pos s + ?n \<le> length S"
  proof (cases "?n = 0")
    case True
    with assms(1) show ?thesis by (simp add: sr_agrees_def)
  next
    case False
    then show ?thesis using known [of "sr_pos s + ?n - 1"] by linarith
  qed
  have "map (\<lambda>i. the (?W i)) [sr_pos s..<sr_pos s + ?n] = take ?n (drop (sr_pos s) S)"
    using len known by (intro nth_equalityI) simp_all
  with len show ?thesis by (simp add: pushed_ready_def Let_def)
qed

lemma sr_rpos_not_max: "sr_agrees S s \<Longrightarrow> sr_rpos s \<noteq> -1"
proof
  assume agr: "sr_agrees S s" and "sr_rpos s = -1"
  then have "sr_pos s = 2 ^ 64 - 1"
    by (simp add: sr_pos_def unsigned_minus_1_eq_mask mask_eq_exp_minus_1)
  moreover have "0 < sr_cap s" "sr_pos s \<le> length S" "length S + sr_cap s < 2 ^ 64"
    using agr by (auto simp: sr_agrees_def sr_wf_def sr_shape_def sr_arrays_def)
  ultimately show False by simp
qed

lemma size_u64_eq_iff:
  "length xs < 2 ^ 64 \<Longrightarrow> w = size_u64 xs \<longleftrightarrow> unat w = length xs"
  by (metis unat_size_u64 word_unat_eq_iff)

lemma piece_of_eof: "piece_of S data index True \<Longrightarrow> index + size_u64 data = size_u64 S"
proof -
  assume "piece_of S data index True"
  moreover have "index + size_u64 data = word_of_nat (unat index + length data)"
    by (simp add: size_u64_def)
  ultimately show ?thesis by (simp add: piece_of_def size_u64_def)
qed

lemma sr_agrees_ended:
  assumes agr: "sr_agrees S s" and "bs_input_ended (sr_output s)"
  shows "sr_eof_index s = size_u64 S" "sr_pos s = length S"
proof -
  have "sr_rpos s = sr_eof_index s" "length S < 2 ^ 64" using assms by (simp_all add: sr_agrees_def)
  moreover have "sr_rpos s \<noteq> -1" using agr by (intro sr_rpos_not_max)
  ultimately show "sr_eof_index s = size_u64 S" "sr_pos s = length S"
    using agr by (auto simp: sr_agrees_def sr_pos_def unat_size_u64)
qed

lemma push_agrees:
  assumes agr: "sr_agrees S s" and piece: "piece_of S data index eof"
  obtains t where "push_substring s data index eof = Inr t" "sr_agrees S t"
    "sr_capacity t = sr_capacity s"
    "sr_pos t = sr_pos s + min (bs_room (sr_output s)) (length (pushed_ready s data index))"
    "sr_window t = (\<lambda>i. if i < sr_pos t then None else pushed_window s data index i)"
    "bs_nread (sr_output t) = bs_nread (sr_output s)"
    "sr_eof_index t = (if eof then size_u64 S else sr_eof_index s)"
proof -
  note rdy = pushed_ready_agrees [OF agr piece]
  have S64: "length S < 2 ^ 64" using agr by (simp add: sr_agrees_def)
  have len: "unat index + length data < 2 ^ 64"
    using piece_of_le [OF piece] S64 unat_u64_less [of index] by (cases "data = []") auto
  have bound: "sr_pos s + sr_cap s < 2 ^ 64" and wf: "sr_wf s"
    using agr by (simp_all add: sr_agrees_def)
  have eof: "index + size_u64 data = size_u64 S" if eof using piece that by (simp add: piece_of_eof)
  let ?k = "min (bs_room (sr_output s)) (length (pushed_ready s data index))"
  have take: "take (bs_room (sr_output s)) (pushed_ready s data index) = take ?k (drop (sr_pos s) S)"
    using arg_cong [OF conjunct2 [OF rdy], of "take (bs_room (sr_output s))"] by simp
  obtain t where t: "push_substring s data index eof = Inr t" "sr_wf t"
    "sr_capacity t = sr_capacity s" "sr_pos t = sr_pos s + ?k"
    "bs_buffer (sr_output t) = bs_buffer (sr_output s) @ take ?k (drop (sr_pos s) S)"
    "bs_nread (sr_output t) = bs_nread (sr_output s)"
    "sr_window t = (\<lambda>i. if i < sr_pos t then None else pushed_window s data index i)"
    "sr_eof_index t = (if eof then index + size_u64 data else sr_eof_index s)"
    "bs_input_ended (sr_output t) \<longleftrightarrow> bs_input_ended (sr_output s) \<or> sr_rpos t = sr_eof_index t"
    by (rule push_substring_refines [OF wf bound len, of eof], rule that)
      (assumption | simp only: take)+
  have le: "sr_pos t \<le> length S" "sr_cap t = sr_cap s"
    using conjunct1 [OF rdy] t(3,4) by (simp_all add: sr_cap_def)
  have known: "sr_eof_index t = -1 \<or> sr_eof_index t = size_u64 S"
    using agr eof t(8) by (simp add: sr_agrees_def)
  have "sr_rpos t = sr_eof_index t" if "bs_input_ended (sr_output s)"
    using sr_agrees_ended [OF agr that] t(4,8) le(1) S64 eof
    by (simp add: sr_pos_def word_unat_eq_iff unat_size_u64)
  then have iff: "bs_input_ended (sr_output t) \<longleftrightarrow> sr_rpos t = sr_eof_index t" using t(9) by blast
  have buf: "bs_buffer (sr_output t) = drop (unat (bs_nread (sr_output s))) (take (sr_pos t) S)"
    using agr t(4,5) by (simp add: sr_agrees_def take_add)
  have win: "i < length S \<and> b = S ! i" if "sr_window t i = Some b" for i b
    using that pushed_window_agrees [OF agr piece] t(7) by (simp split: if_splits)
  have "length S + sr_cap t < 2 ^ 64" "unat (bs_nread (sr_output t)) \<le> sr_pos t"
    using agr t(4,6) le(2) by (simp_all add: sr_agrees_def)
  then have agr': "sr_agrees S t"
    using t(2,6) le known iff buf win unfolding sr_agrees_def by simp
  have "sr_eof_index t = (if eof then size_u64 S else sr_eof_index s)" using eof t(8) by simp
  then show thesis by (rule that [OF t(1) agr' t(3,4,7,6)])
qed

text \<open>A reader pops bytes from the output between pushes.\<close>

definition reassembler_read :: "stream_reassembler \<Rightarrow> u64 \<Rightarrow> stream_reassembler \<times> bytes" where
  "reassembler_read s n =
     (let (out', d) = ByteStream_read (StreamReassembler_stream_out s) n
      in (s\<lparr>sr_output := out'\<rparr>, d))"

datatype reassembler_op = Push_op bytes u64 bool | Pop_op u64

fun reassembler_run ::
  "stream_reassembler \<Rightarrow> reassembler_op list \<Rightarrow> (stream_reassembler \<times> bytes) outcome" where
  "reassembler_run s [] = Inr (s, [])"
| "reassembler_run s (Push_op data index eof # ops) =
     obind (push_substring s data index eof) (\<lambda>s'. reassembler_run s' ops)"
| "reassembler_run s (Pop_op n # ops) =
     (let (s', d) = reassembler_read s n
      in obind (reassembler_run s' ops) (\<lambda>(t, out). Inr (t, d @ out)))"

fun op_piece_of :: "bytes \<Rightarrow> reassembler_op \<Rightarrow> bool" where
  "op_piece_of S (Push_op data index eof) = piece_of S data index eof"
| "op_piece_of S (Pop_op n) = True"

fun op_is_last :: "reassembler_op \<Rightarrow> bool" where
  "op_is_last (Push_op data index eof) = eof"
| "op_is_last (Pop_op n) = False"

lemma read_agrees:
  assumes "sr_agrees S s" "reassembler_read s n = (t, d)"
  shows "sr_agrees S t \<and> sr_capacity t = sr_capacity s \<and> sr_eof_index t = sr_eof_index s \<and>
    take (unat (bs_nread (sr_output s))) S @ d = take (unat (bs_nread (sr_output t))) S"
proof -
  define k where "k = min (bs_size (sr_output s)) n"
  have wf: "sr_wf s" "bs_wf (sr_output s)" using assms(1) by (simp_all add: sr_agrees_def sr_wf_def)
  have t: "t = s\<lparr>sr_output := ByteStream_pop_output (sr_output s) n\<rparr>"
    and d: "d = take (unat n) (bs_buffer (sr_output s))"
    using assms(2) wf(2)
    by (simp_all add: reassembler_read_def StreamReassembler_stream_out_def case_prod_beta
        stream_simps)
  have buf: "bs_buffer (sr_output s) = drop (unat (bs_nread (sr_output s))) (take (sr_pos s) S)"
    and le: "unat (bs_nread (sr_output s)) \<le> sr_pos s" "sr_pos s \<le> length S"
    using assms(1) by (simp_all add: sr_agrees_def)
  have uk: "unat k = min (sr_pos s - unat (bs_nread (sr_output s))) (unat n)"
    using wf(2) le by (simp add: k_def bs_wf_def buf)
  have nread: "unat (bs_nread (sr_output s) + k) = unat (bs_nread (sr_output s)) + unat k"
    using uk le unat_u64_less [of "sr_rpos s"]
    by (intro unat_plus_exact) (simp add: sr_pos_def)
  have same: "sr_pos t = sr_pos s" "sr_cap t = sr_cap s" "sr_window t = sr_window s"
    "sr_wf t"
    using wf
    by (simp_all add: t sr_pos_def sr_cap_def sr_wf_def sr_shape_def sr_arrays_def stream_simps
        wf_intros)
  have nread_t: "bs_nread (sr_output t) = bs_nread (sr_output s) + k"
    by (simp add: t stream_simps k_def)
  have "bs_buffer (sr_output t) = drop (unat (bs_nread (sr_output t))) (take (sr_pos t) S)"
    using wf(2) le uk
    by (simp add: nread_t nread same) (auto simp: t stream_simps buf min_def add.commute)
  then have "sr_agrees S t"
    using assms(1) uk le same by (simp add: sr_agrees_def nread_t nread) (simp add: t stream_simps)
  moreover have "take (unat (bs_nread (sr_output s))) S @ d
      = take (unat (bs_nread (sr_output s)) + unat k) S"
    using le uk by (simp add: d buf take_add drop_take min.commute)
  ultimately show ?thesis by (simp add: nread_t nread) (simp add: t)
qed

lemma run_agrees:
  assumes "sr_agrees S s" "list_all (op_piece_of S) ops"
  shows "\<exists>t out. reassembler_run s ops = Inr (t, out) \<and> sr_agrees S t \<and>
    take (unat (bs_nread (sr_output s))) S @ out = take (unat (bs_nread (sr_output t))) S \<and>
    (sr_eof_index t = size_u64 S \<longleftrightarrow> sr_eof_index s = size_u64 S \<or> list_ex op_is_last ops)"
  using assms
proof (induction ops arbitrary: s)
  case Nil
  then show ?case by simp
next
  case (Cons a ops)
  show ?case
  proof (cases a)
    case (Push_op data index eof)
    then have "piece_of S data index eof" using Cons.prems by simp
    from push_agrees [OF Cons.prems(1) this] obtain s' where s':
      "push_substring s data index eof = Inr s'" "sr_agrees S s'"
      "bs_nread (sr_output s') = bs_nread (sr_output s)"
      "sr_eof_index s' = (if eof then size_u64 S else sr_eof_index s)" by metis
    with Cons.IH [OF s'(2)] Cons.prems(2) Push_op show ?thesis by (cases eof) auto
  next
    case (Pop_op n)
    obtain s' d where s': "reassembler_read s n = (s', d)" by fastforce
    note rd = read_agrees [OF Cons.prems(1) s']
    then obtain t out where "reassembler_run s' ops = Inr (t, out)" "sr_agrees S t"
      "take (unat (bs_nread (sr_output s'))) S @ out = take (unat (bs_nread (sr_output t))) S"
      "sr_eof_index t = size_u64 S \<longleftrightarrow> sr_eof_index s' = size_u64 S \<or> list_ex op_is_last ops"
      using Cons.IH [of s'] Cons.prems(2) by auto
    with rd s' Pop_op show ?thesis by (simp flip: append_assoc)
  qed
qed

lemma agrees_buffered:
  assumes "sr_agrees S s"
  shows "take (unat (bs_nread (sr_output s))) S @ bs_buffer (sr_output s)
    = take (unat (ByteStream_bytes_written (sr_output s))) S"
proof -
  have "sr_rpos s = bs_nwritten (sr_output s)" using assms by (simp add: sr_agrees_def sr_wf_def)
  then have "unat (ByteStream_bytes_written (sr_output s)) = sr_pos s"
    by (simp add: sr_pos_def ByteStream_bytes_written_def)
  moreover have "take (unat (bs_nread (sr_output s))) S
      = take (unat (bs_nread (sr_output s))) (take (sr_pos s) S)"
    "bs_buffer (sr_output s) = drop (unat (bs_nread (sr_output s))) (take (sr_pos s) S)"
    using assms by (simp_all add: sr_agrees_def min_absorb1)
  ultimately show ?thesis by (simp only: append_take_drop_id)
qed

lemma agrees_ended:
  assumes "sr_agrees S s"
  shows "bs_input_ended (sr_output s) \<longleftrightarrow> sr_eof_index s = size_u64 S \<and>
    unat (ByteStream_bytes_written (sr_output s)) = length S"
proof -
  have "sr_rpos s = bs_nwritten (sr_output s)" "length S < 2 ^ 64"
    "bs_input_ended (sr_output s) \<longleftrightarrow> sr_rpos s = sr_eof_index s"
    "sr_eof_index s = -1 \<or> sr_eof_index s = size_u64 S"
    using assms by (auto simp: sr_agrees_def sr_wf_def)
  then show ?thesis
    using sr_rpos_not_max [OF assms] size_u64_eq_iff [of S "sr_rpos s"]
    by (auto simp: ByteStream_bytes_written_def)
qed

section \<open>Counting the unassembled bytes\<close>

lemma slot_bij:
  assumes "0 < c"
  shows "bij_betw (\<lambda>i. i mod c) {r..<r + c} {..<c :: nat}"
proof -
  have inj: "inj_on (\<lambda>i. i mod c) {r..<r + c}"
    by (rule inj_onI) (auto intro: window_slot_inj)
  moreover have "(\<lambda>i. i mod c) ` {r..<r + c} = {..<c}"
    using inj assms by (intro card_subset_eq) (auto simp: card_image)
  ultimately show ?thesis by (simp add: bij_betw_def)
qed

lemma marked_window:
  assumes "sr_arrays s"
  shows "marked (sr_bit_map s) = card {i. sr_window s i \<noteq> None}"
proof -
  let ?A = "{i \<in> {sr_pos s..<sr_pos s + sr_cap s}. sr_bit_map s ! (i mod sr_cap s) \<noteq> 0}"
  have c: "0 < sr_cap s" "length (sr_bit_map s) = sr_cap s"
    using assms by (simp_all add: sr_arrays_def)
  note bij = slot_bij [OF c(1), of "sr_pos s"]
  have "{i. sr_window s i \<noteq> None} = ?A" by (auto simp: sr_window_def)
  moreover have "bij_betw (\<lambda>i. i mod sr_cap s) ?A {k. k < sr_cap s \<and> sr_bit_map s ! k \<noteq> 0}"
  proof (rule bij_betw_subset [OF bij])
    have "\<exists>i\<in>{sr_pos s..<sr_pos s + sr_cap s}. k = i mod sr_cap s" if "k < sr_cap s" for k
      using bij that by (auto simp: bij_betw_def)
    then show "(\<lambda>i. i mod sr_cap s) ` ?A = {k. k < sr_cap s \<and> sr_bit_map s ! k \<noteq> 0}"
      using c(1) by fastforce
  qed auto
  ultimately show ?thesis
    by (simp add: marked_def length_filter_conv_card c bij_betw_same_card)
qed

lemma unassembled_bytes_card:
  assumes "sr_wf s"
  shows "unat (StreamReassembler_unassembled_bytes s) = card {i. sr_window s i \<noteq> None}"
proof -
  have "sr_arrays s" "sr_unassembled_bytes s = word_of_nat (marked (sr_bit_map s))"
    using assms by (simp_all add: sr_wf_def sr_shape_def)
  moreover have "marked (sr_bit_map s) < 2 ^ 64"
    using marked_le [of "sr_bit_map s"] \<open>sr_arrays s\<close> unat_u64_less [of "sr_capacity s"]
    by (simp add: sr_arrays_def sr_cap_def)
  ultimately show ?thesis
    using marked_window [of s]
    by (simp add: StreamReassembler_unassembled_bytes_def unat_of_nat)
qed

lemma pushed_prefix_ready:
  assumes "unat index \<le> sr_pos s" "unat index + length data \<le> sr_pos s + sr_cap s"
  shows "unat index + length data \<le> sr_pos s + length (pushed_ready s data index)"
proof (rule ccontr)
  let ?W = "pushed_window s data index"
  let ?n = "ready_count ?W (sr_pos s) (sr_pos s + sr_cap s)"
  assume "\<not> ?thesis"
  then have gap: "sr_pos s + ?n < unat index + length data"
    by (simp add: pushed_ready_def Let_def)
  then have "?W (sr_pos s + ?n) = None" using assms(2) by (intro ready_count_maximal) linarith
  with gap assms show False by (simp add: pushed_window_def spec_store_def)
qed

lemma room_after_push:
  assumes "sr_wf s" "sr_wf t" "sr_capacity t = sr_capacity s"
    "bs_buffer (sr_output t) = bs_buffer (sr_output s) @ take (bs_room (sr_output s)) d"
  shows "bs_room (sr_output t) = bs_room (sr_output s) - length d"
proof -
  have "bs_wf (sr_output s)" "bs_wf (sr_output t)"
    "bs_capacity (sr_output t) = bs_capacity (sr_output s)"
    using assms(1-3) by (simp_all add: sr_wf_def)
  then show ?thesis by (simp add: bs_room_wf assms(4))
qed

section \<open>Arbitrary pushes\<close>

text \<open>A push whose end is a stream index; nothing is assumed of its bytes.\<close>

fun op_in_range :: "reassembler_op \<Rightarrow> bool" where
  "op_in_range (Push_op data index eof) = (unat index + length data < 2 ^ 64)"
| "op_in_range (Pop_op n) = True"

lemma read_wf:
  assumes "sr_wf s" "reassembler_read s n = (t, d)"
  shows "sr_wf t" "sr_capacity t = sr_capacity s" "sr_pos t = sr_pos s"
proof -
  have "t = s\<lparr>sr_output := ByteStream_pop_output (sr_output s) n\<rparr>"
    using assms(2) by (simp add: reassembler_read_def StreamReassembler_stream_out_def case_prod_beta stream_simps)
  then show "sr_wf t" "sr_capacity t = sr_capacity s" "sr_pos t = sr_pos s"
    using assms(1) by (simp_all add: sr_pos_def sr_cap_def sr_wf_def sr_shape_def sr_arrays_def stream_simps wf_intros)
qed

lemma run_wf:
  assumes "sr_wf s" "list_all op_in_range ops" "sr_pos s + Suc (length ops) * sr_cap s < 2 ^ 64"
  shows "\<exists>t out. reassembler_run s ops = Inr (t, out) \<and> sr_wf t \<and> sr_capacity t = sr_capacity s"
  using assms
proof (induction ops arbitrary: s)
  case (Cons a ops)
  show ?case
  proof (cases a)
    case (Push_op data index eof)
    have "sr_pos s + sr_cap s < 2 ^ 64" "unat index + length data < 2 ^ 64"
      using Cons.prems(2,3) by (simp_all add: Push_op)
    from push_substring_refines [OF Cons.prems(1) this, of eof] obtain s' where s':
      "push_substring s data index eof = Inr s'" "sr_wf s'" "sr_capacity s' = sr_capacity s"
      "sr_pos s' = sr_pos s + min (bs_room (sr_output s)) (length (pushed_ready s data index))" by metis
    have cap: "sr_cap s' = sr_cap s" by (simp add: sr_cap_def s'(3))
    have "bs_room (sr_output s) \<le> sr_cap s"
      using Cons.prems(1) by (simp add: sr_wf_def bs_room_wf sr_cap_def)
    then have "sr_pos s' + Suc (length ops) * sr_cap s' < 2 ^ 64"
      using Cons.prems(3) unfolding s'(4) cap by simp
    with Cons.IH [OF s'(2)] Cons.prems(2) s'(1,3) Push_op show ?thesis by simp
  next
    case (Pop_op n)
    obtain s' d where s': "reassembler_read s n = (s', d)" by fastforce
    note rd = read_wf [OF Cons.prems(1) s']
    then have "sr_pos s' + Suc (length ops) * sr_cap s' < 2 ^ 64" using Cons.prems(3) by (simp add: sr_cap_def)
    with Cons.IH [OF rd(1)] Cons.prems(2) rd(2) obtain t out where
      "reassembler_run s' ops = Inr (t, out)" "sr_wf t" "sr_capacity t = sr_capacity s" by auto
    then show ?thesis by (simp add: Pop_op s')
  qed
qed simp

section \<open>Properties\<close>

text \<open>
  C5: for every capacity and every sequence of pushes and pops in which each pushed substring is
  a piece of the peer's stream \<open>S\<close> (in any order, overlapping or repeated, past the window or
  before it), the reassembler never fails, the bytes popped followed by the bytes still buffered
  are the prefix of \<open>S\<close> whose length is the number of bytes written, and the output is ended
  exactly when a piece flagged as last was pushed and all of \<open>S\<close> was written.
\<close>

theorem reassembly_safe:
  assumes "c \<noteq> 0" and "length S + unat c < 2 ^ 64" and "list_all (op_piece_of S) ops"
  shows "\<exists>t out. reassembler_run (StreamReassembler_new c) ops = Inr (t, out) \<and>
    out @ bs_buffer (StreamReassembler_stream_out t)
      = take (unat (ByteStream_bytes_written (StreamReassembler_stream_out t))) S \<and>
    (ByteStream_input_ended (StreamReassembler_stream_out t) \<longleftrightarrow> list_ex op_is_last ops \<and>
      unat (ByteStream_bytes_written (StreamReassembler_stream_out t)) = length S)"
proof -
  have new: "bs_nread (sr_output (StreamReassembler_new c)) = 0"
    "sr_eof_index (StreamReassembler_new c) = -1"
    by (simp_all add: StreamReassembler_new_def ByteStream_new_def)
  have "0 < unat c" using assms(1) by (simp add: unat_gt_0)
  then have "size_u64 S \<noteq> -1"
    using size_u64_eq_iff [of S "-1"] assms(2)
    by (simp add: unsigned_minus_1_eq_mask mask_eq_exp_minus_1)
  with run_agrees [OF sr_new_agrees [OF assms(1,2)] assms(3)] obtain t out where
    t: "reassembler_run (StreamReassembler_new c) ops = Inr (t, out)" "sr_agrees S t"
      "out = take (unat (bs_nread (sr_output t))) S"
      "sr_eof_index t = size_u64 S \<longleftrightarrow> list_ex op_is_last ops"
    by (auto simp: new)
  with agrees_buffered [OF t(2)] agrees_ended [OF t(2)] show ?thesis
    by (auto simp: StreamReassembler_stream_out_def ByteStream_input_ended_def)
qed

theorem reassembly_safe_witness:
  "\<exists>t out. reassembler_run (StreamReassembler_new 2)
      [Push_op [2] 1 False, Push_op [1, 2] 0 False, Pop_op 2, Push_op [3] 2 True] = Inr (t, out) \<and>
    out @ bs_buffer (StreamReassembler_stream_out t)
      = take (unat (ByteStream_bytes_written (StreamReassembler_stream_out t))) [1, 2, 3] \<and>
    (ByteStream_input_ended (StreamReassembler_stream_out t) \<longleftrightarrow>
      unat (ByteStream_bytes_written (StreamReassembler_stream_out t)) = 3)"
  using reassembly_safe [of 2 "[1, 2, 3]"
      "[Push_op [2] 1 False, Push_op [1, 2] 0 False, Pop_op 2, Push_op [3] 2 True]"]
  by (simp add: piece_of_def) (simp add: numeral_3_eq_3)

text \<open>
  C22: a push never holds back a byte that can go out.  A substring that starts at or before the
  next expected index and ends inside the window is written up to its end, as far as the output
  has room; and after any push either the output is full or the next byte is really missing.
\<close>

theorem push_substring_progress:
  assumes "sr_wf s" and "sr_pos s + sr_cap s < 2 ^ 64" and "unat index + length data < 2 ^ 64"
  shows "\<exists>t. push_substring s data index eof = Inr t \<and> sr_wf t \<and>
    (unat index \<le> sr_pos s \<and> unat index + length data \<le> sr_pos s + sr_cap s \<longrightarrow>
      min (sr_pos s + bs_room (sr_output s)) (unat index + length data) \<le> sr_pos t) \<and>
    (bs_room (sr_output t) = 0 \<or> sr_window t (sr_pos t) = None)"
proof -
  let ?n = "length (pushed_ready s data index)"
  obtain t where t: "push_substring s data index eof = Inr t" "sr_wf t"
    "sr_capacity t = sr_capacity s" "sr_pos t = sr_pos s + min (bs_room (sr_output s)) ?n"
    "bs_buffer (sr_output t) = bs_buffer (sr_output s) @
       take (bs_room (sr_output s)) (pushed_ready s data index)"
    "sr_window t = (\<lambda>i. if i < sr_pos t then None else pushed_window s data index i)"
    by (rule push_substring_refines [OF assms, of eof], rule that) assumption+
  have room: "bs_room (sr_output t) = bs_room (sr_output s) - ?n"
    using room_after_push [OF assms(1) t(2,3,5)] .
  have n: "?n = ready_count (pushed_window s data index) (sr_pos s) (sr_pos s + sr_cap s)"
    by (simp add: pushed_ready_def Let_def)
  have "bs_room (sr_output s) \<le> sr_cap s"
    using assms(1) by (simp add: sr_wf_def bs_room_wf sr_cap_def)
  have gap: "bs_room (sr_output t) = 0 \<or> sr_window t (sr_pos t) = None"
  proof (cases "bs_room (sr_output t) = 0")
    case False
    then have "?n < bs_room (sr_output s)" using room by simp
    then have "sr_pos t = sr_pos s + ?n" "sr_pos s + ?n < sr_pos s + sr_cap s"
      using t(4) \<open>bs_room (sr_output s) \<le> sr_cap s\<close> by simp_all
    then show ?thesis
      using ready_count_maximal [of "sr_pos s" "pushed_window s data index" "sr_pos s + sr_cap s"]
      unfolding t(6) n by simp
  qed simp
  have "min (sr_pos s + bs_room (sr_output s)) (unat index + length data) \<le> sr_pos t"
    if "unat index \<le> sr_pos s" "unat index + length data \<le> sr_pos s + sr_cap s"
    using pushed_prefix_ready [OF that] t(4) by linarith
  with gap t(1,2) show ?thesis by (intro exI [of _ t]) simp
qed

theorem push_substring_progress_witness:
  "\<exists>t. push_substring (StreamReassembler_new 4) [7, 8] 0 False = Inr t \<and> sr_wf t \<and>
    2 \<le> sr_pos t \<and> (bs_room (sr_output t) = 0 \<or> sr_window t (sr_pos t) = None)"
  using push_substring_progress [OF sr_new_wf [of 4], of 0 "[7, 8]" False]
  by (simp add: StreamReassembler_new_def sr_pos_def sr_cap_def bs_room_def
      ByteStream_remaining_capacity_def ByteStream_new_def) (simp add: numeral_2_eq_2)

text \<open>
  C23: the state of a reassembler is always well-formed, whatever is pushed: after any operations, also with bytes
  that contradict each other or lie outside the window, no operation has failed, both arrays have the
  length of the capacity, the output has the same capacity and as many bytes written as were
  assembled, and the count of unassembled bytes is the number of stored indices.
\<close>

theorem StreamReassembler_well_formed:
  assumes "c \<noteq> 0" and "list_all op_in_range ops" and "Suc (length ops) * unat c < 2 ^ 64"
  shows "\<exists>t out. reassembler_run (StreamReassembler_new c) ops = Inr (t, out) \<and>
    length (sr_buffer t) = unat c \<and> length (sr_bit_map t) = unat c \<and> bs_capacity (sr_output t) = c \<and>
    sr_rpos t = ByteStream_bytes_written (StreamReassembler_stream_out t) \<and>
    length (bs_buffer (sr_output t)) \<le> unat c \<and>
    unat (StreamReassembler_unassembled_bytes t) = card {i. sr_window t i \<noteq> None}"
proof -
  have "sr_pos (StreamReassembler_new c) = 0" "sr_cap (StreamReassembler_new c) = unat c"
    "sr_capacity (StreamReassembler_new c) = c"
    by (simp_all add: sr_pos_def sr_cap_def StreamReassembler_new_def)
  then obtain t out where t: "reassembler_run (StreamReassembler_new c) ops = Inr (t, out)" "sr_wf t" "sr_capacity t = c"
    using run_wf [OF sr_new_wf [OF assms(1)] assms(2)] assms(3) by auto
  then show ?thesis
    using unassembled_bytes_card [OF t(2)]
    by (auto simp: sr_wf_def sr_shape_def sr_arrays_def sr_cap_def bs_wf_def StreamReassembler_stream_out_def
        ByteStream_bytes_written_def word_le_nat_alt)
qed

theorem StreamReassembler_well_formed_witness:
  "\<exists>t out. reassembler_run (StreamReassembler_new 2) [Push_op [1, 2] 0 False, Push_op [9, 9, 9] 1 True, Pop_op 1]
      = Inr (t, out) \<and> length (sr_buffer t) = 2 \<and> length (bs_buffer (sr_output t)) \<le> 2"
  using StreamReassembler_well_formed [of 2 "[Push_op [1, 2] 0 False, Push_op [9, 9, 9] 1 True, Pop_op 1]"]
  by fastforce

text \<open>
  In every well-formed state \<^verbatim>\<open>unassembled_bytes()\<close> is exactly the number of stream indices
  whose byte is stored but not yet written (each counted once, however often it was pushed), it is
  at most the capacity, and \<^verbatim>\<open>empty()\<close> holds exactly when no byte is stored.
\<close>

theorem unassembled_bytes_exact:
  assumes "sr_wf s"
  shows "unat (StreamReassembler_unassembled_bytes s) = card {i. sr_window s i \<noteq> None} \<and>
    unat (StreamReassembler_unassembled_bytes s) \<le> unat (sr_capacity s) \<and>
    (StreamReassembler_empty s \<longleftrightarrow> (\<forall>i. sr_window s i = None))"
proof -
  let ?A = "{i. sr_window s i \<noteq> None}"
  have sub: "?A \<subseteq> {sr_pos s..<sr_pos s + sr_cap s}"
    by (auto simp: sr_window_def split: if_splits)
  then have "finite ?A" by (rule finite_subset) simp
  moreover have "card ?A \<le> sr_cap s" using card_mono [OF _ sub] by simp
  moreover note unassembled_bytes_card [OF assms]
  ultimately show ?thesis
    by (auto simp: StreamReassembler_empty_def sr_cap_def simp flip: unat_eq_zero)
qed

theorem unassembled_bytes_exact_witness:
  "StreamReassembler_empty (StreamReassembler_new 3) \<and>
   (\<forall>i. sr_window (StreamReassembler_new 3) i = None)"
proof -
  have "StreamReassembler_empty (StreamReassembler_new 3)"
    by (simp add: StreamReassembler_empty_def StreamReassembler_unassembled_bytes_def
        StreamReassembler_new_def)
  with unassembled_bytes_exact [OF sr_new_wf [of 3]] show ?thesis by simp
qed

text \<open>
  The capacity does not bound what is stored in all: with capacity 2, after two pushes the
  output holds two unread bytes and the reassembler one more unassembled byte.
\<close>

theorem reassembler_exceeds_capacity:
  "case reassembler_run (StreamReassembler_new 2) [Push_op [1, 2] 0 False, Push_op [4] 3 False] of
     Inl e \<Rightarrow> False
   | Inr (t, out) \<Rightarrow>
       ByteStream_buffer_size (StreamReassembler_stream_out t)
         + StreamReassembler_unassembled_bytes t = 3 \<and> sr_capacity t = 2"
  by code_simp

end
