(* ===== verification/Buffers.thy ===== *)
theory Buffers
  imports Prelude
begin

text \<open>
  The strings that carry packets, \<^verbatim>\<open>libsponge/util/buffer.{hh,cc}\<close>: \<^verbatim>\<open>Buffer\<close> (a shared
  string and an offset), \<^verbatim>\<open>BufferList\<close> (a queue of buffers) and \<^verbatim>\<open>BufferViewList\<close> (a queue of
  string views), and the contract of a string that can discard bytes from its front, which all
  three implement.  Offsets and sizes are naturals: each is at most the number of bytes that one
  in-memory string holds.  Sharing of the storage is invisible, as it is never written.
\<close>

section \<open>Buffer\<close>

record buffer =
  buf_storage :: "bytes option"
  buf_starting_offset :: nat

definition Buffer_default :: buffer where
  "Buffer_default = \<lparr>buf_storage = None, buf_starting_offset = 0\<rparr>"

definition Buffer_new :: "bytes \<Rightarrow> buffer" where
  "Buffer_new s = \<lparr>buf_storage = Some s, buf_starting_offset = 0\<rparr>"

definition Buffer_str :: "buffer \<Rightarrow> bytes" where
  "Buffer_str b =
     (case buf_storage b of None \<Rightarrow> []
      | Some s \<Rightarrow> take (length s - buf_starting_offset b) (drop (buf_starting_offset b) s))"

definition Buffer_at :: "buffer \<Rightarrow> nat \<Rightarrow> u8 outcome" where
  "Buffer_at b n =
     (if n < length (Buffer_str b) then Inr (Buffer_str b ! n)
      else Inl (Out_of_range ''basic_string_view::at''))"

definition Buffer_size :: "buffer \<Rightarrow> nat" where
  "Buffer_size b = length (Buffer_str b)"

definition Buffer_copy :: "buffer \<Rightarrow> bytes" where
  "Buffer_copy b = Buffer_str b"

definition Buffer_remove_prefix :: "buffer \<Rightarrow> nat \<Rightarrow> buffer outcome" where
  "Buffer_remove_prefix b n =
     (if n > length (Buffer_str b) then Inl (Out_of_range ''Buffer::remove_prefix'')
      else
        let b' = b\<lparr>buf_starting_offset := buf_starting_offset b + n\<rparr>
        in case buf_storage b' of
             Some s \<Rightarrow> Inr (if buf_starting_offset b' = length s then b'\<lparr>buf_storage := None\<rparr> else b')
           | None \<Rightarrow> Inr b')"

section \<open>BufferList\<close>

type_synonym buffer_list = "buffer list"

definition BufferList_of_Buffer :: "buffer \<Rightarrow> buffer_list" where
  "BufferList_of_Buffer b = [b]"

definition BufferList_append :: "buffer_list \<Rightarrow> buffer_list \<Rightarrow> buffer_list" where
  "BufferList_append bl other = fold (\<lambda>buf acc. acc @ [buf]) other bl"

definition BufferList_of_string :: "bytes \<Rightarrow> buffer_list" where
  "BufferList_of_string s = BufferList_append [] (BufferList_of_Buffer (Buffer_new s))"

definition BufferList_to_Buffer :: "buffer_list \<Rightarrow> buffer outcome" where
  "BufferList_to_Buffer bl =
     (case bl of [] \<Rightarrow> Inr Buffer_default
      | [b] \<Rightarrow> Inr b
      | _ \<Rightarrow> Inl (Runtime_error ''BufferList: please use concatenate() to combine a multi-Buffer BufferList into one Buffer''))"

definition BufferList_concatenate :: "buffer_list \<Rightarrow> bytes" where
  "BufferList_concatenate bl = fold (\<lambda>buf ret. ret @ Buffer_str buf) bl []"

definition BufferList_size :: "buffer_list \<Rightarrow> nat" where
  "BufferList_size bl = fold (\<lambda>buf ret. ret + Buffer_size buf) bl 0"

fun BufferList_remove_prefix :: "buffer_list \<Rightarrow> nat \<Rightarrow> buffer_list outcome" where
  "BufferList_remove_prefix [] n =
     (if n > 0 then Inl (Out_of_range ''BufferList::remove_prefix'') else Inr [])"
| "BufferList_remove_prefix (front # rest) n =
     (if n > 0 then
        if n < length (Buffer_str front)
        then obind (Buffer_remove_prefix front n) (\<lambda>front'. Inr (front' # rest))
        else BufferList_remove_prefix rest (n - length (Buffer_str front))
      else Inr (front # rest))"

section \<open>BufferViewList\<close>

type_synonym buffer_view_list = "bytes list"

definition BufferViewList_of_string :: "bytes \<Rightarrow> buffer_view_list" where
  "BufferViewList_of_string s = [s]"

definition BufferViewList_of_BufferList :: "buffer_list \<Rightarrow> buffer_view_list" where
  "BufferViewList_of_BufferList bl = fold (\<lambda>x acc. acc @ [Buffer_str x]) bl []"

fun BufferViewList_remove_prefix :: "buffer_view_list \<Rightarrow> nat \<Rightarrow> buffer_view_list outcome" where
  "BufferViewList_remove_prefix [] n =
     (if n > 0 then Inl (Out_of_range ''BufferListView::remove_prefix'') else Inr [])"
| "BufferViewList_remove_prefix (front # rest) n =
     (if n > 0 then
        if n < length front then Inr (drop n front # rest)
        else BufferViewList_remove_prefix rest (n - length front)
      else Inr (front # rest))"

definition BufferViewList_size :: "buffer_view_list \<Rightarrow> nat" where
  "BufferViewList_size vl = fold (\<lambda>buf ret. ret + length buf) vl 0"

text \<open>An \<^verbatim>\<open>iovec\<close> is a base pointer, here the bytes it points to, and a length.\<close>

definition BufferViewList_as_iovecs :: "buffer_view_list \<Rightarrow> (bytes \<times> nat) list" where
  "BufferViewList_as_iovecs vl = fold (\<lambda>x ret. ret @ [(x, length x)]) vl []"

section \<open>Contents\<close>

text \<open>
  The offset stays inside the storage, and the storage is released once it is used up; an empty
  string that was never trimmed is still held.
\<close>

definition buf_wf :: "buffer \<Rightarrow> bool" where
  "buf_wf b \<longleftrightarrow> (\<forall>s. buf_storage b = Some s \<longrightarrow> buf_starting_offset b \<le> length s)"

named_theorems buffer_simps \<open>the bytes of buffers\<close>

lemma Buffer_str_new [buffer_simps]: "Buffer_str (Buffer_new s) = s"
  by (simp add: Buffer_str_def Buffer_new_def)

lemma Buffer_str_default [buffer_simps]: "Buffer_str Buffer_default = []"
  by (simp add: Buffer_str_def Buffer_default_def)

lemma Buffer_remove_prefix_str:
  assumes "Buffer_remove_prefix b n = Inr b'"
  shows "n \<le> length (Buffer_str b) \<and> Buffer_str b' = drop n (Buffer_str b)"
  using assms
  by (auto simp: Buffer_remove_prefix_def Buffer_str_def Let_def add.commute
      split: if_splits option.splits)

lemma Buffer_remove_prefix_wf [wf_intros]:
  assumes "buf_wf b" "Buffer_remove_prefix b n = Inr b'"
  shows "buf_wf b'"
  using assms
  by (auto simp: Buffer_remove_prefix_def buf_wf_def Buffer_str_def Let_def
      split: if_splits option.splits)

lemma Buffer_remove_prefix_ok: "n \<le> length (Buffer_str b) \<Longrightarrow> \<exists>b'. Buffer_remove_prefix b n = Inr b'"
  by (auto simp: Buffer_remove_prefix_def Let_def split: option.splits)

lemma Buffer_remove_prefix_fail:
  "length (Buffer_str b) < n \<Longrightarrow> Buffer_remove_prefix b n = Inl (Out_of_range ''Buffer::remove_prefix'')"
  by (simp add: Buffer_remove_prefix_def)

lemma BufferList_append_simp [buffer_simps]: "BufferList_append bl other = bl @ other"
proof -
  have "fold (\<lambda>buf acc. acc @ [buf]) other bl = bl @ other" for other bl :: buffer_list
    by (induction other arbitrary: bl) simp_all
  then show ?thesis by (simp add: BufferList_append_def)
qed

lemma BufferList_concatenate_simp [buffer_simps]:
  "BufferList_concatenate bl = concat (map Buffer_str bl)"
proof -
  have "fold (\<lambda>buf ret. ret @ Buffer_str buf) bl acc = acc @ concat (map Buffer_str bl)" for acc
    by (induction bl arbitrary: acc) simp_all
  then show ?thesis by (simp add: BufferList_concatenate_def)
qed

lemma fold_size: "fold (\<lambda>x ret. ret + length (f x)) xs n = n + length (concat (map f xs))"
  by (induction xs arbitrary: n) simp_all

lemma BufferList_size_simp [buffer_simps]:
  "BufferList_size bl = length (BufferList_concatenate bl)"
  using fold_size [of Buffer_str bl 0]
  by (simp add: BufferList_size_def Buffer_size_def buffer_simps)

lemma BufferViewList_size_simp [buffer_simps]: "BufferViewList_size vl = length (concat vl)"
  using fold_size [of "\<lambda>v. v" vl 0] by (simp add: BufferViewList_size_def)

lemma BufferViewList_of_BufferList_simp [buffer_simps]:
  "BufferViewList_of_BufferList bl = map Buffer_str bl"
proof -
  have "fold (\<lambda>x acc. acc @ [Buffer_str x]) bl acc = acc @ map Buffer_str bl" for acc
    by (induction bl arbitrary: acc) simp_all
  then show ?thesis by (simp add: BufferViewList_of_BufferList_def)
qed

lemma BufferList_remove_prefix_str:
  "BufferList_remove_prefix bl n = Inr bl' \<Longrightarrow>
     n \<le> length (BufferList_concatenate bl) \<and>
     BufferList_concatenate bl' = drop n (BufferList_concatenate bl)"
proof (induction bl n rule: BufferList_remove_prefix.induct)
  case (2 front rest n)
  then show ?case
    by (auto simp: buffer_simps obind_Inr_iff dest: Buffer_remove_prefix_str split: if_splits)
qed (auto split: if_splits)

lemma BufferList_remove_prefix_ok:
  "n \<le> length (BufferList_concatenate bl) \<Longrightarrow> \<exists>bl'. BufferList_remove_prefix bl n = Inr bl'"
proof (induction bl n rule: BufferList_remove_prefix.induct)
  case (2 front rest n)
  show ?case
  proof (cases "n < length (Buffer_str front)")
    case True
    then show ?thesis using Buffer_remove_prefix_ok [of n front] by auto
  next
    case False
    with 2 show ?thesis by (simp add: buffer_simps)
  qed
qed (simp add: buffer_simps)

lemma BufferViewList_remove_prefix_str:
  "BufferViewList_remove_prefix vl n = Inr vl' \<Longrightarrow>
     n \<le> length (concat vl) \<and> concat vl' = drop n (concat vl)"
  by (induction vl n rule: BufferViewList_remove_prefix.induct) (auto split: if_splits)

lemma BufferViewList_remove_prefix_ok:
  "n \<le> length (concat vl) \<Longrightarrow> \<exists>vl'. BufferViewList_remove_prefix vl n = Inr vl'"
  by (induction vl n rule: BufferViewList_remove_prefix.induct) auto

section \<open>The contract: a string that discards bytes from its front\<close>

text \<open>
  The clients (the parser, the loop of \<^verbatim>\<open>FileDescriptor::write\<close>) consume such a string in
  pieces; \<open>consume\<close> takes the sizes of the pieces and collects them.
\<close>

fun consume ::
  "('s \<Rightarrow> bytes) \<Rightarrow> ('s \<Rightarrow> nat \<Rightarrow> 's outcome) \<Rightarrow> 's \<Rightarrow> nat list \<Rightarrow> (bytes list \<times> 's) outcome" where
  "consume contents remove s [] = Inr ([], s)"
| "consume contents remove s (n # ns) =
     obind (remove s n) (\<lambda>s'.
       obind (consume contents remove s' ns) (\<lambda>(pieces, t).
         Inr (take n (contents s) # pieces, t)))"

locale prefix_buffer =
  fixes contents :: "'s \<Rightarrow> bytes"
    and remove :: "'s \<Rightarrow> nat \<Rightarrow> 's outcome"
    and limit :: "'s \<Rightarrow> nat"
  assumes remove_contents:
      "remove s n = Inr t \<Longrightarrow> n \<le> length (contents s) \<and> contents t = drop n (contents s)"
    and remove_ok: "n \<le> length (contents s) \<Longrightarrow> \<exists>t. remove s n = Inr t"
    and limit_length: "limit s = length (contents s)"
begin

lemma remove_iff: "(\<exists>t. remove s n = Inr t) \<longleftrightarrow> n \<le> limit s"
  using remove_contents remove_ok limit_length by metis

lemma remove_limit: "remove s n = Inr t \<Longrightarrow> limit t = limit s - n"
  using remove_contents limit_length by (metis length_drop)

lemma consume_iff: "(\<exists>r. consume contents remove s ns = Inr r) \<longleftrightarrow> sum_list ns \<le> limit s"
proof (induction ns arbitrary: s)
  case (Cons n ns)
  show ?case
  proof (cases "remove s n")
    case (Inl e)
    with remove_iff [of s n] show ?thesis by auto
  next
    case (Inr t)
    with remove_iff [of s n] remove_limit [of s n t] Cons.IH [of t] show ?thesis
      by (auto simp: obind_def split: sum.splits)
  qed
qed simp

lemma consume_contents:
  "consume contents remove s ns = Inr (pieces, t) \<Longrightarrow>
     concat pieces @ contents t = contents s \<and> map length pieces = ns"
proof (induction ns arbitrary: s pieces t)
  case (Cons n ns)
  then obtain s' ps where s': "remove s n = Inr s'" "consume contents remove s' ns = Inr (ps, t)"
    "pieces = take n (contents s) # ps"
    by (auto simp: obind_Inr_iff)
  from remove_contents [OF s'(1)] Cons.IH [OF s'(2)] show ?case
    by (simp add: s'(3))
qed simp

end

interpretation buffer: prefix_buffer Buffer_str Buffer_remove_prefix Buffer_size
  by unfold_locales
    (auto simp: Buffer_size_def intro: Buffer_remove_prefix_ok dest: Buffer_remove_prefix_str)

interpretation buffer_list: prefix_buffer BufferList_concatenate BufferList_remove_prefix BufferList_size
  by unfold_locales
    (auto simp: BufferList_size_simp intro: BufferList_remove_prefix_ok
      dest: BufferList_remove_prefix_str)

interpretation buffer_view_list: prefix_buffer concat BufferViewList_remove_prefix BufferViewList_size
  by unfold_locales
    (auto simp: BufferViewList_size_simp intro: BufferViewList_remove_prefix_ok
      dest: BufferViewList_remove_prefix_str)

section \<open>Properties\<close>

text \<open>
  Discarding bytes from the front of a queue of buffers in any sequence of steps succeeds
  exactly when the steps ask for no more bytes than the queue holds; then the bytes discarded,
  followed by what is left, are the original contents, each step discarding exactly what it asked.
\<close>

theorem BufferList_consume:
  "case consume BufferList_concatenate BufferList_remove_prefix bl ns of
     Inl e \<Rightarrow> BufferList_size bl < sum_list ns
   | Inr (pieces, bl') \<Rightarrow> sum_list ns \<le> BufferList_size bl \<and> map length pieces = ns \<and>
       concat pieces @ BufferList_concatenate bl' = BufferList_concatenate bl"
proof (cases "consume BufferList_concatenate BufferList_remove_prefix bl ns")
  case (Inl e)
  with buffer_list.consume_iff [of bl ns] show ?thesis by auto
next
  case (Inr r)
  with buffer_list.consume_iff [of bl ns] buffer_list.consume_contents [of bl ns] show ?thesis
    by (cases r) auto
qed

text \<open>
  A view list made from a buffer list shows the same bytes, and removing a prefix from the
  views removes the same bytes as removing it from the buffers, or both throw.
\<close>

theorem BufferViewList_follows_BufferList:
  "concat (BufferViewList_of_BufferList bl) = BufferList_concatenate bl \<and>
   BufferViewList_size (BufferViewList_of_BufferList bl) = BufferList_size bl \<and>
   (case (BufferViewList_remove_prefix (BufferViewList_of_BufferList bl) n,
          BufferList_remove_prefix bl n) of
      (Inr vl, Inr bl') \<Rightarrow> concat vl = BufferList_concatenate bl'
    | (Inl _, Inl _) \<Rightarrow> n > BufferList_size bl
    | _ \<Rightarrow> False)"
proof -
  let ?vl = "BufferViewList_of_BufferList bl"
  have same: "concat ?vl = BufferList_concatenate bl" by (simp add: buffer_simps)
  then have size: "BufferViewList_size ?vl = BufferList_size bl"
    by (simp only: BufferViewList_size_simp BufferList_size_simp)
  moreover have "concat vl = BufferList_concatenate bl'"
    if "BufferViewList_remove_prefix ?vl n = Inr vl" "BufferList_remove_prefix bl n = Inr bl'" for vl bl'
    using BufferViewList_remove_prefix_str [OF that(1)] BufferList_remove_prefix_str [OF that(2)]
    by (simp add: same)
  ultimately show ?thesis
    using same buffer_view_list.remove_iff [of ?vl n] buffer_list.remove_iff [of bl n]
    by (auto split: sum.splits)
qed

end
