(* ===== verification/Net_Parser.thy ===== *)
theory Net_Parser
  imports Buffers
begin

text \<open>
  The parser and unparser of integers in network byte order,
  \<^verbatim>\<open>libsponge/util/parser.{hh,cc}\<close>.  The template parameter of \<^verbatim>\<open>_parse_int\<close> and
  \<^verbatim>\<open>_unparse_int\<close> is the word type.  The contract of an integer codec is shown for the three
  instances the sources use; the header parsers rest on it.
\<close>

section \<open>Parser state and operations\<close>

datatype ParseResult =
    NoError | BadChecksum | PacketTooShort | WrongIPVersion | HeaderTooShort | TruncatedPacket
  | Unsupported

text \<open>The table of names has no entry for the last value, which reads past its end.\<close>

definition ParseResult_as_string :: "ParseResult \<Rightarrow> string outcome" where
  "ParseResult_as_string r =
     (let names = [''NoError'', ''BadChecksum'', ''PacketTooShort'', ''WrongIPVersion'',
                   ''HeaderTooShort'', ''TruncatedPacket''];
          i = (case r of NoError \<Rightarrow> 0 | BadChecksum \<Rightarrow> 1 | PacketTooShort \<Rightarrow> 2
               | WrongIPVersion \<Rightarrow> 3 | HeaderTooShort \<Rightarrow> 4 | TruncatedPacket \<Rightarrow> 5 | Unsupported \<Rightarrow> 6)
      in if i < length names then Inr (names ! i) else Inl Out_of_bounds_read)"

record net_parser =
  np_buffer :: buffer
  np_error :: ParseResult

definition NetParser_new :: "buffer \<Rightarrow> net_parser" where
  "NetParser_new b = \<lparr>np_buffer = b, np_error = NoError\<rparr>"

definition NetParser_set_error :: "net_parser \<Rightarrow> ParseResult \<Rightarrow> net_parser" where
  "NetParser_set_error p r = p\<lparr>np_error := r\<rparr>"

definition NetParser_get_error :: "net_parser \<Rightarrow> ParseResult" where
  "NetParser_get_error p = np_error p"

definition NetParser_error :: "net_parser \<Rightarrow> bool" where
  "NetParser_error p = (NetParser_get_error p \<noteq> NoError)"

definition check_size :: "net_parser \<Rightarrow> nat \<Rightarrow> net_parser" where
  "check_size p sz =
     (if sz > Buffer_size (np_buffer p) then NetParser_set_error p PacketTooShort else p)"

definition sizeof_word :: "'a::len itself \<Rightarrow> nat" where
  "sizeof_word T = LENGTH('a) div 8"

fun parse_int_loop :: "buffer \<Rightarrow> nat list \<Rightarrow> 'a::len word \<Rightarrow> 'a word outcome" where
  "parse_int_loop b [] ret = Inr ret"
| "parse_int_loop b (i # is) ret =
     obind (Buffer_at b i) (\<lambda>c. parse_int_loop b is (push_bit 8 ret + ucast c))"

definition parse_int :: "net_parser \<Rightarrow> ('a::len word \<times> net_parser) outcome" where
  "parse_int p =
     (let len = sizeof_word TYPE('a); p = check_size p len
      in if NetParser_error p then Inr (0, p)
         else obind (parse_int_loop (np_buffer p) [0..<len] 0) (\<lambda>ret.
                obind (Buffer_remove_prefix (np_buffer p) len) (\<lambda>b.
                  Inr (ret, p\<lparr>np_buffer := b\<rparr>))))"

definition NetParser_u32 :: "net_parser \<Rightarrow> (u32 \<times> net_parser) outcome" where
  "NetParser_u32 = parse_int"

definition NetParser_u16 :: "net_parser \<Rightarrow> (u16 \<times> net_parser) outcome" where
  "NetParser_u16 = parse_int"

definition NetParser_u8 :: "net_parser \<Rightarrow> (u8 \<times> net_parser) outcome" where
  "NetParser_u8 = parse_int"

definition NetParser_remove_prefix :: "net_parser \<Rightarrow> nat \<Rightarrow> net_parser outcome" where
  "NetParser_remove_prefix p n =
     (let p = check_size p n
      in if NetParser_error p then Inr p
         else obind (Buffer_remove_prefix (np_buffer p) n) (\<lambda>b. Inr (p\<lparr>np_buffer := b\<rparr>)))"

definition unparse_int :: "bytes \<Rightarrow> 'a::len word \<Rightarrow> bytes" where
  "unparse_int s val =
     (let len = sizeof_word TYPE('a)
      in fold (\<lambda>i s. let the_byte = ucast (drop_bit ((len - i - 1) * 8) val AND 0xff)
                     in s @ [the_byte]) [0..<len] s)"

definition NetUnparser_u32 :: "bytes \<Rightarrow> u32 \<Rightarrow> bytes" where
  "NetUnparser_u32 = unparse_int"

definition NetUnparser_u16 :: "bytes \<Rightarrow> u16 \<Rightarrow> bytes" where
  "NetUnparser_u16 = unparse_int"

definition NetUnparser_u8 :: "bytes \<Rightarrow> u8 \<Rightarrow> bytes" where
  "NetUnparser_u8 = unparse_int"

section \<open>Big-endian numbers\<close>

definition be_nat :: "bytes \<Rightarrow> nat" where
  "be_nat bs = fold (\<lambda>b n. 256 * n + unat b) bs 0"

lemma be_nat_simps [simp]:
  "be_nat [] = 0"
  "be_nat [a] = unat a"
  "be_nat [a, b] = 256 * unat a + unat b"
  "be_nat [a, b, c, d] = 256 * (256 * (256 * unat a + unat b) + unat c) + unat d"
  by (simp_all add: be_nat_def)

lemma be_fold:
  "fold (\<lambda>b ret. push_bit 8 ret + ucast b) bs (word_of_nat n :: 'a::len word)
    = word_of_nat (fold (\<lambda>b n. 256 * n + unat (b :: u8)) bs n)"
proof (induction bs arbitrary: n)
  case (Cons b bs)
  have step: "push_bit 8 (word_of_nat n :: 'a word) + ucast b = word_of_nat (256 * n + unat b)"
    by (simp add: push_bit_eq_mult mult.commute)
  show ?case by (simp only: fold_Cons o_apply step Cons.IH)
qed simp

lemma unat_the_byte:
  "unat (ucast (drop_bit k (v :: 'a::len word) AND 0xff) :: u8) = unat v div 2 ^ k mod 256"
proof -
  have ff: "(0xff :: 'a word) = mask 8" by (simp add: mask_eq_exp_minus_1)
  have "drop_bit k v AND 0xff = take_bit 8 (drop_bit k v)"
    by (simp only: ff take_bit_eq_mask)
  moreover have "unat (ucast w :: u8) = unat w mod 256" for w :: "'a word"
    by (simp add: unsigned_ucast_eq take_bit_eq_mod)
  moreover have "unat (take_bit 8 (drop_bit k v)) = unat v div 2 ^ k mod 256"
    by (simp only: unsigned_take_bit_eq unat_drop_bit_eq) (simp add: take_bit_eq_mod drop_bit_eq_div)
  ultimately show ?thesis by (simp only: mod_mod_trivial)
qed

definition be_bytes :: "'a::len word \<Rightarrow> bytes" where
  "be_bytes v = unparse_int [] v"

lemma fold_snoc_map: "fold (\<lambda>i s. s @ [f i]) is s = s @ map f is"
  by (induction "is" arbitrary: s) simp_all

lemma base256_digits:
  "16777216 * (n div 16777216) + 65536 * (n div 65536 mod 256) + 256 * (n div 256 mod 256)
    + n mod 256 = (n :: nat)"
proof -
  have "n div 65536 = n div 256 div 256" "n div 16777216 = n div 256 div 256 div 256"
    by (simp_all flip: div_mult2_eq)
  moreover have "16777216 * q3 + 65536 * r2 + 256 * r1 + r0 = n"
    if "256 * q1 + r0 = n" "256 * q2 + r1 = q1" "256 * q3 + r2 = q2" for q1 q2 q3 r0 r1 r2 :: nat
    using that by linarith
  from this [OF mult_div_mod_eq mult_div_mod_eq mult_div_mod_eq]
  have "16777216 * (n div 256 div 256 div 256) + 65536 * (n div 256 div 256 mod 256)
    + 256 * (n div 256 mod 256) + n mod 256 = n" .
  ultimately show ?thesis by (simp only:)
qed

lemma be_bytes_map:
  "be_bytes (v :: 'a::len word) =
     map (\<lambda>i. ucast (drop_bit ((LENGTH('a) div 8 - i - 1) * 8) v AND 0xff)) [0..<LENGTH('a) div 8]"
  by (simp add: be_bytes_def unparse_int_def Let_def sizeof_word_def fold_snoc_map)

lemma length_be_bytes [simp]: "length (be_bytes (v :: 'a::len word)) = LENGTH('a) div 8"
  by (simp add: be_bytes_map)

lemma unparse_int_append: "unparse_int s v = s @ be_bytes v"
  by (simp add: be_bytes_def unparse_int_def Let_def fold_snoc_map)

lemma be_nat_be_bytes:
  "be_nat (be_bytes (v8 :: u8)) = unat v8"
  "be_nat (be_bytes (v16 :: u16)) = unat v16"
  "be_nat (be_bytes (v32 :: u32)) = unat v32"
proof -
  show "be_nat (be_bytes v8) = unat v8"
    using unat_the_byte [of 0 v8] unsigned_less [of v8, where 'a = nat]
    by (simp add: be_bytes_map)
  have "be_bytes v16 = [ucast (drop_bit 8 v16 AND 0xff), ucast (drop_bit 0 v16 AND 0xff)]"
    by (simp add: be_bytes_map upt_rec)
  then show "be_nat (be_bytes v16) = unat v16"
    using unat_u16_less [of v16] by (simp only: be_nat_simps unat_the_byte) simp
  have "be_bytes v32 = [ucast (drop_bit 24 v32 AND 0xff), ucast (drop_bit 16 v32 AND 0xff),
      ucast (drop_bit 8 v32 AND 0xff), ucast (drop_bit 0 v32 AND 0xff)]"
    by (simp add: be_bytes_map upt_rec)
  then show "be_nat (be_bytes v32) = unat v32"
    using unat_u32_less [of v32] base256_digits [of "unat v32"]
    by (simp only: be_nat_simps unat_the_byte) simp
qed

definition be_word :: "bytes \<Rightarrow> 'a::len word" where
  "be_word bs = word_of_nat (be_nat bs)"

lemma be_word_be_bytes [simp]:
  "be_word (be_bytes (v8 :: u8)) = v8"
  "be_word (be_bytes (v16 :: u16)) = v16"
  "be_word (be_bytes (v32 :: u32)) = v32"
  by (simp_all add: be_word_def be_nat_be_bytes)

section \<open>Reading one integer\<close>

definition np_str :: "net_parser \<Rightarrow> bytes" where
  "np_str p = Buffer_str (np_buffer p)"

text \<open>The parser after \<open>n\<close> bytes were consumed.\<close>

definition np_advance :: "nat \<Rightarrow> net_parser \<Rightarrow> net_parser" where
  "np_advance n p =
     (case Buffer_remove_prefix (np_buffer p) n of Inl e \<Rightarrow> p | Inr b \<Rightarrow> p\<lparr>np_buffer := b\<rparr>)"

named_theorems parser_simps \<open>steps of the parsers\<close>

lemma np_new [parser_simps]:
  "np_str (NetParser_new b) = Buffer_str b"
  "np_error (NetParser_new b) = NoError"
  "np_buffer (NetParser_new b) = b"
  by (simp_all add: np_str_def NetParser_new_def)

lemma np_advance_error [parser_simps]: "np_error (np_advance n p) = np_error p"
  by (simp add: np_advance_def split: sum.split)

lemma np_advance_str [parser_simps]:
  "n \<le> length (np_str p) \<Longrightarrow> np_str (np_advance n p) = drop n (np_str p)"
  using Buffer_remove_prefix_ok [of n "np_buffer p"]
  by (auto simp: np_advance_def np_str_def dest: Buffer_remove_prefix_str)

lemma Buffer_remove_prefix_advance:
  "n \<le> length (np_str p) \<Longrightarrow>
     Buffer_remove_prefix (np_buffer p) n = Inr (np_buffer (np_advance n p))"
  using Buffer_remove_prefix_ok [of n "np_buffer p"] by (auto simp: np_advance_def np_str_def)

lemma np_advance_eq: "p\<lparr>np_buffer := np_buffer (np_advance n p)\<rparr> = np_advance n p"
  by (simp add: np_advance_def split: sum.split)

lemma parse_int_loop_ok:
  assumes "m + k \<le> length (Buffer_str b)"
  shows "parse_int_loop b [m..<m + k] ret =
    Inr (fold (\<lambda>c ret. push_bit 8 ret + ucast c) (take k (drop m (Buffer_str b))) ret)"
  using assms
proof (induction k arbitrary: m ret)
  case (Suc k)
  have "[m..<m + Suc k] = m # [Suc m..<Suc m + k]" by (simp add: upt_conv_Cons)
  moreover have "take (Suc k) (drop m (Buffer_str b)) =
      Buffer_str b ! m # take k (drop (Suc m) (Buffer_str b))"
    using Suc.prems by (simp add: Cons_nth_drop_Suc [symmetric])
  ultimately show ?case
    using Suc.prems Suc.IH [of "Suc m"] by (simp add: Buffer_at_def)
qed simp

lemma parse_int_ok:
  assumes "np_error p = NoError" "LENGTH('a) div 8 \<le> length (np_str p)"
  shows "parse_int p = Inr (be_word (take (LENGTH('a) div 8) (np_str p)) :: 'a::len word,
    np_advance (LENGTH('a) div 8) p)"
  using assms parse_int_loop_ok [of 0 "LENGTH('a) div 8" "np_buffer p" "0 :: 'a word"]
    be_fold [where 'a = 'a, of "take (LENGTH('a) div 8) (np_str p)" 0]
  by (simp add: parse_int_def sizeof_word_def check_size_def Buffer_size_def NetParser_error_def
      NetParser_get_error_def np_str_def [symmetric] Buffer_remove_prefix_advance np_advance_eq
      be_word_def be_nat_def Let_def)

lemma parse_int_short:
  assumes "np_error p = NoError" "length (np_str p) < LENGTH('a) div 8"
  shows "parse_int p = Inr (0 :: 'a::len word, p\<lparr>np_error := PacketTooShort\<rparr>)"
  using assms
  by (simp add: parse_int_def sizeof_word_def check_size_def Buffer_size_def NetParser_error_def
      NetParser_get_error_def np_str_def NetParser_set_error_def)

lemma parse_int_error:
  assumes "np_error p \<noteq> NoError"
  shows "parse_int p = Inr (0 :: 'a::len word, check_size p (LENGTH('a) div 8))"
  using assms
  by (simp add: parse_int_def check_size_def NetParser_error_def NetParser_get_error_def
      NetParser_set_error_def sizeof_word_def Let_def)

lemma NetParser_remove_prefix_ok [parser_simps]:
  assumes "np_error p = NoError" "n \<le> length (np_str p)"
  shows "NetParser_remove_prefix p n = Inr (np_advance n p)"
  using assms
  by (simp add: NetParser_remove_prefix_def check_size_def Buffer_size_def NetParser_error_def
      NetParser_get_error_def np_str_def [symmetric] Buffer_remove_prefix_advance np_advance_eq)

lemma NetParser_remove_prefix_short [parser_simps]:
  assumes "length (np_str p) < n"
  shows "NetParser_remove_prefix p n = Inr (p\<lparr>np_error := PacketTooShort\<rparr>)"
  using assms
  by (simp add: NetParser_remove_prefix_def check_size_def Buffer_size_def NetParser_error_def
      NetParser_get_error_def np_str_def NetParser_set_error_def)

lemma NetParser_remove_prefix_error:
  assumes "np_error p \<noteq> NoError"
  shows "NetParser_remove_prefix p n = Inr (check_size p n)"
  using assms
  by (simp add: NetParser_remove_prefix_def check_size_def NetParser_error_def
      NetParser_get_error_def NetParser_set_error_def Let_def)

text \<open>The parser has met no error and these bytes are left.\<close>

definition np_at :: "net_parser \<Rightarrow> bytes \<Rightarrow> bool" where
  "np_at p s \<longleftrightarrow> np_error p = NoError \<and> np_str p = s"

lemma remove_prefix_at:
  assumes "np_at p (xs @ rest)" "length xs = n"
  shows "NetParser_remove_prefix p n = Inr (np_advance n p)" "np_at (np_advance n p) rest"
  using assms by (simp_all add: np_at_def parser_simps)

text \<open>
  A sequence of reads of \<open>n\<close> bytes in all: it consumes them, or there were too few and the error
  that says so is set.
\<close>

definition np_ok :: "net_parser \<Rightarrow> bool" where
  "np_ok p \<longleftrightarrow> np_error p = NoError \<or> np_error p = PacketTooShort"

definition np_reads :: "nat \<Rightarrow> net_parser \<Rightarrow> net_parser \<Rightarrow> bool" where
  "np_reads n p p' \<longleftrightarrow>
     (if np_error p = NoError \<and> n \<le> length (np_str p) then p' = np_advance n p
      else np_error p' = PacketTooShort)"

lemma np_reads_ok: "np_ok p \<Longrightarrow> np_reads n p p' \<Longrightarrow> np_ok p'"
  by (auto simp: np_ok_def np_reads_def np_advance_error split: if_splits)

lemma np_advance_advance:
  assumes "a + b \<le> length (np_str p)"
  shows "np_advance b (np_advance a p) = np_advance (a + b) p"
  using assms
  by (cases "buf_storage (np_buffer p)")
    (auto simp: np_advance_def np_str_def Buffer_remove_prefix_def Buffer_str_def Let_def)

lemma np_reads_trans:
  assumes "np_reads a p q" "np_reads b q r"
  shows "np_reads (a + b) p r"
proof (cases "np_error p = NoError \<and> a \<le> length (np_str p)")
  case True
  then have "q = np_advance a p" using assms(1) by (simp add: np_reads_def)
  with True assms(2) show ?thesis
    by (auto simp: np_reads_def parser_simps np_advance_advance split: if_splits)
next
  case False
  then have "np_error q = PacketTooShort" using assms(1) by (auto simp: np_reads_def split: if_splits)
  with False assms(2) show ?thesis by (auto simp: np_reads_def)
qed

lemma NetParser_remove_prefix_reads:
  assumes "np_ok p"
  shows "\<exists>p'. NetParser_remove_prefix p n = Inr p' \<and> np_reads n p p'"
proof (cases "np_error p = NoError")
  case True
  then show ?thesis
    by (cases "n \<le> length (np_str p)") (simp_all add: parser_simps np_reads_def)
next
  case False
  with assms show ?thesis
    by (auto simp: NetParser_remove_prefix_error np_reads_def np_ok_def check_size_def
        NetParser_set_error_def)
qed

section \<open>The contract of an integer codec\<close>

text \<open>
  What the header code relies on for each field: writing a value and reading it back gives it;
  reading consumes the width of the field; too little data gives zero and an error that sticks.
\<close>

locale net_int =
  fixes put :: "bytes \<Rightarrow> 'v \<Rightarrow> bytes"
    and get :: "net_parser \<Rightarrow> ('v \<times> net_parser) outcome"
    and enc :: "'v \<Rightarrow> bytes"
    and dec :: "bytes \<Rightarrow> 'v"
    and zero :: 'v
    and width :: nat
  assumes put_enc: "put s v = s @ enc v"
    and enc_length: "length (enc v) = width"
    and dec_enc: "dec (enc v) = v"
    and get_ok: "np_error p = NoError \<Longrightarrow> width \<le> length (np_str p) \<Longrightarrow>
      get p = Inr (dec (take width (np_str p)), np_advance width p)"
    and get_short: "np_error p = NoError \<Longrightarrow> length (np_str p) < width \<Longrightarrow>
      get p = Inr (zero, p\<lparr>np_error := PacketTooShort\<rparr>)"
    and get_error: "np_error p \<noteq> NoError \<Longrightarrow> get p = Inr (zero, check_size p width)"
begin

lemma get_at:
  assumes "np_at p (enc v @ rest)"
  shows "get p = Inr (v, np_advance width p)" "np_at (np_advance width p) rest"
  using assms by (simp_all add: np_at_def get_ok enc_length dec_enc parser_simps)

lemma get_reads:
  assumes "np_ok p"
  obtains v p' where "get p = Inr (v, p')" "np_reads width p p'"
proof (cases "np_error p = NoError")
  case True
  then show thesis
    using that get_ok [of p] get_short [of p]
    by (cases "width \<le> length (np_str p)") (auto simp: np_reads_def)
next
  case False
  with assms have "np_reads width p (check_size p width)"
    by (auto simp: np_reads_def np_ok_def check_size_def NetParser_set_error_def)
  with False that get_error show thesis by blast
qed

lemma get_step:
  assumes "np_ok p" "np_reads n p q"
  obtains v q' where "get q = Inr (v, q')" "np_reads (n + width) p q'"
  using get_reads [OF np_reads_ok [OF assms]] np_reads_trans [OF assms(2)] by metis

end

interpretation u8: net_int NetUnparser_u8 NetParser_u8 be_bytes be_word 0 "Suc 0"
  using parse_int_ok [where 'a = 8] parse_int_short [where 'a = 8] parse_int_error [where 'a = 8]
  by unfold_locales (simp_all add: NetUnparser_u8_def NetParser_u8_def unparse_int_append)

interpretation u16: net_int NetUnparser_u16 NetParser_u16 be_bytes be_word 0 2
  using parse_int_ok [where 'a = 16] parse_int_short [where 'a = 16] parse_int_error [where 'a = 16]
  by unfold_locales (simp_all add: NetUnparser_u16_def NetParser_u16_def unparse_int_append)

interpretation u32: net_int NetUnparser_u32 NetParser_u32 be_bytes be_word 0 4
  using parse_int_ok [where 'a = 32] parse_int_short [where 'a = 32] parse_int_error [where 'a = 32]
  by unfold_locales (simp_all add: NetUnparser_u32_def NetParser_u32_def unparse_int_append)

lemmas net_get_ok = u8.get_ok u16.get_ok u32.get_ok
lemmas net_put = u8.put_enc u16.put_enc u32.put_enc

end
