(* ===== verification/Internet_Checksum.thy ===== *)
theory Internet_Checksum
  imports Net_Parser
begin

text \<open>
  The Internet checksum, \<^verbatim>\<open>InternetChecksum\<close> of \<^verbatim>\<open>libsponge/util/util.{hh,cc}\<close>: the running sum
  in 32 bits, the end-around-carry loop of \<^verbatim>\<open>value()\<close>, and its meaning modulo 65535.
\<close>

section \<open>State and operations\<close>

record internet_checksum =
  ic_sum :: u32
  ic_parity :: bool

definition InternetChecksum_new :: "u32 \<Rightarrow> internet_checksum" where
  "InternetChecksum_new initial_sum = \<lparr>ic_sum = initial_sum, ic_parity = False\<rparr>"

definition checksum_byte :: "u8 \<Rightarrow> internet_checksum \<Rightarrow> internet_checksum" where
  "checksum_byte b c =
     (let val = (ucast b :: u16); val = (if \<not> ic_parity c then push_bit 8 val else val)
      in c\<lparr>ic_sum := ic_sum c + ucast val, ic_parity := \<not> ic_parity c\<rparr>)"

definition InternetChecksum_add :: "internet_checksum \<Rightarrow> bytes \<Rightarrow> internet_checksum" where
  "InternetChecksum_add c data = fold checksum_byte data c"

lemma fold_carry_less:
  assumes "0xffff < (ret :: u32)"
  shows "unat (drop_bit 16 ret + (ret AND 0xffff)) = unat ret div 65536 + unat ret mod 65536 \<and>
    unat ret div 65536 + unat ret mod 65536 < unat ret"
proof -
  have "(0xffff :: u32) = mask 16" by (simp add: mask_eq_exp_minus_1)
  then have "ret AND 0xffff = take_bit 16 ret" by (simp only: take_bit_eq_mask)
  then have lo: "unat (ret AND 0xffff) = unat ret mod 65536"
    by (simp only: unsigned_take_bit_eq) (simp add: take_bit_eq_mod)
  have hi: "unat (drop_bit 16 ret) = unat ret div 65536"
    by (simp only: unat_drop_bit_eq) (simp add: drop_bit_eq_div)
  have gt: "65535 < unat ret" using assms by (simp add: word_less_nat_alt)
  have "0 < unat ret div 65536" using gt by (simp add: div_greater_zero_iff)
  moreover have "q + r < n" if "65536 * q + r = n" "0 < q" for q r n :: nat using that by simp
  ultimately have "unat ret div 65536 + unat ret mod 65536 < unat ret"
    using mult_div_mod_eq by blast
  moreover have "unat (drop_bit 16 ret + (ret AND 0xffff)) = unat ret div 65536 + unat ret mod 65536"
    using calculation unat_u32_less [of ret] by (subst unat_plus_exact) (simp_all add: lo hi)
  ultimately show ?thesis by simp
qed

function fold_carry :: "u32 \<Rightarrow> u32" where
  "fold_carry ret =
     (if ret > 0xffff then fold_carry (drop_bit 16 ret + (ret AND 0xffff)) else ret)"
  by pat_completeness auto
termination
  by (relation "measure unat") (use fold_carry_less in auto)

declare fold_carry.simps [simp del]

definition InternetChecksum_value :: "internet_checksum \<Rightarrow> u16" where
  "InternetChecksum_value c = (let ret = fold_carry (ic_sum c) in ucast (NOT ret))"

section \<open>The sum as a number\<close>

fun byte_sum :: "bool \<Rightarrow> bytes \<Rightarrow> nat" where
  "byte_sum parity [] = 0"
| "byte_sum parity (b # bs) = (if parity then unat b else 256 * unat b) + byte_sum (\<not> parity) bs"

lemma byte_sum_append:
  "byte_sum parity (xs @ ys) = byte_sum parity xs + byte_sum (parity \<noteq> odd (length xs)) ys"
  by (induction parity xs rule: byte_sum.induct) auto

lemma byte_sum_replicate_0 [simp]: "byte_sum parity (replicate n 0) = 0"
  by (induction n arbitrary: parity) simp_all

lemma byte_sum_le: "byte_sum parity bs \<le> 65280 * length bs"
proof (induction parity bs rule: byte_sum.induct)
  case (2 parity b bs)
  then show ?case using unsigned_less [of b, where 'a = nat] by (cases parity) simp_all
qed simp

lemma checksum_byte_sum:
  "ic_sum (checksum_byte b c) = ic_sum c + word_of_nat (if ic_parity c then unat b else 256 * unat b)"
  "ic_parity (checksum_byte b c) = (\<not> ic_parity c)"
proof -
  have b: "unat b < 256" using unsigned_less [of b, where 'a = nat] by simp
  have "unat (push_bit 8 (ucast b :: u16)) = 256 * unat b"
    using b by (simp only: push_bit_eq_mult unat_word_ariths unat_ucast_up) (simp add: unat_ucast_up)
  then have "ucast (push_bit 8 (ucast b :: u16)) = (word_of_nat (256 * unat b) :: u32)"
    using b by (simp only: word_unat_eq_iff unat_of_nat) (simp add: unat_ucast_up)
  moreover have "ucast (ucast b :: u16) = (word_of_nat (unat b) :: u32)"
    by (simp only: word_unat_eq_iff) (simp add: unat_ucast_up)
  ultimately show "ic_sum (checksum_byte b c) = ic_sum c + word_of_nat (if ic_parity c then unat b else 256 * unat b)"
    by (simp add: checksum_byte_def Let_def)
qed (simp add: checksum_byte_def Let_def)

lemma InternetChecksum_new_simps [simp]:
  "ic_sum (InternetChecksum_new i) = i"
  "ic_parity (InternetChecksum_new i) = False"
  by (simp_all add: InternetChecksum_new_def)

lemma InternetChecksum_add_sum:
  "ic_sum (InternetChecksum_add c data) = ic_sum c + word_of_nat (byte_sum (ic_parity c) data)"
  "ic_parity (InternetChecksum_add c data) = (ic_parity c \<noteq> odd (length data))"
  unfolding InternetChecksum_add_def
  by (induction data arbitrary: c) (auto simp: checksum_byte_sum)

lemma InternetChecksum_add_append:
  "InternetChecksum_add (InternetChecksum_add c xs) ys = InternetChecksum_add c (xs @ ys)"
  by (simp add: InternetChecksum_add_def)

section \<open>The meaning of value()\<close>

lemma fold_carry_spec:
  "unat (fold_carry ret) \<le> 65535 \<and> unat (fold_carry ret) mod 65535 = unat ret mod 65535 \<and>
   (fold_carry ret = 0 \<longleftrightarrow> ret = 0)"
proof (induction ret rule: fold_carry.induct)
  case (1 ret)
  show ?case
  proof (cases "ret > 0xffff")
    case True
    let ?r = "drop_bit 16 ret + (ret AND 0xffff)"
    note r = fold_carry_less [OF True]
    have gt: "65535 < unat ret" using True by (simp add: word_less_nat_alt)
    have "(unat ret div 65536 + unat ret mod 65536) mod 65535
        = (unat ret div 65536 * 65536 + unat ret mod 65536) mod 65535"
    proof -
      have "q * 65536 + r = (q + r) + q * 65535" for q r :: nat by simp
      then show ?thesis by (simp only: mod_mult_self1)
    qed
    then have "unat ?r mod 65535 = unat ret mod 65535" using r by simp
    moreover have "unat ?r \<noteq> 0" using r gt by (simp add: div_eq_0_iff)
    ultimately show ?thesis
      using 1 True gt by (auto simp: fold_carry.simps [of ret] simp flip: unat_eq_zero)
  next
    case False
    then show ?thesis by (simp add: fold_carry.simps [of ret] word_less_nat_alt)
  qed
qed

lemma unat_InternetChecksum_value:
  "unat (InternetChecksum_value c) = 65535 - unat (fold_carry (ic_sum c))"
proof -
  let ?r = "fold_carry (ic_sum c)"
  have le: "unat ?r \<le> 65535" using fold_carry_spec by blast
  have m1: "unat (-1 :: u32) = 4294967295"
    by (simp add: unsigned_minus_1_eq_mask mask_eq_exp_minus_1)
  have "NOT ?r = -1 - ?r" by (simp add: not_eq_complement)
  then have "unat (NOT ?r) = 4294967295 - unat ?r"
    using unat_minus_exact [of ?r "-1"] unat_u32_less [of ?r] by (simp only: m1)
  then have "unat (ucast (NOT ?r) :: u16) = (4294967295 - unat ?r) mod 65536"
    by (simp only: unsigned_ucast_eq take_bit_eq_mod) simp
  also have "4294967295 - unat ?r = 65535 * 65536 + (65535 - unat ?r)" using le by simp
  also have "(65535 * 65536 + (65535 - unat ?r)) mod 65536 = 65535 - unat ?r"
    by (simp only: mod_mult_self3) simp
  finally show ?thesis by (simp add: InternetChecksum_value_def Let_def)
qed

lemma InternetChecksum_value_zero_iff:
  "InternetChecksum_value c = 0 \<longleftrightarrow> ic_sum c \<noteq> 0 \<and> 65535 dvd unat (ic_sum c)"
proof -
  let ?r = "fold_carry (ic_sum c)"
  have r: "unat ?r \<le> 65535" "unat ?r mod 65535 = unat (ic_sum c) mod 65535"
    "unat ?r = 0 \<longleftrightarrow> ic_sum c = 0"
    using fold_carry_spec [of "ic_sum c"] by (auto simp: unat_eq_zero)
  have "InternetChecksum_value c = 0 \<longleftrightarrow> unat (InternetChecksum_value c) = 0"
    by (simp add: unat_eq_zero)
  also have "\<dots> \<longleftrightarrow> unat ?r = 65535" using r(1) by (simp add: unat_InternetChecksum_value)
  also have "\<dots> \<longleftrightarrow> unat ?r \<noteq> 0 \<and> unat ?r mod 65535 = 0" using r(1) by (auto simp: mod_if)
  finally show ?thesis using r(2,3) by (simp add: dvd_eq_mod_eq_0)
qed

text \<open>Adding the checksum of a sum to that sum gives a multiple of 65535.\<close>

lemma InternetChecksum_value_fill:
  assumes "unat s + 65535 < 2 ^ 32" "ic_sum c = s" "ic_sum d = s + ucast (InternetChecksum_value c)"
  shows "InternetChecksum_value d = 0"
proof -
  let ?v = "InternetChecksum_value c" and ?r = "fold_carry s"
  have r: "unat ?r \<le> 65535" "unat ?r mod 65535 = unat s mod 65535" "?r = 0 \<longleftrightarrow> s = 0"
    using fold_carry_spec [of s] by blast+
  have v: "unat ?v = 65535 - unat ?r" using unat_InternetChecksum_value [of c] assms(2) by simp
  have "unat (s + ucast ?v) = unat s + unat ?v"
    using assms(1) v by (subst unat_plus_exact) (simp_all add: unat_ucast_up)
  then have tot: "unat (s + ucast ?v) + unat ?r = unat s + 65535" using v r(1) by simp
  have "(unat (s + ucast ?v) + unat ?r) mod 65535 = (0 + unat ?r) mod 65535"
    unfolding tot using r(2) by simp
  then have "unat (s + ucast ?v) mod 65535 = 0"
    by (metis add_diff_cancel_right' mod_eq_dvd_iff_nat le_add2 minus_nat.diff_0 diff_zero
        dvd_eq_mod_eq_0 add_0)
  moreover have "s + ucast ?v \<noteq> 0"
  proof
    assume "s + ucast ?v = 0"
    then have "unat s + 65535 = unat ?r" using tot by simp
    then have "unat s = 0" "unat ?r = 65535" using r(1) by simp_all
    then have "s = 0" "?r \<noteq> 0" by (auto simp: unat_eq_zero)
    with r(3) show False by simp
  qed
  ultimately show ?thesis by (simp add: InternetChecksum_value_zero_iff assms(3) dvd_eq_mod_eq_0)
qed

lemma byte_sum_be_bytes [simp]: "byte_sum False (be_bytes (v :: u16)) = unat v"
proof -
  have "length (be_bytes v) = Suc (Suc 0)" by simp
  then obtain a b where "be_bytes v = [a, b]" by (auto simp only: length_Suc_conv length_0_conv)
  then show ?thesis using be_nat_be_bytes(2) [of v] by simp
qed

lemma checksum_field_verifies:
  assumes "even (length pre)"
    and bound: "unat init + 65280 * (length pre + length post + 2) < 2 ^ 32"
    and v: "v = InternetChecksum_value
      (InternetChecksum_add (InternetChecksum_new init) (pre @ be_bytes (0 :: u16) @ post))"
  shows "InternetChecksum_value
    (InternetChecksum_add (InternetChecksum_new init) (pre @ be_bytes v @ post)) = 0"
proof -
  define n where "n = byte_sum False pre + byte_sum False post"
  have le: "n \<le> 65280 * (length pre + length post)"
    using byte_sum_le [of False pre] byte_sum_le [of False post] by (simp add: n_def)
  have sum: "byte_sum False (pre @ be_bytes w @ post) = n + unat w" for w :: u16
    using assms(1) by (simp add: byte_sum_append n_def)
  have "unat (init + word_of_nat n) \<le> unat init + n"
    using bound le by (subst unat_plus_exact) (simp_all add: unat_of_nat)
  then show ?thesis
    using bound le
    by (intro InternetChecksum_value_fill [of "init + word_of_nat n"
          "InternetChecksum_add (InternetChecksum_new init) (pre @ be_bytes (0 :: u16) @ post)"])
      (simp_all add: InternetChecksum_add_sum sum v [symmetric])
qed

section \<open>Properties\<close>

text \<open>
  A packet whose two-byte checksum field, at an even offset, holds the value computed over the
  packet with that field zeroed is verified: the checksum over the whole packet, with the same
  initial sum, is zero.  The bound keeps the 32-bit running sum from overflowing; any packet of
  at most 65535 bytes with a pseudo-header sum satisfies it.
\<close>

theorem checksum_verifies:
  assumes "even (length pre)"
    and "unat init + 65280 * (length pre + length post + 2) < 2 ^ 32"
  shows "InternetChecksum_value (InternetChecksum_add (InternetChecksum_new init)
    (NetUnparser_u16 pre
      (InternetChecksum_value (InternetChecksum_add (InternetChecksum_new init)
        (NetUnparser_u16 pre 0 @ post))) @ post)) = 0"
  using checksum_field_verifies [OF assms refl] by (simp add: net_put)

theorem checksum_verifies_witness:
  "InternetChecksum_value (InternetChecksum_add (InternetChecksum_new 7)
    (NetUnparser_u16 [0x45, 0]
      (InternetChecksum_value (InternetChecksum_add (InternetChecksum_new 7)
        (NetUnparser_u16 [0x45, 0] 0 @ [0xab]))) @ [0xab])) = 0"
  using checksum_verifies [of "[0x45, 0]" 7 "[0xab]"] by simp

text \<open>
  The checksum of a packet is zero exactly when the sum of its 16-bit big-endian words (the
  last one padded) plus the initial sum is a positive multiple of 65535, whether the packet is
  added in one piece or in two pieces split anywhere; the carry loop of \<^verbatim>\<open>value()\<close> always ends.
\<close>

theorem checksum_zero_iff:
  assumes "unat init + 65280 * (length xs + length ys) < 2 ^ 32"
  shows "InternetChecksum_value
      (InternetChecksum_add (InternetChecksum_add (InternetChecksum_new init) xs) ys) = 0 \<longleftrightarrow>
    0 < unat init + byte_sum False (xs @ ys) \<and> 65535 dvd unat init + byte_sum False (xs @ ys)"
proof -
  define n where "n = byte_sum False (xs @ ys)"
  have "n \<le> 65280 * (length xs + length ys)"
    using byte_sum_le [of False "xs @ ys"] by (simp add: n_def)
  then have n: "unat (init + word_of_nat n) = unat init + n"
    using assms by (subst unat_plus_exact) (simp_all add: unat_of_nat)
  then have "init + word_of_nat n = 0 \<longleftrightarrow> unat init + n = 0" by (metis unat_eq_zero)
  with n show ?thesis
    by (simp add: InternetChecksum_value_zero_iff InternetChecksum_add_append
        InternetChecksum_add_sum flip: n_def)
qed

theorem checksum_zero_iff_witness:
  "InternetChecksum_value
     (InternetChecksum_add (InternetChecksum_add (InternetChecksum_new 0) [0xff]) [0xff]) = 0"
  using checksum_zero_iff [of 0 "[0xff]" "[0xff]"] by simp

end
