(* ===== verification/Tcp_Segment.thy ===== *)
theory Tcp_Segment
  imports Internet_Checksum Wrapping_Integers
begin

text \<open>
  TCP headers and segments, \<^verbatim>\<open>libsponge/tcp_helpers/tcp_header.{hh,cc}\<close> and
  \<^verbatim>\<open>tcp_segment.{hh,cc}\<close>: the records, parsing from and serializing to bytes with every error
  branch, and the round trip between the two, checksum included.
\<close>

section \<open>TCPHeader\<close>

record tcp_header =
  th_sport :: u16
  th_dport :: u16
  th_seqno :: WrappingInt32
  th_ackno :: WrappingInt32
  th_doff :: u8
  th_urg :: bool
  th_ack :: bool
  th_psh :: bool
  th_rst :: bool
  th_syn :: bool
  th_fin :: bool
  th_win :: u16
  th_cksum :: u16
  th_uptr :: u16

definition TCPHeader_LENGTH :: nat where
  "TCPHeader_LENGTH = 20"

definition TCPHeader_default :: tcp_header where
  "TCPHeader_default =
     \<lparr>th_sport = 0, th_dport = 0, th_seqno = WrappingInt32 0, th_ackno = WrappingInt32 0,
      th_doff = word_of_nat (TCPHeader_LENGTH div 4),
      th_urg = False, th_ack = False, th_psh = False, th_rst = False, th_syn = False,
      th_fin = False, th_win = 0, th_cksum = 0, th_uptr = 0\<rparr>"

text \<open>Parsing assigns every field, so the previous contents of the header play no part.\<close>

definition TCPHeader_parse ::
  "net_parser \<Rightarrow> (tcp_header \<times> net_parser \<times> ParseResult) outcome" where
  "TCPHeader_parse p =
     obind (NetParser_u16 p) (\<lambda>(sport, p).
     obind (NetParser_u16 p) (\<lambda>(dport, p).
     obind (NetParser_u32 p) (\<lambda>(seqno, p).
     obind (NetParser_u32 p) (\<lambda>(ackno, p).
     obind (NetParser_u8 p) (\<lambda>(doff_b, p).
     obind (NetParser_u8 p) (\<lambda>(fl_b, p).
     obind (NetParser_u16 p) (\<lambda>(win, p).
     obind (NetParser_u16 p) (\<lambda>(cksum, p).
     obind (NetParser_u16 p) (\<lambda>(uptr, p).
       let h = \<lparr>th_sport = sport, th_dport = dport,
                th_seqno = WrappingInt32 seqno, th_ackno = WrappingInt32 ackno,
                th_doff = drop_bit 4 doff_b,
                th_urg = (fl_b AND 0b00100000 \<noteq> 0),
                th_ack = (fl_b AND 0b00010000 \<noteq> 0),
                th_psh = (fl_b AND 0b00001000 \<noteq> 0),
                th_rst = (fl_b AND 0b00000100 \<noteq> 0),
                th_syn = (fl_b AND 0b00000010 \<noteq> 0),
                th_fin = (fl_b AND 0b00000001 \<noteq> 0),
                th_win = win, th_cksum = cksum, th_uptr = uptr\<rparr>
       in if th_doff h < 5 then Inr (h, p, HeaderTooShort)
          else
            obind (NetParser_remove_prefix p (unat (th_doff h) * 4 - TCPHeader_LENGTH)) (\<lambda>p.
              if NetParser_error p then Inr (h, p, NetParser_get_error p)
              else Inr (h, p, NoError)))))))))))"

definition string_resize :: "bytes \<Rightarrow> nat \<Rightarrow> bytes" where
  "string_resize s n = take n s @ replicate (n - length s) 0"

definition TCPHeader_serialize :: "tcp_header \<Rightarrow> bytes outcome" where
  "TCPHeader_serialize h =
     (if th_doff h < 5 then Inl (Runtime_error ''TCP header too short'')
      else
        let ret = [];
            ret = NetUnparser_u16 ret (th_sport h);
            ret = NetUnparser_u16 ret (th_dport h);
            ret = NetUnparser_u32 ret (raw_value (th_seqno h));
            ret = NetUnparser_u32 ret (raw_value (th_ackno h));
            ret = NetUnparser_u8 ret (push_bit 4 (th_doff h));
            fl_b = (if th_urg h then 0b00100000 else 0) OR (if th_ack h then 0b00010000 else 0) OR
                   (if th_psh h then 0b00001000 else 0) OR (if th_rst h then 0b00000100 else 0) OR
                   (if th_syn h then 0b00000010 else 0) OR (if th_fin h then 0b00000001 else 0);
            ret = NetUnparser_u8 ret fl_b;
            ret = NetUnparser_u16 ret (th_win h);
            ret = NetUnparser_u16 ret (th_cksum h);
            ret = NetUnparser_u16 ret (th_uptr h)
        in Inr (string_resize ret (4 * unat (th_doff h))))"

text \<open>The comparison leaves out the ports and the checksum.\<close>

definition TCPHeader_eq :: "tcp_header \<Rightarrow> tcp_header \<Rightarrow> bool" where
  "TCPHeader_eq h other \<longleftrightarrow>
     WrappingInt32_eq (th_seqno h) (th_seqno other) \<and>
     WrappingInt32_eq (th_ackno h) (th_ackno other) \<and> th_doff h = th_doff other \<and>
     th_urg h = th_urg other \<and> th_ack h = th_ack other \<and> th_psh h = th_psh other \<and>
     th_rst h = th_rst other \<and> th_syn h = th_syn other \<and> th_fin h = th_fin other \<and>
     th_win h = th_win other \<and> th_uptr h = th_uptr other"

section \<open>TCPSegment\<close>

record tcp_segment =
  ts_header :: tcp_header
  ts_payload :: buffer

definition TCPSegment_default :: tcp_segment where
  "TCPSegment_default = \<lparr>ts_header = TCPHeader_default, ts_payload = Buffer_default\<rparr>"

text \<open>\<open>this\<close> is the segment before the call; a bad checksum leaves it as it is.\<close>

definition TCPSegment_parse ::
  "tcp_segment \<Rightarrow> buffer \<Rightarrow> u32 \<Rightarrow> (tcp_segment \<times> ParseResult) outcome" where
  "TCPSegment_parse this buffer datagram_layer_checksum =
     (let check = InternetChecksum_add (InternetChecksum_new datagram_layer_checksum)
                    (Buffer_str buffer)
      in if InternetChecksum_value check \<noteq> 0 then Inr (this, BadChecksum)
         else obind (TCPHeader_parse (NetParser_new buffer)) (\<lambda>(h, p, _).
                Inr (\<lparr>ts_header = h, ts_payload = np_buffer p\<rparr>, NetParser_get_error p)))"

definition TCPSegment_length_in_sequence_space :: "tcp_segment \<Rightarrow> u64" where
  "TCPSegment_length_in_sequence_space seg =
     size_u64 (Buffer_str (ts_payload seg)) + (if th_syn (ts_header seg) then 1 else 0)
       + (if th_fin (ts_header seg) then 1 else 0)"

definition TCPSegment_serialize :: "tcp_segment \<Rightarrow> u32 \<Rightarrow> buffer_list outcome" where
  "TCPSegment_serialize seg datagram_layer_checksum =
     (let header_out = (ts_header seg)\<lparr>th_cksum := 0\<rparr>
      in obind (TCPHeader_serialize header_out) (\<lambda>hdr.
           let check = InternetChecksum_new datagram_layer_checksum;
               check = InternetChecksum_add check hdr;
               check = InternetChecksum_add check (Buffer_str (ts_payload seg));
               header_out = header_out\<lparr>th_cksum := InternetChecksum_value check\<rparr>
           in obind (TCPHeader_serialize header_out) (\<lambda>hdr.
                let ret = [];
                    ret = BufferList_append ret (BufferList_of_string hdr);
                    ret = BufferList_append ret (BufferList_of_Buffer (ts_payload seg))
                in Inr ret)))"

section \<open>The layout of a header\<close>

text \<open>The flags byte.\<close>

definition tcp_flags :: "tcp_header \<Rightarrow> u8" where
  "tcp_flags h =
     (if th_urg h then 0b00100000 else 0) OR (if th_ack h then 0b00010000 else 0) OR
     (if th_psh h then 0b00001000 else 0) OR (if th_rst h then 0b00000100 else 0) OR
     (if th_syn h then 0b00000010 else 0) OR (if th_fin h then 0b00000001 else 0)"

lemma tcp_flags_bits:
  "tcp_flags h AND 0b00100000 \<noteq> 0 \<longleftrightarrow> th_urg h"
  "tcp_flags h AND 0b00010000 \<noteq> 0 \<longleftrightarrow> th_ack h"
  "tcp_flags h AND 0b00001000 \<noteq> 0 \<longleftrightarrow> th_psh h"
  "tcp_flags h AND 0b00000100 \<noteq> 0 \<longleftrightarrow> th_rst h"
  "tcp_flags h AND 0b00000010 \<noteq> 0 \<longleftrightarrow> th_syn h"
  "tcp_flags h AND 0b00000001 \<noteq> 0 \<longleftrightarrow> th_fin h"
  by (simp_all add: tcp_flags_def)

text \<open>The sixteen bytes before the checksum, and the options, which are all zero.\<close>

definition tcp_front :: "tcp_header \<Rightarrow> bytes" where
  "tcp_front h =
     be_bytes (th_sport h) @ be_bytes (th_dport h) @ be_bytes (raw_value (th_seqno h)) @
     be_bytes (raw_value (th_ackno h)) @ be_bytes (push_bit 4 (th_doff h)) @
     be_bytes (tcp_flags h) @ be_bytes (th_win h)"

definition tcp_options :: "tcp_header \<Rightarrow> bytes" where
  "tcp_options h = replicate (4 * unat (th_doff h) - 20) 0"

lemma length_tcp_front [simp]: "length (tcp_front h) = 16"
  by (simp add: tcp_front_def)

lemma TCPHeader_serialize_layout:
  assumes "5 \<le> th_doff h"
  shows "TCPHeader_serialize h =
    Inr (tcp_front h @ be_bytes (th_cksum h) @ be_bytes (th_uptr h) @ tcp_options h)"
proof -
  have d: "5 \<le> unat (th_doff h)" "\<not> th_doff h < 5" using assms by (simp_all add: word_le_nat_alt word_less_nat_alt)
  show ?thesis
    using d
    by (simp add: TCPHeader_serialize_def Let_def net_put string_resize_def tcp_front_def
        tcp_flags_def [symmetric] tcp_options_def)
qed

lemma TCPHeader_serialize_fault:
  "th_doff h < 5 \<Longrightarrow> TCPHeader_serialize h = Inl (Runtime_error ''TCP header too short'')"
  by (simp add: TCPHeader_serialize_def)

lemma tcp_front_cksum [simp]:
  "tcp_front (h\<lparr>th_cksum := c\<rparr>) = tcp_front h"
  "tcp_options (h\<lparr>th_cksum := c\<rparr>) = tcp_options h"
  by (simp_all add: tcp_front_def tcp_options_def tcp_flags_def)

lemma doff_nibble:
  assumes "d < (16 :: u8)"
  shows "drop_bit 4 (push_bit 4 d) = d"
proof -
  have "unat d < 16" using assms by (simp add: word_less_nat_alt)
  then have "unat (push_bit 4 d) = 16 * unat d"
    by (simp only: push_bit_eq_mult unat_word_ariths) simp
  then have "unat (drop_bit 4 (push_bit 4 d)) = unat d"
    by (simp only: unat_drop_bit_eq) (simp add: drop_bit_eq_div)
  then show ?thesis by (simp only: word_unat_eq_iff)
qed

lemma TCPHeader_parse_layout:
  assumes "5 \<le> th_doff h" "th_doff h < 16"
    and at: "np_at p (tcp_front h @ be_bytes (th_cksum h) @ be_bytes (th_uptr h) @ tcp_options h @ rest)"
  shows "\<exists>p'. TCPHeader_parse p = Inr (h, p', NoError) \<and> np_at p' rest"
proof -
  note a0 = at [unfolded tcp_front_def append_assoc]
  note a1 = u16.get_at [OF a0]
  note a2 = u16.get_at [OF a1(2)]
  note a3 = u32.get_at [OF a2(2)]
  note a4 = u32.get_at [OF a3(2)]
  note a5 = u8.get_at [OF a4(2)]
  note a6 = u8.get_at [OF a5(2)]
  note a7 = u16.get_at [OF a6(2)]
  note a8 = u16.get_at [OF a7(2)]
  note a9 = u16.get_at [OF a8(2)]
  have opt: "length (tcp_options h) = unat (th_doff h) * 4 - TCPHeader_LENGTH"
    by (simp add: tcp_options_def TCPHeader_LENGTH_def)
  note a10 = remove_prefix_at [OF a9(2) opt]
  have d: "\<not> th_doff h < 5" using assms(1) by simp
  have noerr: "np_at p' s \<Longrightarrow> \<not> NetParser_error p'" for p' s
    by (simp add: np_at_def NetParser_error_def NetParser_get_error_def)
  show ?thesis
    unfolding TCPHeader_parse_def a1(1) a2(1) a3(1) a4(1) a5(1) a6(1) a7(1) a8(1) a9(1)
      obind_simps prod.case Let_def
    using d a10(2)
    by (simp add: doff_nibble [OF assms(2)] tcp_flags_bits a10(1) noerr [OF a10(2)])
qed

text \<open>
  Parsing never throws: it reads the twenty bytes of the fixed header, and the options after them
  unless the data offset is too small, or it stops with the error that there were too few.
\<close>

lemma TCPHeader_parse_reads:
  assumes "np_ok p"
  obtains h p' r where "TCPHeader_parse p = Inr (h, p', r)"
    "np_reads (if th_doff h < 5 then 20 else unat (th_doff h) * 4) p p'"
    "r = (if th_doff h < 5 then HeaderTooShort else np_error p')"
proof -
  obtain v1 p1 where s1: "NetParser_u16 p = Inr (v1, p1)" and r1: "np_reads 2 p p1"
    by (rule u16.get_reads [OF assms])
  obtain v2 p2 where s2: "NetParser_u16 p1 = Inr (v2, p2)" and r2: "np_reads (2 + 2) p p2"
    by (rule u16.get_step [OF assms r1])
  obtain v3 p3 where s3: "NetParser_u32 p2 = Inr (v3, p3)" and r3: "np_reads (2 + 2 + 4) p p3"
    by (rule u32.get_step [OF assms r2])
  obtain v4 p4 where s4: "NetParser_u32 p3 = Inr (v4, p4)" and r4: "np_reads (2 + 2 + 4 + 4) p p4"
    by (rule u32.get_step [OF assms r3])
  obtain v5 p5 where s5: "NetParser_u8 p4 = Inr (v5, p5)" and r5: "np_reads (2 + 2 + 4 + 4 + Suc 0) p p5"
    by (rule u8.get_step [OF assms r4])
  obtain v6 p6 where s6: "NetParser_u8 p5 = Inr (v6, p6)" and r6: "np_reads (2 + 2 + 4 + 4 + Suc 0 + Suc 0) p p6"
    by (rule u8.get_step [OF assms r5])
  obtain v7 p7 where s7: "NetParser_u16 p6 = Inr (v7, p7)" and r7: "np_reads (2 + 2 + 4 + 4 + Suc 0 + Suc 0 + 2) p p7"
    by (rule u16.get_step [OF assms r6])
  obtain v8 p8 where s8: "NetParser_u16 p7 = Inr (v8, p8)" and r8: "np_reads (2 + 2 + 4 + 4 + Suc 0 + Suc 0 + 2 + 2) p p8"
    by (rule u16.get_step [OF assms r7])
  obtain v9 p9 where s9: "NetParser_u16 p8 = Inr (v9, p9)" and "np_reads (2 + 2 + 4 + 4 + Suc 0 + Suc 0 + 2 + 2 + 2) p p9"
    by (rule u16.get_step [OF assms r8])
  then have r9: "np_reads 20 p p9" by simp
  define h where "h = \<lparr>th_sport = v1, th_dport = v2, th_seqno = WrappingInt32 v3,
    th_ackno = WrappingInt32 v4, th_doff = drop_bit 4 v5, th_urg = (v6 AND 0b00100000 \<noteq> 0),
    th_ack = (v6 AND 0b00010000 \<noteq> 0), th_psh = (v6 AND 0b00001000 \<noteq> 0),
    th_rst = (v6 AND 0b00000100 \<noteq> 0), th_syn = (v6 AND 0b00000010 \<noteq> 0),
    th_fin = (v6 AND 0b00000001 \<noteq> 0), th_win = v7, th_cksum = v8, th_uptr = v9\<rparr>"
  obtain q where q: "NetParser_remove_prefix p9 (unat (th_doff h) * 4 - 20) = Inr q"
    "np_reads (unat (th_doff h) * 4 - 20) p9 q"
    using NetParser_remove_prefix_reads [OF np_reads_ok [OF assms r9]] by blast
  have rq: "np_reads (unat (th_doff h) * 4) p q" if "\<not> th_doff h < 5"
    using np_reads_trans [OF r9 q(2)] that by (simp add: word_less_nat_alt)
  have "TCPHeader_parse p = (if th_doff h < 5 then Inr (h, p9, HeaderTooShort) else Inr (h, q, np_error q))"
    unfolding TCPHeader_parse_def s1 s2 s3 s4 s5 s6 s7 s8 s9 obind_simps prod.case Let_def
      h_def [symmetric]
    using q(1) by (simp add: TCPHeader_LENGTH_def NetParser_error_def NetParser_get_error_def)
  with that r9 rq show thesis by (cases "th_doff h < 5") auto
qed

section \<open>Segments on the wire\<close>

definition tcp_wire :: "tcp_segment \<Rightarrow> u16 \<Rightarrow> bytes" where
  "tcp_wire seg cksum =
     tcp_front (ts_header seg) @ be_bytes cksum @ be_bytes (th_uptr (ts_header seg)) @
     tcp_options (ts_header seg) @ Buffer_str (ts_payload seg)"

definition tcp_cksum :: "tcp_segment \<Rightarrow> u32 \<Rightarrow> u16" where
  "tcp_cksum seg ck =
     InternetChecksum_value (InternetChecksum_add (InternetChecksum_new ck) (tcp_wire seg 0))"

lemma TCPSegment_serialize_wire:
  assumes "5 \<le> th_doff (ts_header seg)"
  shows "\<exists>bl. TCPSegment_serialize seg ck = Inr bl \<and>
    BufferList_concatenate bl = tcp_wire seg (tcp_cksum seg ck)"
  using assms
  by (simp add: TCPSegment_serialize_def Let_def TCPHeader_serialize_layout buffer_simps
      BufferList_of_string_def BufferList_of_Buffer_def InternetChecksum_add_append tcp_wire_def
      tcp_cksum_def)

lemma tcp_wire_verifies:
  assumes "unat ck + 65280 * length (tcp_wire seg 0) < 2 ^ 32"
  shows "InternetChecksum_value (InternetChecksum_add (InternetChecksum_new ck)
    (tcp_wire seg (tcp_cksum seg ck))) = 0"
proof -
  let ?post = "be_bytes (th_uptr (ts_header seg)) @ tcp_options (ts_header seg) @
    Buffer_str (ts_payload seg)"
  have wire: "tcp_wire seg c = tcp_front (ts_header seg) @ be_bytes c @ ?post" for c
    by (simp add: tcp_wire_def)
  show ?thesis
    unfolding wire
    by (rule checksum_field_verifies) (use assms in \<open>simp_all add: tcp_cksum_def wire\<close>)
qed

lemma TCPSegment_parse_wire:
  assumes "5 \<le> th_doff (ts_header seg)" "th_doff (ts_header seg) < 16"
    and "unat ck + 65280 * length (tcp_wire seg 0) < 2 ^ 32"
    and str: "Buffer_str b = tcp_wire seg (tcp_cksum seg ck)"
  shows "\<exists>seg'. TCPSegment_parse this b ck = Inr (seg', NoError) \<and>
    ts_header seg' = (ts_header seg)\<lparr>th_cksum := tcp_cksum seg ck\<rparr> \<and>
    Buffer_str (ts_payload seg') = Buffer_str (ts_payload seg)"
proof -
  let ?h = "(ts_header seg)\<lparr>th_cksum := tcp_cksum seg ck\<rparr>"
  have "np_at (NetParser_new b) (tcp_front ?h @ be_bytes (th_cksum ?h) @ be_bytes (th_uptr ?h) @
      tcp_options ?h @ Buffer_str (ts_payload seg))"
    by (simp add: np_at_def parser_simps str tcp_wire_def)
  then obtain p' where "TCPHeader_parse (NetParser_new b) = Inr (?h, p', NoError)"
    "np_at p' (Buffer_str (ts_payload seg))"
    using TCPHeader_parse_layout [of ?h] assms(1,2) by auto
  then show ?thesis
    using tcp_wire_verifies [OF assms(3)]
    by (simp add: TCPSegment_parse_def Let_def str np_at_def np_str_def NetParser_get_error_def)
qed

section \<open>Properties\<close>

text \<open>
  C14: a segment with a legal data offset (5 to 15 words) serializes, and parsing the bytes with the
  same pseudo-header sum gives no error, the same payload bytes and every header field back; only
  the checksum field is new.  The bound keeps the checksum's running sum inside 32 bits.
\<close>

theorem TCPSegment_roundtrip:
  assumes "5 \<le> th_doff (ts_header seg)" and "th_doff (ts_header seg) < 16"
    and "unat ck + 65280 * (4 * unat (th_doff (ts_header seg)) + Buffer_size (ts_payload seg)) < 2 ^ 32"
  shows "\<exists>bl seg'. TCPSegment_serialize seg ck = Inr bl \<and>
    TCPSegment_parse this (Buffer_new (BufferList_concatenate bl)) ck = Inr (seg', NoError) \<and>
    ts_header seg' = (ts_header seg)\<lparr>th_cksum := th_cksum (ts_header seg')\<rparr> \<and>
    Buffer_copy (ts_payload seg') = Buffer_copy (ts_payload seg)"
proof -
  have "length (tcp_wire seg 0) = 4 * unat (th_doff (ts_header seg)) + Buffer_size (ts_payload seg)"
    using assms(1) by (simp add: tcp_wire_def tcp_options_def Buffer_size_def word_le_nat_alt)
  then have bound: "unat ck + 65280 * length (tcp_wire seg 0) < 2 ^ 32" using assms(3) by simp
  obtain bl where bl: "TCPSegment_serialize seg ck = Inr bl"
    "BufferList_concatenate bl = tcp_wire seg (tcp_cksum seg ck)"
    using TCPSegment_serialize_wire [OF assms(1)] by blast
  have "Buffer_str (Buffer_new (BufferList_concatenate bl)) = tcp_wire seg (tcp_cksum seg ck)"
    by (simp add: Buffer_str_new bl(2))
  from TCPSegment_parse_wire [OF assms(1,2) bound this, of this] bl(1) show ?thesis
    by (auto simp: Buffer_copy_def)
qed

theorem TCPSegment_roundtrip_witness:
  "\<exists>bl seg'. TCPSegment_serialize \<lparr>ts_header = TCPHeader_default\<lparr>th_syn := True\<rparr>,
      ts_payload = Buffer_new [104, 105]\<rparr> 9 = Inr bl \<and>
    TCPSegment_parse TCPSegment_default (Buffer_new (BufferList_concatenate bl)) 9
      = Inr (seg', NoError) \<and>
    ts_header seg' = TCPHeader_default\<lparr>th_syn := True, th_cksum := th_cksum (ts_header seg')\<rparr> \<and>
    Buffer_copy (ts_payload seg') = [104, 105]"
  using TCPSegment_roundtrip [of "\<lparr>ts_header = TCPHeader_default\<lparr>th_syn := True\<rparr>,
      ts_payload = Buffer_new [104, 105]\<rparr>" 9 TCPSegment_default]
  by (simp add: TCPHeader_default_def TCPHeader_LENGTH_def Buffer_size_def Buffer_copy_def
      buffer_simps)

text \<open>
  Parsing never throws, whatever the bytes.  A bad checksum leaves the segment untouched; with
  a good one, fewer than twenty bytes (or fewer than the data offset claims) give
  \<^verbatim>\<open>PacketTooShort\<close>, and otherwise the payload is what follows the header.
\<close>

theorem TCPSegment_parse_total:
  "\<exists>seg r. TCPSegment_parse this b ck = Inr (seg, r) \<and>
    (if InternetChecksum_value
          (InternetChecksum_add (InternetChecksum_new ck) (Buffer_copy b)) \<noteq> 0
     then seg = this \<and> r = BadChecksum
     else let n = (if th_doff (ts_header seg) < 5 then TCPHeader_LENGTH
                   else 4 * unat (th_doff (ts_header seg)))
          in if Buffer_size b < n then r = PacketTooShort
             else r = NoError \<and> Buffer_copy (ts_payload seg) = drop n (Buffer_copy b))"
proof -
  have "np_ok (NetParser_new b)" by (simp add: np_ok_def parser_simps)
  then obtain h p' r where h: "TCPHeader_parse (NetParser_new b) = Inr (h, p', r)"
    "np_reads (if th_doff h < 5 then 20 else unat (th_doff h) * 4) (NetParser_new b) p'"
    by (rule TCPHeader_parse_reads)
  have "np_str p' = Buffer_str (np_buffer p')" by (simp add: np_str_def)
  with h(2) show ?thesis
    by (auto simp: TCPSegment_parse_def Let_def h(1) np_reads_def parser_simps Buffer_size_def
        Buffer_copy_def NetParser_get_error_def TCPHeader_LENGTH_def mult.commute split: if_splits)
qed

text \<open>
  A data offset below the legal minimum of five words is accepted: \<^verbatim>\<open>TCPHeader::parse\<close> returns
  \<^verbatim>\<open>HeaderTooShort\<close>, but \<^verbatim>\<open>TCPSegment::parse\<close> drops that result and reports no error.
\<close>

theorem TCPSegment_parse_accepts_short_doff:
  "case TCPSegment_parse TCPSegment_default
          (Buffer_new (replicate 16 0 @ [0xff, 0xff, 0, 0])) 0 of
     Inl e \<Rightarrow> False
   | Inr (seg, r) \<Rightarrow> r = NoError \<and> th_doff (ts_header seg) = 0"
  by code_simp

end
