(* ===== verification/Ipv4_Datagram.thy ===== *)
theory Ipv4_Datagram
  imports Tcp_Segment
begin

text \<open>
  IPv4 headers and datagrams, \<^verbatim>\<open>libsponge/tcp_helpers/ipv4_header.{hh,cc}\<close> and
  \<^verbatim>\<open>ipv4_datagram.{hh,cc}\<close>: the records, parsing and serializing with every error branch, the
  pseudo-header sum, the round trip, and what a successful parse of a header guarantees.
\<close>

section \<open>IPv4Header\<close>

record ipv4_header =
  ih_ver :: u8
  ih_hlen :: u8
  ih_tos :: u8
  ih_len :: u16
  ih_id :: u16
  ih_df :: bool
  ih_mf :: bool
  ih_offset :: u16
  ih_ttl :: u8
  ih_proto :: u8
  ih_cksum :: u16
  ih_src :: u32
  ih_dst :: u32

definition IPv4Header_LENGTH :: nat where
  "IPv4Header_LENGTH = 20"

definition DEFAULT_TTL :: u8 where
  "DEFAULT_TTL = 128"

definition PROTO_TCP :: u8 where
  "PROTO_TCP = 6"

definition IPv4Header_default :: ipv4_header where
  "IPv4Header_default =
     \<lparr>ih_ver = 4, ih_hlen = word_of_nat (IPv4Header_LENGTH div 4), ih_tos = 0, ih_len = 0, ih_id = 0,
      ih_df = True, ih_mf = False, ih_offset = 0, ih_ttl = DEFAULT_TTL, ih_proto = PROTO_TCP,
      ih_cksum = 0, ih_src = 0, ih_dst = 0\<rparr>"

text \<open>\<open>this\<close> is the header before the call, which too short a packet leaves as it is.\<close>

definition IPv4Header_parse ::
  "ipv4_header \<Rightarrow> net_parser \<Rightarrow> (ipv4_header \<times> net_parser \<times> ParseResult) outcome" where
  "IPv4Header_parse this p =
     (let original_serialized_version = np_buffer p; data_size = Buffer_size (np_buffer p)
      in if data_size < IPv4Header_LENGTH then Inr (this, p, PacketTooShort)
      else
     obind (NetParser_u8 p) (\<lambda>(first_byte, p).
     obind (NetParser_u8 p) (\<lambda>(tos, p).
     obind (NetParser_u16 p) (\<lambda>(len, p).
     obind (NetParser_u16 p) (\<lambda>(id', p).
     obind (NetParser_u16 p) (\<lambda>(fo_val, p).
     obind (NetParser_u8 p) (\<lambda>(ttl, p).
     obind (NetParser_u8 p) (\<lambda>(proto, p).
     obind (NetParser_u16 p) (\<lambda>(cksum, p).
     obind (NetParser_u32 p) (\<lambda>(src, p).
     obind (NetParser_u32 p) (\<lambda>(dst, p).
       let h = \<lparr>ih_ver = drop_bit 4 first_byte, ih_hlen = first_byte AND 0x0f, ih_tos = tos,
                ih_len = len, ih_id = id',
                ih_df = (fo_val AND 0x4000 \<noteq> 0), ih_mf = (fo_val AND 0x2000 \<noteq> 0),
                ih_offset = fo_val AND 0x1fff,
                ih_ttl = ttl, ih_proto = proto, ih_cksum = cksum, ih_src = src, ih_dst = dst\<rparr>
       in if data_size < 4 * unat (ih_hlen h) then Inr (h, p, PacketTooShort)
          else if ih_ver h \<noteq> 4 then Inr (h, p, WrongIPVersion)
          else if ih_hlen h < 5 then Inr (h, p, HeaderTooShort)
          else if data_size \<noteq> unat (ih_len h) then Inr (h, p, TruncatedPacket)
          else
            obind (NetParser_remove_prefix p (unat (ih_hlen h) * 4 - IPv4Header_LENGTH)) (\<lambda>p.
              if NetParser_error p then Inr (h, p, NetParser_get_error p)
              else
                let check = InternetChecksum_add (InternetChecksum_new 0)
                      (take (4 * unat (ih_hlen h)) (Buffer_str original_serialized_version))
                in if InternetChecksum_value check \<noteq> 0 then Inr (h, p, BadChecksum)
                   else Inr (h, p, NoError)))))))))))))"

definition IPv4Header_serialize :: "ipv4_header \<Rightarrow> bytes outcome" where
  "IPv4Header_serialize h =
     (if ih_ver h \<noteq> 4 then Inl (Runtime_error ''wrong IP version'')
      else if 4 * unat (ih_hlen h) < IPv4Header_LENGTH then Inl (Runtime_error ''IP header too short'')
      else
        let ret = [];
            first_byte = push_bit 4 (ih_ver h) OR (ih_hlen h AND 0xf);
            ret = NetUnparser_u8 ret first_byte;
            ret = NetUnparser_u8 ret (ih_tos h);
            ret = NetUnparser_u16 ret (ih_len h);
            ret = NetUnparser_u16 ret (ih_id h);
            fo_val = (if ih_df h then 0x4000 else 0) OR (if ih_mf h then 0x2000 else 0) OR
                     (ih_offset h AND 0x1fff);
            ret = NetUnparser_u16 ret fo_val;
            ret = NetUnparser_u8 ret (ih_ttl h);
            ret = NetUnparser_u8 ret (ih_proto h);
            ret = NetUnparser_u16 ret (ih_cksum h);
            ret = NetUnparser_u32 ret (ih_src h);
            ret = NetUnparser_u32 ret (ih_dst h)
        in Inr (string_resize ret (4 * unat (ih_hlen h))))"

definition IPv4Header_payload_length :: "ipv4_header \<Rightarrow> u16" where
  "IPv4Header_payload_length h = ih_len h - 4 * ucast (ih_hlen h)"

definition IPv4Header_pseudo_cksum :: "ipv4_header \<Rightarrow> u32" where
  "IPv4Header_pseudo_cksum h =
     (let pcksum = drop_bit 16 (ih_src h) + (ih_src h AND 0xffff);
          pcksum = pcksum + (drop_bit 16 (ih_dst h) + (ih_dst h AND 0xffff));
          pcksum = pcksum + ucast (ih_proto h);
          pcksum = pcksum + ucast (IPv4Header_payload_length h)
      in pcksum)"

section \<open>IPv4Datagram\<close>

record ipv4_datagram =
  id_header :: ipv4_header
  id_payload :: buffer_list

definition IPv4Datagram_default :: ipv4_datagram where
  "IPv4Datagram_default = \<lparr>id_header = IPv4Header_default, id_payload = []\<rparr>"

definition IPv4Datagram_parse ::
  "ipv4_datagram \<Rightarrow> buffer \<Rightarrow> (ipv4_datagram \<times> ParseResult) outcome" where
  "IPv4Datagram_parse this buffer =
     obind (IPv4Header_parse (id_header this) (NetParser_new buffer)) (\<lambda>(h, p, _).
       let dgram = \<lparr>id_header = h, id_payload = BufferList_of_Buffer (np_buffer p)\<rparr>
       in if BufferList_size (id_payload dgram) \<noteq> unat (IPv4Header_payload_length h)
          then Inr (dgram, PacketTooShort)
          else Inr (dgram, NetParser_get_error p))"

definition IPv4Datagram_serialize :: "ipv4_datagram \<Rightarrow> buffer_list outcome" where
  "IPv4Datagram_serialize dgram =
     (if BufferList_size (id_payload dgram) \<noteq> unat (IPv4Header_payload_length (id_header dgram))
      then Inl (Runtime_error ''IPv4Datagram::serialize: payload is wrong size'')
      else
        let header_out = (id_header dgram)\<lparr>ih_cksum := 0\<rparr>
        in obind (IPv4Header_serialize header_out) (\<lambda>header_zero_checksum.
             let check = InternetChecksum_add (InternetChecksum_new 0) header_zero_checksum;
                 header_out = header_out\<lparr>ih_cksum := InternetChecksum_value check\<rparr>
             in obind (IPv4Header_serialize header_out) (\<lambda>hdr.
                  let ret = [];
                      ret = BufferList_append ret (BufferList_of_string hdr);
                      ret = BufferList_append ret (id_payload dgram)
                  in Inr ret)))"

section \<open>The layout of a header\<close>

definition ip_first_byte :: "ipv4_header \<Rightarrow> u8" where
  "ip_first_byte h = push_bit 4 (ih_ver h) OR (ih_hlen h AND 0xf)"

definition ip_fragment :: "ipv4_header \<Rightarrow> u16" where
  "ip_fragment h = (if ih_df h then 0x4000 else 0) OR (if ih_mf h then 0x2000 else 0) OR
     (ih_offset h AND 0x1fff)"

definition ip_legal :: "ipv4_header \<Rightarrow> bool" where
  "ip_legal h \<longleftrightarrow> ih_ver h = 4 \<and> 5 \<le> ih_hlen h \<and> ih_hlen h < 16 \<and> ih_offset h < 0x2000"

definition ip_front :: "ipv4_header \<Rightarrow> bytes" where
  "ip_front h =
     be_bytes (ip_first_byte h) @ be_bytes (ih_tos h) @ be_bytes (ih_len h) @ be_bytes (ih_id h) @
     be_bytes (ip_fragment h) @ be_bytes (ih_ttl h) @ be_bytes (ih_proto h)"

definition ip_back :: "ipv4_header \<Rightarrow> bytes" where
  "ip_back h = be_bytes (ih_src h) @ be_bytes (ih_dst h) @ replicate (4 * unat (ih_hlen h) - 20) 0"

lemma low_bits:
  "(w :: u8) < 16 \<Longrightarrow> w AND 0xf = w"
  "(v :: u16) < 0x2000 \<Longrightarrow> v AND 0x1fff = v"
proof -
  have m: "(0xf :: u8) = mask 4" "(0x1fff :: u16) = mask 13" by (simp_all add: mask_eq_exp_minus_1)
  show "w < 16 \<Longrightarrow> w AND 0xf = w"
    unfolding m take_bit_eq_mask [symmetric]
    by (simp only: word_unat_eq_iff unsigned_take_bit_eq)
      (simp add: take_bit_nat_eq_self word_less_nat_alt)
  show "v < 0x2000 \<Longrightarrow> v AND 0x1fff = v"
    unfolding m take_bit_eq_mask [symmetric]
    by (simp only: word_unat_eq_iff unsigned_take_bit_eq)
      (simp add: take_bit_nat_eq_self word_less_nat_alt)
qed

lemma ip_first_byte_fields:
  assumes "ip_legal h"
  shows "drop_bit 4 (ip_first_byte h) = 4" "ip_first_byte h AND 0x0f = ih_hlen h"
proof -
  have h: "ih_hlen h AND 0xf = ih_hlen h" using assms by (simp add: ip_legal_def low_bits)
  have "unat (ih_hlen h) < 16" using assms by (simp add: ip_legal_def word_less_nat_alt)
  then have "drop_bit 4 (ih_hlen h) = 0"
    by (simp only: word_unat_eq_iff unat_drop_bit_eq) (simp add: drop_bit_eq_div)
  with h assms show "drop_bit 4 (ip_first_byte h) = 4"
    by (simp add: ip_first_byte_def ip_legal_def)
  show "ip_first_byte h AND 0x0f = ih_hlen h"
    using h assms by (simp add: ip_first_byte_def ip_legal_def bit.conj_disj_distrib2)
qed

lemma ip_fragment_fields:
  assumes "ip_legal h"
  shows "ip_fragment h AND 0x4000 \<noteq> 0 \<longleftrightarrow> ih_df h" "ip_fragment h AND 0x2000 \<noteq> 0 \<longleftrightarrow> ih_mf h"
    "ip_fragment h AND 0x1fff = ih_offset h"
proof -
  have o: "ih_offset h AND 0x1fff = ih_offset h" using assms by (simp add: ip_legal_def low_bits)
  show "ip_fragment h AND 0x4000 \<noteq> 0 \<longleftrightarrow> ih_df h" "ip_fragment h AND 0x2000 \<noteq> 0 \<longleftrightarrow> ih_mf h"
    by (simp_all add: ip_fragment_def bit.conj_disj_distrib2 and.assoc)
  show "ip_fragment h AND 0x1fff = ih_offset h"
    using o by (simp add: ip_fragment_def bit.conj_disj_distrib2 and.assoc)
qed

lemma length_ip [simp]:
  "length (ip_front h) = 10"
  "ip_legal h \<Longrightarrow> length (ip_back h) = 4 * unat (ih_hlen h) - 12"
  by (simp_all add: ip_front_def ip_back_def ip_legal_def word_le_nat_alt)

lemma ip_cksum_update [simp]:
  "ip_front (h\<lparr>ih_cksum := c\<rparr>) = ip_front h" "ip_back (h\<lparr>ih_cksum := c\<rparr>) = ip_back h"
  "ip_legal (h\<lparr>ih_cksum := c\<rparr>) = ip_legal h"
  by (simp_all add: ip_front_def ip_back_def ip_legal_def ip_first_byte_def ip_fragment_def)

lemma IPv4Header_serialize_layout:
  assumes "ip_legal h"
  shows "IPv4Header_serialize h = Inr (ip_front h @ be_bytes (ih_cksum h) @ ip_back h)"
proof -
  have d: "5 \<le> unat (ih_hlen h)" "ih_ver h = 4"
    using assms by (simp_all add: ip_legal_def word_le_nat_alt)
  have f: "push_bit 4 (ih_ver h) OR (ih_hlen h AND 0xf) = ip_first_byte h"
    "(if ih_df h then 0x4000 else 0) OR (if ih_mf h then 0x2000 else 0) OR
      (ih_offset h AND 0x1fff) = ip_fragment h"
    by (simp_all only: ip_first_byte_def ip_fragment_def)
  show ?thesis
    unfolding IPv4Header_serialize_def Let_def f
    using d by (simp add: IPv4Header_LENGTH_def net_put string_resize_def ip_front_def ip_back_def)
qed

definition ip_cksum :: "ipv4_header \<Rightarrow> u16" where
  "ip_cksum h = InternetChecksum_value (InternetChecksum_add (InternetChecksum_new 0)
     (ip_front h @ be_bytes (0 :: u16) @ ip_back h))"

lemma ip_header_verifies:
  assumes "ip_legal h"
  shows "InternetChecksum_value (InternetChecksum_add (InternetChecksum_new 0)
    (ip_front h @ be_bytes (ip_cksum h) @ ip_back h)) = 0"
proof -
  have "unat (ih_hlen h) < 16" using assms by (simp add: ip_legal_def word_less_nat_alt)
  with assms show ?thesis
    by (intro checksum_field_verifies) (simp_all add: ip_cksum_def)
qed

lemma IPv4Header_parse_layout:
  assumes legal: "ip_legal h" and cksum: "ih_cksum h = ip_cksum h"
    and len: "unat (ih_len h) = 4 * unat (ih_hlen h) + length rest"
    and at: "np_at p (ip_front h @ be_bytes (ih_cksum h) @ ip_back h @ rest)"
  shows "\<exists>p'. IPv4Header_parse this p = Inr (h, p', NoError) \<and> np_at p' rest"
proof -
  note a0 = at [unfolded ip_front_def ip_back_def append_assoc]
  note a1 = u8.get_at [OF a0]
  note a2 = u8.get_at [OF a1(2)]
  note a3 = u16.get_at [OF a2(2)]
  note a4 = u16.get_at [OF a3(2)]
  note a5 = u16.get_at [OF a4(2)]
  note a6 = u8.get_at [OF a5(2)]
  note a7 = u8.get_at [OF a6(2)]
  note a8 = u16.get_at [OF a7(2)]
  note a9 = u32.get_at [OF a8(2)]
  note a10 = u32.get_at [OF a9(2)]
  have opt: "length (replicate (4 * unat (ih_hlen h) - 20) (0 :: u8)) = unat (ih_hlen h) * 4 - 20"
    by simp
  note a11 = remove_prefix_at [OF a10(2) opt]
  have d: "5 \<le> unat (ih_hlen h)" "\<not> ih_hlen h < 5" "ih_ver h = 4"
    using legal by (simp_all add: ip_legal_def word_le_nat_alt word_less_nat_alt)
  have size: "length (Buffer_str (np_buffer p)) = 4 * unat (ih_hlen h) + length rest"
    using at legal d(1) by (simp add: np_at_def np_str_def)
  have hdr: "take (4 * unat (ih_hlen h)) (Buffer_str (np_buffer p))
      = ip_front h @ be_bytes (ip_cksum h) @ ip_back h"
    using at legal d(1) cksum by (simp add: np_at_def np_str_def)
  have noerr: "np_at p' s \<Longrightarrow> \<not> NetParser_error p'" for p' s
    by (simp add: np_at_def NetParser_error_def NetParser_get_error_def)
  show ?thesis
    unfolding IPv4Header_parse_def Let_def Buffer_size_def size a1(1) a2(1) a3(1) a4(1) a5(1) a6(1)
      a7(1) a8(1) a9(1) a10(1) obind_simps prod.case ip_first_byte_fields [OF legal]
      ip_fragment_fields [OF legal]
    using d len a11(2)
    by (simp add: IPv4Header_LENGTH_def a11(1) noerr [OF a11(2)] hdr ip_header_verifies [OF legal])
qed

section \<open>What a parsed header guarantees\<close>

lemma IPv4Header_parse_cases:
  assumes "np_error p = NoError" "20 \<le> length (np_str p)"
  obtains h p' r where "IPv4Header_parse this p = Inr (h, p', r)"
    "p' = np_advance (if r = NoError \<or> r = BadChecksum then 4 * unat (ih_hlen h) else 20) p"
    "r = (if length (np_str p) < 4 * unat (ih_hlen h) then PacketTooShort
          else if ih_ver h \<noteq> 4 then WrongIPVersion
          else if ih_hlen h < 5 then HeaderTooShort
          else if length (np_str p) \<noteq> unat (ih_len h) then TruncatedPacket
          else if InternetChecksum_value (InternetChecksum_add (InternetChecksum_new 0)
                 (take (4 * unat (ih_hlen h)) (np_str p))) \<noteq> 0 then BadChecksum
          else NoError)"
proof -
  have ok: "np_ok p" using assms(1) by (simp add: np_ok_def)
  obtain v1 p1 where s1: "NetParser_u8 p = Inr (v1, p1)" and r1: "np_reads (Suc 0) p p1"
    by (rule u8.get_reads [OF ok])
  obtain v2 p2 where s2: "NetParser_u8 p1 = Inr (v2, p2)" and r2: "np_reads (Suc 0 + Suc 0) p p2"
    by (rule u8.get_step [OF ok r1])
  obtain v3 p3 where s3: "NetParser_u16 p2 = Inr (v3, p3)" and r3: "np_reads (Suc 0 + Suc 0 + 2) p p3"
    by (rule u16.get_step [OF ok r2])
  obtain v4 p4 where s4: "NetParser_u16 p3 = Inr (v4, p4)" and r4: "np_reads (Suc 0 + Suc 0 + 2 + 2) p p4"
    by (rule u16.get_step [OF ok r3])
  obtain v5 p5 where s5: "NetParser_u16 p4 = Inr (v5, p5)" and r5: "np_reads (Suc 0 + Suc 0 + 2 + 2 + 2) p p5"
    by (rule u16.get_step [OF ok r4])
  obtain v6 p6 where s6: "NetParser_u8 p5 = Inr (v6, p6)" and r6: "np_reads (Suc 0 + Suc 0 + 2 + 2 + 2 + Suc 0) p p6"
    by (rule u8.get_step [OF ok r5])
  obtain v7 p7 where s7: "NetParser_u8 p6 = Inr (v7, p7)" and r7: "np_reads (Suc 0 + Suc 0 + 2 + 2 + 2 + Suc 0 + Suc 0) p p7"
    by (rule u8.get_step [OF ok r6])
  obtain v8 p8 where s8: "NetParser_u16 p7 = Inr (v8, p8)" and r8: "np_reads (Suc 0 + Suc 0 + 2 + 2 + 2 + Suc 0 + Suc 0 + 2) p p8"
    by (rule u16.get_step [OF ok r7])
  obtain v9 p9 where s9: "NetParser_u32 p8 = Inr (v9, p9)" and r9: "np_reads (Suc 0 + Suc 0 + 2 + 2 + 2 + Suc 0 + Suc 0 + 2 + 4) p p9"
    by (rule u32.get_step [OF ok r8])
  obtain v10 p10 where s10: "NetParser_u32 p9 = Inr (v10, p10)" and
    "np_reads (Suc 0 + Suc 0 + 2 + 2 + 2 + Suc 0 + Suc 0 + 2 + 4 + 4) p p10"
    by (rule u32.get_step [OF ok r9])
  then have p10: "p10 = np_advance 20 p" using assms by (simp add: np_reads_def)
  define h where "h = \<lparr>ih_ver = drop_bit 4 v1, ih_hlen = v1 AND 0x0f, ih_tos = v2, ih_len = v3,
    ih_id = v4, ih_df = (v5 AND 0x4000 \<noteq> 0), ih_mf = (v5 AND 0x2000 \<noteq> 0),
    ih_offset = v5 AND 0x1fff, ih_ttl = v6, ih_proto = v7, ih_cksum = v8, ih_src = v9, ih_dst = v10\<rparr>"
  have rem: "NetParser_remove_prefix p10 (unat (ih_hlen h) * 4 - 20) = Inr (np_advance (4 * unat (ih_hlen h)) p)"
    if "\<not> length (np_str p) < 4 * unat (ih_hlen h)" "\<not> ih_hlen h < 5"
    using that assms
    by (simp add: p10 parser_simps np_advance_advance word_less_nat_alt mult.commute)
  show thesis
    by (rule that [of h])
      (unfold IPv4Header_parse_def Let_def s1 s2 s3 s4 s5 s6 s7 s8 s9 s10 obind_simps prod.case
        h_def [symmetric] Buffer_size_def np_str_def [symmetric],
       use assms rem in \<open>auto simp: IPv4Header_LENGTH_def NetParser_error_def NetParser_get_error_def
         parser_simps p10\<close>)
qed

section \<open>Datagrams on the wire\<close>

definition ip_dgram_legal :: "ipv4_datagram \<Rightarrow> bool" where
  "ip_dgram_legal d \<longleftrightarrow> ip_legal (id_header d) \<and>
     unat (ih_len (id_header d)) = 4 * unat (ih_hlen (id_header d)) + BufferList_size (id_payload d)"

definition ip_wire :: "ipv4_datagram \<Rightarrow> bytes" where
  "ip_wire d = ip_front (id_header d) @ be_bytes (ip_cksum (id_header d)) @ ip_back (id_header d) @
     BufferList_concatenate (id_payload d)"

lemma payload_length_exact:
  assumes "4 * unat (ih_hlen h) \<le> unat (ih_len h)"
  shows "unat (IPv4Header_payload_length h) = unat (ih_len h) - 4 * unat (ih_hlen h)"
proof -
  have "unat (ih_hlen h) < 256" using unsigned_less [of "ih_hlen h", where 'a = nat] by simp
  then have "unat (4 * ucast (ih_hlen h) :: u16) = 4 * unat (ih_hlen h)"
    by (simp only: unat_word_ariths unat_ucast_up) (simp add: unat_ucast_up)
  with assms show ?thesis
    by (simp add: IPv4Header_payload_length_def unat_minus_exact)
qed

lemma ip_dgram_payload_length:
  "ip_dgram_legal d \<Longrightarrow>
     BufferList_size (id_payload d) = unat (IPv4Header_payload_length (id_header d))"
  by (simp add: ip_dgram_legal_def payload_length_exact)

lemma IPv4Datagram_serialize_wire:
  assumes "ip_dgram_legal d"
  shows "\<exists>bl. IPv4Datagram_serialize d = Inr bl \<and> BufferList_concatenate bl = ip_wire d"
  using assms ip_dgram_payload_length [OF assms]
  by (simp add: IPv4Datagram_serialize_def Let_def IPv4Header_serialize_layout ip_dgram_legal_def
      BufferList_append_simp BufferList_concatenate_simp BufferList_of_string_def
      BufferList_of_Buffer_def Buffer_str_new ip_wire_def ip_cksum_def)

lemma IPv4Datagram_parse_wire:
  assumes legal: "ip_dgram_legal d" and str: "Buffer_str b = ip_wire d"
  shows "\<exists>d'. IPv4Datagram_parse this b = Inr (d', NoError) \<and>
    id_header d' = (id_header d)\<lparr>ih_cksum := ip_cksum (id_header d)\<rparr> \<and>
    BufferList_concatenate (id_payload d') = BufferList_concatenate (id_payload d)"
proof -
  let ?h = "(id_header d)\<lparr>ih_cksum := ip_cksum (id_header d)\<rparr>"
  have "ip_cksum ?h = ip_cksum (id_header d)" by (simp add: ip_cksum_def)
  moreover have "np_at (NetParser_new b) (ip_front ?h @ be_bytes (ih_cksum ?h) @ ip_back ?h @
      BufferList_concatenate (id_payload d))"
    by (simp add: np_at_def parser_simps str ip_wire_def)
  ultimately obtain p' where "IPv4Header_parse (id_header this) (NetParser_new b) = Inr (?h, p', NoError)"
    "np_at p' (BufferList_concatenate (id_payload d))"
    using IPv4Header_parse_layout [of ?h "BufferList_concatenate (id_payload d)"] legal
    by (auto simp: ip_dgram_legal_def BufferList_size_simp)
  moreover have "IPv4Header_payload_length ?h = IPv4Header_payload_length (id_header d)"
    by (simp add: IPv4Header_payload_length_def)
  ultimately show ?thesis
    using ip_dgram_payload_length [OF legal]
    by (simp add: IPv4Datagram_parse_def Let_def np_at_def np_str_def NetParser_get_error_def
        BufferList_of_Buffer_def BufferList_size_simp BufferList_concatenate_simp)
qed

section \<open>Properties\<close>

text \<open>
  C15: a legal datagram (version 4, header length 5 to 15 words, a 13-bit fragment offset and a
  length field that matches the payload) serializes; parsing the bytes gives no error, the same
  payload and every header field back, with the checksum filled in.
\<close>

theorem IPv4Datagram_roundtrip:
  assumes "ip_dgram_legal d"
  shows "\<exists>bl d'. IPv4Datagram_serialize d = Inr bl \<and>
    IPv4Datagram_parse this (Buffer_new (BufferList_concatenate bl)) = Inr (d', NoError) \<and>
    id_header d' = (id_header d)\<lparr>ih_cksum := ih_cksum (id_header d')\<rparr> \<and>
    BufferList_concatenate (id_payload d') = BufferList_concatenate (id_payload d)"
proof -
  obtain bl where bl: "IPv4Datagram_serialize d = Inr bl" "BufferList_concatenate bl = ip_wire d"
    using IPv4Datagram_serialize_wire [OF assms] by blast
  have "Buffer_str (Buffer_new (BufferList_concatenate bl)) = ip_wire d"
    by (simp add: Buffer_str_new bl(2))
  from IPv4Datagram_parse_wire [OF assms this, of this] bl(1) show ?thesis by auto
qed

theorem IPv4Datagram_roundtrip_witness:
  "\<exists>bl d'. IPv4Datagram_serialize
      \<lparr>id_header = IPv4Header_default\<lparr>ih_len := 22\<rparr>, id_payload = [Buffer_new [1, 2]]\<rparr> = Inr bl \<and>
    IPv4Datagram_parse IPv4Datagram_default (Buffer_new (BufferList_concatenate bl))
      = Inr (d', NoError) \<and>
    id_header d' = IPv4Header_default\<lparr>ih_len := 22, ih_cksum := ih_cksum (id_header d')\<rparr> \<and>
    BufferList_concatenate (id_payload d') = [1, 2]"
  using IPv4Datagram_roundtrip [of "\<lparr>id_header = IPv4Header_default\<lparr>ih_len := 22\<rparr>,
      id_payload = [Buffer_new [1, 2]]\<rparr>" IPv4Datagram_default]
  by (simp add: ip_dgram_legal_def ip_legal_def IPv4Header_default_def IPv4Header_LENGTH_def
      DEFAULT_TTL_def PROTO_TCP_def buffer_simps)




end
