(* ===== verification/Tcp_Receiver.thy ===== *)
theory Tcp_Receiver
  imports Tcp_Segment Stream_Reassembler
begin

text \<open>
  The receiving half of a connection, \<^verbatim>\<open>libsponge/tcp_receiver.{hh,cc}\<close>: the reassembler, the
  peer's initial sequence number once a SYN arrived, and the absolute sequence number after the
  FIN once one fell inside the window (zero before that).
\<close>

section \<open>State and operations\<close>

record tcp_receiver =
  tr_reassembler :: stream_reassembler
  tr_isn :: "WrappingInt32 option"
  tr_fin_abs_seq :: u64

definition TCPReceiver_new :: "u64 \<Rightarrow> tcp_receiver" where
  "TCPReceiver_new capacity =
     \<lparr>tr_reassembler = StreamReassembler_new capacity, tr_isn = None, tr_fin_abs_seq = 0\<rparr>"

definition TCPReceiver_stream_out :: "tcp_receiver \<Rightarrow> byte_stream" where
  "TCPReceiver_stream_out r = StreamReassembler_stream_out (tr_reassembler r)"

definition TCPReceiver_unassembled_bytes :: "tcp_receiver \<Rightarrow> u64" where
  "TCPReceiver_unassembled_bytes r = StreamReassembler_unassembled_bytes (tr_reassembler r)"

definition TCPReceiver_abs_ackno :: "tcp_receiver \<Rightarrow> u64" where
  "TCPReceiver_abs_ackno r =
     (let abs_ackno_without_fin = 1 + ByteStream_bytes_written (TCPReceiver_stream_out r)
      in if abs_ackno_without_fin + 1 = tr_fin_abs_seq r then tr_fin_abs_seq r
         else abs_ackno_without_fin)"

definition TCPReceiver_ackno :: "tcp_receiver \<Rightarrow> WrappingInt32 option" where
  "TCPReceiver_ackno r =
     (case tr_isn r of None \<Rightarrow> None | Some isn \<Rightarrow> Some (wrap (TCPReceiver_abs_ackno r) isn))"

definition TCPReceiver_window_size :: "tcp_receiver \<Rightarrow> u64" where
  "TCPReceiver_window_size r = ByteStream_remaining_capacity (TCPReceiver_stream_out r)"

definition TCPReceiver_segment_received ::
  "tcp_receiver \<Rightarrow> tcp_segment \<Rightarrow> (tcp_receiver \<times> bool) outcome" where
  "TCPReceiver_segment_received r seg =
     (let old_abs_ackno = (if tr_isn r \<noteq> None then TCPReceiver_abs_ackno r else 0);
          r = (if th_syn (ts_header seg) \<and> tr_isn r = None
               then r\<lparr>tr_isn := Some (th_seqno (ts_header seg))\<rparr> else r)
      in case tr_isn r of
           None \<Rightarrow> Inr (r, False)
         | Some isn \<Rightarrow>
             let checkpoint = ByteStream_bytes_written (TCPReceiver_stream_out r);
                 abs_seq = unwrap (th_seqno (ts_header seg)) isn checkpoint;
                 old_window_size = TCPReceiver_window_size r;
                 len = TCPSegment_length_in_sequence_space seg
             in if tr_fin_abs_seq r \<noteq> 0 \<and> abs_seq \<ge> tr_fin_abs_seq r \<and> len = 0
                then Inr (r, True)
                else if \<not> (abs_seq < old_abs_ackno + old_window_size \<and> abs_seq + len > old_abs_ackno)
                then Inr (r, len = 0 \<and> abs_seq = old_abs_ackno)
                else
                  let all_fill = (abs_seq + len \<le> old_abs_ackno + old_window_size);
                      r = (if all_fill \<and> th_fin (ts_header seg)
                           then r\<lparr>tr_fin_abs_seq := abs_seq + len\<rparr> else r);
                      stream_indices = (if abs_seq > 0 then abs_seq - 1 else 0);
                      payload = Buffer_copy (ts_payload seg)
                  in obind (push_substring (tr_reassembler r) payload stream_indices
                              (stream_indices + size_u64 payload + 2 = tr_fin_abs_seq r))
                       (\<lambda>re. Inr (r\<lparr>tr_reassembler := re\<rparr>, True)))"

section \<open>Segments of a peer\<close>

text \<open>
  The peer sends the stream \<open>S\<close> with initial sequence number \<open>isn\<close>: the SYN has absolute number 0,
  byte \<open>i\<close> of \<open>S\<close> has number \<open>i + 1\<close> and the FIN \<open>length S + 1\<close>.  A segment with absolute number
  \<open>a\<close> is one the peer may send when it carries the SYN exactly at 0, its payload is the piece of
  \<open>S\<close> at that place, and it carries a FIN only where \<open>S\<close> ends.
\<close>

definition seg_index :: "u64 \<Rightarrow> u64" where
  "seg_index a = (if a > 0 then a - 1 else 0)"

definition segment_of :: "bytes \<Rightarrow> WrappingInt32 \<Rightarrow> u64 \<Rightarrow> tcp_segment \<Rightarrow> bool" where
  "segment_of S isn a seg \<longleftrightarrow>
     th_seqno (ts_header seg) = wrap a isn \<and> (th_syn (ts_header seg) \<longleftrightarrow> a = 0) \<and>
     unat a \<le> length S + 2 \<and>
     piece_of S (Buffer_copy (ts_payload seg)) (seg_index a) (th_fin (ts_header seg))"

text \<open>The number lies within half the sequence space of what the receiver has written.\<close>

definition seqno_near :: "u64 \<Rightarrow> u64 \<Rightarrow> bool" where
  "seqno_near a written \<longleftrightarrow> unat written \<le> unat a + 2 ^ 31 \<and> unat a < unat written + 2 ^ 31"

section \<open>The invariant relative to the peer\<close>

definition tr_agrees :: "bytes \<Rightarrow> WrappingInt32 \<Rightarrow> tcp_receiver \<Rightarrow> bool" where
  "tr_agrees S isn r \<longleftrightarrow> sr_agrees S (tr_reassembler r) \<and> length S + 2 ^ 33 \<le> 2 ^ 64 \<and>
     (case tr_isn r of
        None \<Rightarrow> sr_pos (tr_reassembler r) = 0 \<and> tr_fin_abs_seq r = 0 \<and>
          sr_eof_index (tr_reassembler r) = -1
      | Some i \<Rightarrow> i = isn \<and>
          (tr_fin_abs_seq r = 0 \<and> sr_eof_index (tr_reassembler r) = -1 \<or>
           unat (tr_fin_abs_seq r) = length S + 2 \<and>
             sr_eof_index (tr_reassembler r) = size_u64 S))"

lemma tr_new_agrees:
  assumes "c \<noteq> 0" "length S + unat c < 2 ^ 64" "length S + 2 ^ 33 \<le> 2 ^ 64"
  shows "tr_agrees S isn (TCPReceiver_new c)"
  using assms sr_new_agrees [OF assms(1,2)]
  by (simp add: tr_agrees_def TCPReceiver_new_def StreamReassembler_new_def sr_pos_def)

lemma written_pos:
  assumes "sr_agrees S (tr_reassembler r)"
  shows "unat (ByteStream_bytes_written (TCPReceiver_stream_out r)) = sr_pos (tr_reassembler r)"
  using assms
  by (simp add: sr_agrees_def sr_wf_def TCPReceiver_stream_out_def StreamReassembler_stream_out_def
      ByteStream_bytes_written_def sr_pos_def)

lemma unwrap_segment:
  assumes "tr_agrees S isn r" "segment_of S isn a seg"
    and "seqno_near a (ByteStream_bytes_written (TCPReceiver_stream_out r))"
  shows "unwrap (th_seqno (ts_header seg)) isn
    (ByteStream_bytes_written (TCPReceiver_stream_out r)) = a"
proof -
  have agr: "sr_agrees S (tr_reassembler r)" and len: "length S + 2 ^ 33 \<le> 2 ^ 64"
    using assms(1) by (simp_all add: tr_agrees_def)
  have "sr_pos (tr_reassembler r) \<le> length S" using agr by (simp add: sr_agrees_def)
  then have "unat (ByteStream_bytes_written (TCPReceiver_stream_out r)) + 2 ^ 32 \<le> 2 ^ 64"
    using len by (simp add: written_pos [OF agr])
  then show ?thesis
    using assms(2,3) by (simp add: segment_of_def seqno_near_def seqno.dec_enc_nat)
qed

lemma unat_seg_index: "unat (seg_index a) = unat a - 1"
proof (cases "a > 0")
  case True
  then have "unat (1 :: u64) \<le> unat a" by (simp add: word_less_nat_alt)
  then have "unat (a - 1) = unat a - unat (1 :: u64)" by (rule unat_minus_exact)
  with True show ?thesis by (simp add: seg_index_def)
qed (simp add: seg_index_def word_less_nat_alt)

text \<open>Where a segment lies: the numbers that the code computes, without wrap-around.\<close>

lemma segment_place:
  assumes "length S + 2 ^ 33 \<le> 2 ^ 64" "segment_of S isn a seg"
  defines "i \<equiv> unat (seg_index a)" and "n \<equiv> length (Buffer_copy (ts_payload seg))"
  shows "unat a + of_bool (a = 0) = i + 1"
    and "unat (TCPSegment_length_in_sequence_space seg)
      = n + of_bool (a = 0) + of_bool (th_fin (ts_header seg))"
    and "unat (a + TCPSegment_length_in_sequence_space seg) = i + n + 1 + of_bool (th_fin (ts_header seg))"
    and "unat (seg_index a + size_u64 (Buffer_copy (ts_payload seg)) + 2) = i + n + 2"
    and "i + n \<le> length S + 1"
    and "th_fin (ts_header seg) \<Longrightarrow> i + n = length S"
proof -
  let ?d = "Buffer_copy (ts_payload seg)"
  have a: "unat a \<le> length S + 2" and syn: "th_syn (ts_header seg) \<longleftrightarrow> a = 0"
    and piece: "piece_of S ?d (seg_index a) (th_fin (ts_header seg))"
    using assms(2) by (simp_all add: segment_of_def)
  have ix: "i = unat a - 1" by (simp add: i_def unat_seg_index)
  then show ai: "unat a + of_bool (a = 0) = i + 1"
    by (cases "a = 0") (auto simp: unat_gt_0 Suc_le_eq)
  show le: "i + n \<le> length S + 1"
    using piece_of_le [OF piece] a ix by (cases "?d = []") (auto simp: i_def n_def)
  show "th_fin (ts_header seg) \<Longrightarrow> i + n = length S"
    using piece by (simp add: piece_of_def i_def n_def)
  have u: "unat (size_u64 ?d) = n" using le assms(1) unfolding n_def by (intro unat_size_u64) simp
  show len: "unat (TCPSegment_length_in_sequence_space seg)
      = n + of_bool (a = 0) + of_bool (th_fin (ts_header seg))"
    using syn u le assms(1)
    by (auto simp: TCPSegment_length_in_sequence_space_def Buffer_copy_def unat_plus_exact)
  show "unat (a + TCPSegment_length_in_sequence_space seg) = i + n + 1 + of_bool (th_fin (ts_header seg))"
    using le assms(1) ai by (subst unat_plus_exact) (simp_all add: len)
  show "unat (seg_index a + size_u64 ?d + 2) = i + n + 2"
    using le assms(1) u by (simp add: unat_plus_exact i_def)
qed

section \<open>Receiving keeps the invariant\<close>

lemma wrap_0 [simp]: "wrap 0 isn = isn"
  by (simp add: wrap_def WrappingInt32_plus_def)

lemma syn_agrees:
  assumes "tr_agrees S isn r" "segment_of S isn a seg" "tr_isn r = None" "th_syn (ts_header seg)"
  shows "tr_agrees S isn (r\<lparr>tr_isn := Some (th_seqno (ts_header seg))\<rparr>)"
  using assms by (auto simp: tr_agrees_def segment_of_def)

text \<open>The receiver after the FIN of an accepted segment was noted.\<close>

definition note_fin :: "tcp_receiver \<Rightarrow> bool \<Rightarrow> u64 \<Rightarrow> tcp_receiver" where
  "note_fin r b e = (if b then r\<lparr>tr_fin_abs_seq := e\<rparr> else r)"

lemma segment_push:
  assumes agr: "tr_agrees S isn r" and seg: "segment_of S isn a seg" and isn: "tr_isn r = Some isn"
    and b: "b \<Longrightarrow> th_fin (ts_header seg)"
    and r2: "r2 = note_fin r b (a + TCPSegment_length_in_sequence_space seg)"
  obtains t where "push_substring (tr_reassembler r2) (Buffer_copy (ts_payload seg)) (seg_index a)
      (seg_index a + size_u64 (Buffer_copy (ts_payload seg)) + 2 = tr_fin_abs_seq r2) = Inr t"
    "tr_agrees S isn (r2\<lparr>tr_reassembler := t\<rparr>)"
    "sr_capacity t = sr_capacity (tr_reassembler r)"
    "sr_pos t = sr_pos (tr_reassembler r) + min (bs_room (sr_output (tr_reassembler r)))
       (length (pushed_ready (tr_reassembler r) (Buffer_copy (ts_payload seg)) (seg_index a)))"
    "bs_nread (sr_output t) = bs_nread (sr_output (tr_reassembler r))"
proof -
  let ?d = "Buffer_copy (ts_payload seg)"
  let ?e = "seg_index a + size_u64 ?d + 2 = tr_fin_abs_seq r2"
  have len: "length S + 2 ^ 33 \<le> 2 ^ 64" and sr: "sr_agrees S (tr_reassembler r)"
    using agr by (simp_all add: tr_agrees_def)
  note place = segment_place [OF len seg]
  have re: "tr_reassembler r2 = tr_reassembler r" "tr_isn r2 = Some isn"
    by (simp_all add: r2 note_fin_def isn)
  have fin: "tr_fin_abs_seq r2 = 0 \<and> sr_eof_index (tr_reassembler r) = -1 \<and> \<not> ?e \<or>
      unat (tr_fin_abs_seq r2) = length S + 2 \<and> (?e \<or> sr_eof_index (tr_reassembler r) = size_u64 S)"
  proof (cases b)
    case True
    then have "tr_fin_abs_seq r2 = a + TCPSegment_length_in_sequence_space seg"
      by (simp add: r2 note_fin_def)
    moreover have "unat (a + TCPSegment_length_in_sequence_space seg) = length S + 2"
      using place(3,6) b [OF True] by simp
    moreover have "unat (seg_index a + size_u64 ?d + 2) = length S + 2"
      using place(4,6) b [OF True] by simp
    ultimately show ?thesis by (simp add: word_unat_eq_iff)
  next
    case False
    then have "tr_fin_abs_seq r2 = tr_fin_abs_seq r" by (simp add: r2 note_fin_def)
    moreover have "seg_index a + size_u64 ?d + 2 \<noteq> 0" using place(4) by (auto simp: word_unat_eq_iff)
    ultimately show ?thesis using agr isn by (auto simp: tr_agrees_def)
  qed
  have "?e \<Longrightarrow> unat (seg_index a) + length ?d = length S" using fin place(4) by auto
  then have piece: "piece_of S ?d (seg_index a) ?e" using seg by (auto simp: segment_of_def piece_of_def)
  obtain t where t:
    "push_substring (tr_reassembler r) ?d (seg_index a) ?e = Inr t" "sr_agrees S t"
    "sr_capacity t = sr_capacity (tr_reassembler r)"
    "sr_pos t = sr_pos (tr_reassembler r) + min (bs_room (sr_output (tr_reassembler r)))
       (length (pushed_ready (tr_reassembler r) ?d (seg_index a)))"
    "bs_nread (sr_output t) = bs_nread (sr_output (tr_reassembler r))"
    "sr_eof_index t = (if ?e then size_u64 S else sr_eof_index (tr_reassembler r))"
    by (rule push_agrees [OF sr piece], rule that) assumption+
  have "tr_agrees S isn (r2\<lparr>tr_reassembler := t\<rparr>)"
    using t(2,6) fin len by (auto simp: tr_agrees_def re)
  with t show thesis by (intro that [of t]) (simp_all add: re)
qed

text \<open>What a segment of the peer does, branch by branch.\<close>

definition with_syn :: "tcp_receiver \<Rightarrow> tcp_segment \<Rightarrow> tcp_receiver" where
  "with_syn r seg = (if th_syn (ts_header seg) \<and> tr_isn r = None
     then r\<lparr>tr_isn := Some (th_seqno (ts_header seg))\<rparr> else r)"

definition old_ackno :: "tcp_receiver \<Rightarrow> u64" where
  "old_ackno r = (if tr_isn r \<noteq> None then TCPReceiver_abs_ackno r else 0)"

lemma with_syn_simps [simp]:
  "tr_reassembler (with_syn r seg) = tr_reassembler r"
  "TCPReceiver_stream_out (with_syn r seg) = TCPReceiver_stream_out r"
  "TCPReceiver_window_size (with_syn r seg) = TCPReceiver_window_size r"
  by (simp_all add: with_syn_def TCPReceiver_stream_out_def TCPReceiver_window_size_def)

lemma segment_received_result:
  assumes "tr_agrees S isn (with_syn r seg)" "segment_of S isn a seg"
    and near: "seqno_near a (ByteStream_bytes_written (TCPReceiver_stream_out r))"
    and isn: "tr_isn (with_syn r seg) = Some isn"
  defines "len \<equiv> TCPSegment_length_in_sequence_space seg" and "d \<equiv> Buffer_copy (ts_payload seg)"
    and "r2 \<equiv> note_fin (with_syn r seg) (a + TCPSegment_length_in_sequence_space seg
      \<le> old_ackno r + TCPReceiver_window_size r \<and> th_fin (ts_header seg))
      (a + TCPSegment_length_in_sequence_space seg)"
  shows "TCPReceiver_segment_received r seg =
    (if tr_fin_abs_seq (with_syn r seg) \<noteq> 0 \<and> tr_fin_abs_seq (with_syn r seg) \<le> a \<and> len = 0
     then Inr (with_syn r seg, True)
     else if \<not> (a < old_ackno r + TCPReceiver_window_size r \<and> old_ackno r < a + len)
     then Inr (with_syn r seg, len = 0 \<and> a = old_ackno r)
     else obind (push_substring (tr_reassembler r2) d (seg_index a)
         (seg_index a + size_u64 d + 2 = tr_fin_abs_seq r2))
       (\<lambda>re. Inr (r2\<lparr>tr_reassembler := re\<rparr>, True)))"
proof -
  have abs: "unwrap (th_seqno (ts_header seg)) isn (ByteStream_bytes_written (TCPReceiver_stream_out r)) = a"
    using unwrap_segment [OF assms(1,2)] near by simp
  show ?thesis
    unfolding TCPReceiver_segment_received_def Let_def with_syn_def [symmetric] old_ackno_def [symmetric]
      isn option.case with_syn_simps abs seg_index_def [symmetric] note_fin_def [symmetric]
      len_def d_def r2_def ..
qed

lemma segment_received_cases:
  assumes "tr_agrees S isn r" "segment_of S isn a seg"
    and near: "seqno_near a (ByteStream_bytes_written (TCPReceiver_stream_out r))"
  defines "len \<equiv> TCPSegment_length_in_sequence_space seg"
  obtains
    (no_syn) "tr_isn r = None" "a \<noteq> 0" "TCPReceiver_segment_received r seg = Inr (r, False)"
  | (outside) b where "TCPReceiver_segment_received r seg = Inr (with_syn r seg, b)"
      "tr_agrees S isn (with_syn r seg)"
      "len = 0 \<or> \<not> (a < old_ackno r + TCPReceiver_window_size r \<and> old_ackno r < a + len)"
  | (inside) r2 t where "TCPReceiver_segment_received r seg = Inr (r2\<lparr>tr_reassembler := t\<rparr>, True)"
      "r2 = note_fin (with_syn r seg)
         (a + len \<le> old_ackno r + TCPReceiver_window_size r \<and> th_fin (ts_header seg)) (a + len)"
      "tr_agrees S isn (r2\<lparr>tr_reassembler := t\<rparr>)"
      "sr_capacity t = sr_capacity (tr_reassembler r)"
      "sr_pos t = sr_pos (tr_reassembler r) + min (bs_room (sr_output (tr_reassembler r)))
         (length (pushed_ready (tr_reassembler r) (Buffer_copy (ts_payload seg)) (seg_index a)))"
      "bs_nread (sr_output t) = bs_nread (sr_output (tr_reassembler r))"
proof -
  let ?r1 = "with_syn r seg"
  have agr1: "tr_agrees S isn ?r1" using assms(1,2) by (simp add: with_syn_def syn_agrees)
  show thesis
  proof (cases "tr_isn ?r1")
    case None
    then have "tr_isn r = None" "\<not> th_syn (ts_header seg)" by (auto simp: with_syn_def split: if_splits)
    with no_syn assms(2) show thesis
      by (simp add: TCPReceiver_segment_received_def segment_of_def)
  next
    case (Some i)
    then have i: "tr_isn ?r1 = Some isn" using agr1 by (simp add: tr_agrees_def)
    let ?in = "a < old_ackno r + TCPReceiver_window_size r \<and> old_ackno r < a + len"
    let ?early = "tr_fin_abs_seq ?r1 \<noteq> 0 \<and> tr_fin_abs_seq ?r1 \<le> a \<and> len = 0"
    let ?ends = "a + len \<le> old_ackno r + TCPReceiver_window_size r \<and> th_fin (ts_header seg)"
    note res = segment_received_result [OF agr1 assms(2) near i, folded len_def]
    show thesis
    proof (cases "?early \<or> \<not> ?in")
      case True
      then have "TCPReceiver_segment_received r seg = Inr (?r1, ?early \<or> len = 0 \<and> a = old_ackno r)"
        unfolding res by (cases ?early) auto
      from this agr1 show thesis by (rule outside) (use True in blast)
    next
      case False
      then have go: "\<not> ?early" "\<not> \<not> ?in" by blast+
      let ?r2 = "note_fin ?r1 ?ends (a + len)" and ?d = "Buffer_copy (ts_payload seg)"
      obtain t where t: "push_substring (tr_reassembler ?r2) ?d (seg_index a)
          (seg_index a + size_u64 ?d + 2 = tr_fin_abs_seq ?r2) = Inr t"
        "tr_agrees S isn (?r2\<lparr>tr_reassembler := t\<rparr>)"
        "sr_capacity t = sr_capacity (tr_reassembler r)"
        "sr_pos t = sr_pos (tr_reassembler r) + min (bs_room (sr_output (tr_reassembler r)))
           (length (pushed_ready (tr_reassembler r) ?d (seg_index a)))"
        "bs_nread (sr_output t) = bs_nread (sr_output (tr_reassembler r))"
        using segment_push [OF agr1 assms(2) i _ refl, folded len_def, of ?ends]
        by (simp only: with_syn_simps) blast
      show thesis
        by (rule inside [OF _ refl t(2-5)])
          (simp only: res if_not_P [OF go(1)] if_not_P [OF go(2)] t(1) obind_simps)
    qed
  qed
qed

section \<open>Reachable receivers\<close>

text \<open>
  Everything that can happen to a receiver of the peer's stream: any segment the peer may send
  arrives, in any order and any number of times, and the reader takes bytes from the output.
  The last argument collects what was read.
\<close>

definition TCPReceiver_read :: "tcp_receiver \<Rightarrow> u64 \<Rightarrow> tcp_receiver \<times> bytes" where
  "TCPReceiver_read r n =
     (let (re, d) = reassembler_read (tr_reassembler r) n in (r\<lparr>tr_reassembler := re\<rparr>, d))"

inductive receiver_reach :: "bytes \<Rightarrow> WrappingInt32 \<Rightarrow> u64 \<Rightarrow> tcp_receiver \<Rightarrow> bytes \<Rightarrow> bool"
  for S isn c where
  start: "receiver_reach S isn c (TCPReceiver_new c) []"
| recv: "receiver_reach S isn c r out \<Longrightarrow> segment_of S isn a seg \<Longrightarrow>
    seqno_near a (ByteStream_bytes_written (TCPReceiver_stream_out r)) \<Longrightarrow>
    TCPReceiver_segment_received r seg = Inr (r', b) \<Longrightarrow> receiver_reach S isn c r' out"
| take: "receiver_reach S isn c r out \<Longrightarrow> TCPReceiver_read r n = (r', d) \<Longrightarrow>
    receiver_reach S isn c r' (out @ d)"

inductive_cases receiver_reachE: "receiver_reach S isn c r out"

definition tr_nread :: "tcp_receiver \<Rightarrow> nat" where
  "tr_nread r = unat (ByteStream_bytes_read (TCPReceiver_stream_out r))"

lemmas tr_stream_defs = TCPReceiver_stream_out_def StreamReassembler_stream_out_def
  ByteStream_bytes_read_def ByteStream_bytes_written_def ByteStream_input_ended_def

lemma segment_received_agrees:
  assumes "tr_agrees S isn r" "segment_of S isn a seg"
    and "seqno_near a (ByteStream_bytes_written (TCPReceiver_stream_out r))"
  shows "\<exists>r' b. TCPReceiver_segment_received r seg = Inr (r', b) \<and> tr_agrees S isn r' \<and>
    tr_nread r' = tr_nread r \<and> sr_capacity (tr_reassembler r') = sr_capacity (tr_reassembler r)"
  using assms
proof (cases rule: segment_received_cases)
  case no_syn
  with assms(1) show ?thesis by auto
next
  case outside
  then show ?thesis by (simp add: tr_nread_def)
next
  case inside
  then show ?thesis by (auto simp: tr_nread_def tr_stream_defs)
qed

lemma TCPReceiver_read_agrees:
  assumes "tr_agrees S isn r" "TCPReceiver_read r n = (r', d)"
  shows "tr_agrees S isn r' \<and> take (tr_nread r) S @ d = take (tr_nread r') S \<and>
    sr_capacity (tr_reassembler r') = sr_capacity (tr_reassembler r)"
proof -
  obtain re where re: "reassembler_read (tr_reassembler r) n = (re, d)"
    "r' = r\<lparr>tr_reassembler := re\<rparr>"
    using assms(2) by (auto simp: TCPReceiver_read_def split: prod.splits)
  have "sr_agrees S (tr_reassembler r)" using assms(1) by (simp add: tr_agrees_def)
  note rd = read_agrees [OF this re(1)]
  have "sr_pos re = sr_pos (tr_reassembler r)"
    using re(1) by (auto simp: reassembler_read_def sr_pos_def split: prod.splits)
  with rd assms(1) show ?thesis
    by (auto simp: re(2) tr_agrees_def tr_nread_def tr_stream_defs split: option.splits)
qed

lemma receiver_reach_agrees:
  assumes "receiver_reach S isn c r out" "c \<noteq> 0" "length S + unat c + 2 ^ 33 \<le> 2 ^ 64"
  shows "tr_agrees S isn r \<and> out = take (tr_nread r) S \<and> sr_capacity (tr_reassembler r) = c"
  using assms(1)
proof induction
  case start
  have "tr_agrees S isn (TCPReceiver_new c)" using assms(2,3) by (intro tr_new_agrees) simp_all
  then show ?case
    by (simp add: tr_nread_def tr_stream_defs TCPReceiver_new_def StreamReassembler_new_def
        ByteStream_new_def)
next
  case (recv r out a seg r' b)
  with segment_received_agrees [of S isn r a seg] show ?case by auto
next
  case (take r out n r' d)
  with TCPReceiver_read_agrees [of S isn r n r' d] show ?case by auto
qed

lemma tr_agrees_ended:
  assumes "tr_agrees S isn r"
  shows "ByteStream_input_ended (TCPReceiver_stream_out r) \<longleftrightarrow>
    tr_fin_abs_seq r \<noteq> 0 \<and> sr_pos (tr_reassembler r) = length S"
proof -
  have agr: "sr_agrees S (tr_reassembler r)" and S: "length S + 2 ^ 33 \<le> 2 ^ 64"
    using assms by (simp_all add: tr_agrees_def)
  have "sr_eof_index (tr_reassembler r) = size_u64 S \<longleftrightarrow> tr_fin_abs_seq r \<noteq> 0"
  proof -
    have "size_u64 S \<noteq> -1"
      using size_u64_eq_iff [of S "-1"] S
      by (simp add: unsigned_minus_1_eq_mask mask_eq_exp_minus_1)
    then show ?thesis using assms by (auto simp: tr_agrees_def split: option.splits)
  qed
  with agrees_ended [OF agr] written_pos [OF agr] show ?thesis
    by (simp add: tr_stream_defs)
qed

lemma abs_ackno_value:
  assumes "tr_agrees S isn r" "tr_isn r \<noteq> None"
  shows "unat (TCPReceiver_abs_ackno r) = 1 + sr_pos (tr_reassembler r) +
    of_bool (ByteStream_input_ended (TCPReceiver_stream_out r))"
proof -
  let ?w = "ByteStream_bytes_written (TCPReceiver_stream_out r)"
  have agr: "sr_agrees S (tr_reassembler r)" and S: "length S + 2 ^ 33 \<le> 2 ^ 64"
    and fin: "tr_fin_abs_seq r = 0 \<or> unat (tr_fin_abs_seq r) = length S + 2"
    using assms by (auto simp: tr_agrees_def)
  note w = written_pos [OF agr]
  have le: "sr_pos (tr_reassembler r) \<le> length S" using agr by (simp add: sr_agrees_def)
  have u: "unat (1 + ?w) = 1 + sr_pos (tr_reassembler r)"
    "unat (1 + ?w + 1) = 2 + sr_pos (tr_reassembler r)"
    using S le w by (simp_all add: unat_plus_exact)
  have "1 + ?w + 1 = tr_fin_abs_seq r \<longleftrightarrow> ByteStream_input_ended (TCPReceiver_stream_out r)"
    using fin u(2) by (auto simp: tr_agrees_ended [OF assms(1)] word_unat_eq_iff)
  then show ?thesis
    using u fin by (auto simp: TCPReceiver_abs_ackno_def Let_def tr_agrees_ended [OF assms(1)])
qed

section \<open>Taking a segment whole\<close>

text \<open>A segment that fills the front of the window, in the coordinates of the stream.\<close>

lemma segment_fits:
  assumes agr: "tr_agrees S isn r" and seg: "segment_of S isn a seg"
    and syn: "tr_isn r = None \<longrightarrow> a = 0" and ack: "ack = unat (old_ackno r)"
    and e: "e = unat (a + TCPSegment_length_in_sequence_space seg)"
    and fit: "unat a \<le> ack" "ack < e" "e \<le> ack + unat (TCPReceiver_window_size r)"
  shows "unat (seg_index a) \<le> sr_pos (tr_reassembler r)"
    and "unat (seg_index a) + length (Buffer_copy (ts_payload seg)) + of_bool (th_fin (ts_header seg))
      \<le> sr_pos (tr_reassembler r) + bs_room (sr_output (tr_reassembler r))"
proof -
  let ?i = "unat (seg_index a)" and ?n = "length (Buffer_copy (ts_payload seg))"
  let ?f = "of_bool (th_fin (ts_header seg)) :: nat"
  have S: "length S + 2 ^ 33 \<le> 2 ^ 64" using agr by (simp add: tr_agrees_def)
  note place = segment_place [OF S seg]
  have room: "unat (TCPReceiver_window_size r) = bs_room (sr_output (tr_reassembler r))"
    by (simp add: TCPReceiver_window_size_def bs_room_def TCPReceiver_stream_out_def
        StreamReassembler_stream_out_def)
  have "?i \<le> sr_pos (tr_reassembler r) \<and>
      ?i + ?n + ?f \<le> sr_pos (tr_reassembler r) + bs_room (sr_output (tr_reassembler r))"
  proof (cases "tr_isn r = None")
    case True
    then have "ack = 0" "a = 0" using ack syn by (simp_all add: old_ackno_def)
    then show ?thesis using fit(3) place(3) e room by (simp add: unat_seg_index)
  next
    case False
    let ?ended = "ByteStream_input_ended (TCPReceiver_stream_out r)"
    have ack': "ack = 1 + sr_pos (tr_reassembler r) + of_bool ?ended"
      using abs_ackno_value [OF agr False] False ack by (simp add: old_ackno_def)
    have "\<not> ?ended"
    proof
      assume ?ended
      then have "ack = length S + 2" using ack' tr_agrees_ended [OF agr] by simp
      moreover have "e \<le> length S + 2"
        using place(3,5,6) e by (cases "th_fin (ts_header seg)") simp_all
      ultimately show False using fit(2) by simp
    qed
    then show ?thesis using ack' fit place(3) e room by (simp add: unat_seg_index)
  qed
  then show "?i \<le> sr_pos (tr_reassembler r)"
    "?i + ?n + ?f \<le> sr_pos (tr_reassembler r) + bs_room (sr_output (tr_reassembler r))"
    by simp_all
qed

lemma segment_pos:
  assumes agr: "tr_agrees S isn r" and seg: "segment_of S isn a seg"
    and le: "unat (seg_index a) \<le> sr_pos (tr_reassembler r)"
    and fit: "unat (seg_index a) + length (Buffer_copy (ts_payload seg))
      \<le> sr_pos (tr_reassembler r) + bs_room (sr_output (tr_reassembler r))"
  shows "unat (seg_index a) + length (Buffer_copy (ts_payload seg)) \<le>
    sr_pos (tr_reassembler r) + min (bs_room (sr_output (tr_reassembler r)))
      (length (pushed_ready (tr_reassembler r) (Buffer_copy (ts_payload seg)) (seg_index a)))"
proof -
  have "sr_wf (tr_reassembler r)" using agr by (simp add: tr_agrees_def sr_agrees_def)
  then have "bs_room (sr_output (tr_reassembler r)) \<le> sr_cap (tr_reassembler r)"
    by (simp add: sr_wf_def bs_room_wf sr_cap_def)
  then have "unat (seg_index a) + length (Buffer_copy (ts_payload seg))
      \<le> sr_pos (tr_reassembler r) + sr_cap (tr_reassembler r)" using fit by simp
  from pushed_prefix_ready [OF le this] fit show ?thesis by (simp add: min_def)
qed

lemma window_end:
  assumes agr: "tr_agrees S isn r"
    and bound: "length S + unat (sr_capacity (tr_reassembler r)) + 2 ^ 33 \<le> 2 ^ 64"
  shows "unat (old_ackno r + TCPReceiver_window_size r)
    = unat (old_ackno r) + unat (TCPReceiver_window_size r)"
proof -
  have wf: "sr_wf (tr_reassembler r)" and le: "sr_pos (tr_reassembler r) \<le> length S"
    using agr by (simp_all add: tr_agrees_def sr_agrees_def)
  have "unat (TCPReceiver_window_size r) \<le> unat (sr_capacity (tr_reassembler r))"
    using wf bs_room_wf [of "sr_output (tr_reassembler r)"]
    by (simp add: TCPReceiver_window_size_def bs_room_def TCPReceiver_stream_out_def
        StreamReassembler_stream_out_def sr_wf_def)
  moreover have "unat (old_ackno r) \<le> length S + 2"
    using abs_ackno_value [OF agr] le by (auto simp: old_ackno_def)
  ultimately show ?thesis using bound by (intro unat_plus_exact) simp
qed

text \<open>What was read, what is buffered, and when the reader sees the end.\<close>

lemma tr_agrees_delivers:
  assumes agr: "tr_agrees S isn r"
  shows "take (tr_nread r) S @ bs_buffer (TCPReceiver_stream_out r)
      = take (unat (ByteStream_bytes_written (TCPReceiver_stream_out r))) S"
    and "ByteStream_eof (TCPReceiver_stream_out r) \<Longrightarrow> take (tr_nread r) S = S"
proof -
  have sr: "sr_agrees S (tr_reassembler r)" using agr by (simp add: tr_agrees_def)
  show pre: "take (tr_nread r) S @ bs_buffer (TCPReceiver_stream_out r)
      = take (unat (ByteStream_bytes_written (TCPReceiver_stream_out r))) S"
    using agrees_buffered [OF sr] by (simp add: tr_nread_def tr_stream_defs)
  assume eof: "ByteStream_eof (TCPReceiver_stream_out r)"
  have "bs_wf (TCPReceiver_stream_out r)" using sr by (simp add: sr_agrees_def sr_wf_def tr_stream_defs)
  then have "bs_buffer (TCPReceiver_stream_out r) = []"
    using eof by (simp add: ByteStream_eof_def ByteStream_buffer_empty_def bs_wf_empty_iff)
  moreover have "sr_pos (tr_reassembler r) = length S"
    using eof tr_agrees_ended [OF agr] by (simp add: ByteStream_eof_def)
  ultimately show "take (tr_nread r) S = S" using pre written_pos [OF sr] by simp
qed

section \<open>Properties\<close>

text \<open>
  C6: a receiver that gets segments of a peer's stream \<open>S\<close>, in any order, repeated, lost or outside
  the window, and whose reader takes bytes at any moments, never fails; the bytes read followed by
  the bytes buffered are the prefix of \<open>S\<close> of the length that was written, and the reader sees
  end-of-file only after reading all of \<open>S\<close>.
\<close>

theorem TCPReceiver_safe:
  assumes "receiver_reach S isn c r out" and "c \<noteq> 0" and "length S + unat c + 2 ^ 33 \<le> 2 ^ 64"
  shows "out @ bs_buffer (TCPReceiver_stream_out r)
      = take (unat (ByteStream_bytes_written (TCPReceiver_stream_out r))) S \<and>
    (ByteStream_eof (TCPReceiver_stream_out r) \<longrightarrow> out = S) \<and>
    (\<forall>a seg. segment_of S isn a seg \<and>
       seqno_near a (ByteStream_bytes_written (TCPReceiver_stream_out r)) \<longrightarrow>
       (\<exists>r' b. TCPReceiver_segment_received r seg = Inr (r', b)))"
proof -
  have agr: "tr_agrees S isn r" and out: "out = take (tr_nread r) S"
    using receiver_reach_agrees [OF assms] by blast+
  with tr_agrees_delivers [OF agr] segment_received_agrees [OF agr] show ?thesis by blast
qed

theorem TCPReceiver_safe_witness:
  "\<exists>r out. receiver_reach [7] (WrappingInt32 5) 4 r out \<and> out = [] \<and>
    out @ bs_buffer (TCPReceiver_stream_out r)
      = take (unat (ByteStream_bytes_written (TCPReceiver_stream_out r))) [7]"
  using TCPReceiver_safe [OF receiver_reach.start [of "[7]" "WrappingInt32 5" 4]]
  by (intro exI [of _ "TCPReceiver_new 4"] exI [of _ "[]"]) (simp add: receiver_reach.start)



text \<open>
  A segment whose payload is assembled, and whose FIN, if it has one, is recorded, is acknowledged to its
  end.
\<close>

lemma segment_taken_ackno:
  assumes agr: "tr_agrees S isn r" and isn: "tr_isn r = Some isn" and seg: "segment_of S isn a seg"
    and ge: "unat (seg_index a) + length (Buffer_copy (ts_payload seg)) \<le> sr_pos (tr_reassembler r)"
    and fin: "th_fin (ts_header seg) \<Longrightarrow>
      tr_fin_abs_seq r = a + TCPSegment_length_in_sequence_space seg"
  shows "unat (a + TCPSegment_length_in_sequence_space seg) \<le> unat (TCPReceiver_abs_ackno r)"
proof -
  have "length S + 2 ^ 33 \<le> 2 ^ 64" using agr by (simp add: tr_agrees_def)
  note place = segment_place [OF this seg]
  show ?thesis
  proof (cases "th_fin (ts_header seg)")
    case False
    then show ?thesis using abs_ackno_value [OF agr] isn ge place(3) by simp
  next
    case True
    have "sr_pos (tr_reassembler r) \<le> length S" using agr by (simp add: tr_agrees_def sr_agrees_def)
    then have "ByteStream_input_ended (TCPReceiver_stream_out r)"
      using tr_agrees_ended [OF agr] ge place(3,6) True fin [OF True] by (auto simp: word_unat_eq_iff)
    then show ?thesis using abs_ackno_value [OF agr] isn ge place(3) True by simp
  qed
qed

text \<open>
  C21: a segment that starts at or before the acknowledgment number, carries something new and ends
  inside the window is taken whole: afterwards the acknowledgment number is at least its end.
\<close>

theorem TCPReceiver_progress:
  assumes "receiver_reach S isn c r out" and "c \<noteq> 0" and "length S + unat c + 2 ^ 33 \<le> 2 ^ 64"
    and "segment_of S isn a seg"
    and "seqno_near a (ByteStream_bytes_written (TCPReceiver_stream_out r))"
    and "tr_isn r = None \<longrightarrow> a = 0"
    and "ack = (if tr_isn r = None then 0 else unat (TCPReceiver_abs_ackno r))"
    and "e = unat (a + TCPSegment_length_in_sequence_space seg)"
    and "unat a \<le> ack" and "ack < e" and "e \<le> ack + unat (TCPReceiver_window_size r)"
  shows "\<exists>r'. TCPReceiver_segment_received r seg = Inr (r', True) \<and> tr_isn r' = Some isn \<and>
    e \<le> unat (TCPReceiver_abs_ackno r')"
proof -
  let ?len = "TCPSegment_length_in_sequence_space seg"
  have agr: "tr_agrees S isn r" and cap: "sr_capacity (tr_reassembler r) = c"
    using receiver_reach_agrees [OF assms(1-3)] by blast+
  have ack: "ack = unat (old_ackno r)" using assms(7) by (simp add: old_ackno_def)
  note fits = segment_fits [OF agr assms(4,6) ack assms(8,9,10,11)]
  have win: "unat (old_ackno r + TCPReceiver_window_size r) = ack + unat (TCPReceiver_window_size r)"
    unfolding ack by (rule window_end [OF agr]) (use assms(3) cap in simp)
  show ?thesis
    using agr assms(4,5)
  proof (cases rule: segment_received_cases)
    case no_syn
    with assms(6) show ?thesis by simp
  next
    case (outside b)
    have "?len \<noteq> 0" using assms(8,9,10) by auto
    moreover have "a < old_ackno r + TCPReceiver_window_size r"
      using win assms(9-11) by (simp add: word_less_nat_alt)
    moreover have "old_ackno r < a + ?len" using ack assms(8,10) by (simp add: word_less_nat_alt)
    ultimately show ?thesis using outside(3) by simp
  next
    case (inside r2 t)
    let ?r' = "r2\<lparr>tr_reassembler := t\<rparr>"
    have isn: "tr_isn ?r' = Some isn"
      using inside(2,3) assms(4,6)
      by (auto simp: note_fin_def with_syn_def segment_of_def tr_agrees_def split: option.splits)
    have "tr_fin_abs_seq ?r' = a + ?len" if "th_fin (ts_header seg)"
      using that inside(2) win assms(8,11) by (simp add: note_fin_def word_le_nat_alt)
    then have "e \<le> unat (TCPReceiver_abs_ackno ?r')"
      using segment_taken_ackno [OF inside(3) isn assms(4)] segment_pos [OF agr assms(4) fits(1)] fits(2)
        inside(5) assms(8) by simp
    with inside(1) isn show ?thesis by blast
  qed
qed

theorem TCPReceiver_progress_witness:
  "\<exists>r'. TCPReceiver_segment_received (TCPReceiver_new 4)
      \<lparr>ts_header = TCPHeader_default\<lparr>th_syn := True, th_fin := True, th_seqno := WrappingInt32 5\<rparr>,
       ts_payload = Buffer_new [7]\<rparr> = Inr (r', True) \<and>
    tr_isn r' = Some (WrappingInt32 5) \<and> 3 \<le> unat (TCPReceiver_abs_ackno r')"
  using TCPReceiver_progress [OF receiver_reach.start [of "[7]" "WrappingInt32 5" 4], of 0
      "\<lparr>ts_header = TCPHeader_default\<lparr>th_syn := True, th_fin := True, th_seqno := WrappingInt32 5\<rparr>,
       ts_payload = Buffer_new [7]\<rparr>" 0 3]
  by (simp add: segment_of_def piece_of_def seg_index_def seqno_near_def TCPReceiver_new_def
      StreamReassembler_new_def ByteStream_new_def tr_stream_defs Buffer_copy_def buffer_simps
      TCPSegment_length_in_sequence_space_def size_u64_def TCPReceiver_window_size_def
      ByteStream_remaining_capacity_def)

end
