(* ===== verification/Tcp_Sender.thy ===== *)
theory Tcp_Sender
  imports Tcp_Receiver
begin

text \<open>
  The sending half of a connection, \<^verbatim>\<open>libsponge/tcp_sender.{hh,cc}\<close> with the constants of
  \<^verbatim>\<open>tcp_helpers/tcp_config.hh\<close>: the outgoing stream, the queue of segments to transmit, the queue
  of outstanding segments, the window bookkeeping and the retransmission timer.
\<close>

section \<open>Configuration\<close>

definition DEFAULT_CAPACITY :: u64 where
  "DEFAULT_CAPACITY = 64000"

definition MAX_PAYLOAD_SIZE :: u64 where
  "MAX_PAYLOAD_SIZE = 1000"

definition TIMEOUT_DFLT :: u16 where
  "TIMEOUT_DFLT = 1000"

definition MAX_RETX_ATTEMPTS :: u32 where
  "MAX_RETX_ATTEMPTS = 8"

record tcp_config =
  tc_rt_timeout :: u16
  tc_recv_capacity :: u64
  tc_send_capacity :: u64
  tc_fixed_isn :: "WrappingInt32 option"

definition TCPConfig_default :: tcp_config where
  "TCPConfig_default =
     \<lparr>tc_rt_timeout = TIMEOUT_DFLT, tc_recv_capacity = DEFAULT_CAPACITY,
      tc_send_capacity = DEFAULT_CAPACITY, tc_fixed_isn = None\<rparr>"

section \<open>State and operations\<close>

record tcp_sender =
  sd_isn :: WrappingInt32
  sd_segments_out :: "tcp_segment list"
  sd_initial_retransmission_timeout :: u32
  sd_stream :: byte_stream
  sd_next_seqno :: u64
  sd_syn_sent :: bool
  sd_fin_sent :: bool
  sd_bytes_in_flight :: u64
  sd_receiver_window_size :: u16
  sd_receiver_free_space :: u16
  sd_consecutive_retransmissions :: u16
  sd_rto :: u32
  sd_time_elapsed :: u32
  sd_timer_running :: bool
  sd_segments_outstanding :: "tcp_segment list"

text \<open>The random initial sequence number, used when none is fixed, is an argument.\<close>

definition TCPSender_new ::
  "u64 \<Rightarrow> u16 \<Rightarrow> WrappingInt32 option \<Rightarrow> WrappingInt32 \<Rightarrow> tcp_sender" where
  "TCPSender_new capacity retx_timeout fixed_isn random_isn =
     \<lparr>sd_isn = (case fixed_isn of Some i \<Rightarrow> i | None \<Rightarrow> random_isn), sd_segments_out = [],
      sd_initial_retransmission_timeout = ucast retx_timeout, sd_stream = ByteStream_new capacity,
      sd_next_seqno = 0, sd_syn_sent = False, sd_fin_sent = False, sd_bytes_in_flight = 0,
      sd_receiver_window_size = 0, sd_receiver_free_space = 0, sd_consecutive_retransmissions = 0,
      sd_rto = ucast retx_timeout, sd_time_elapsed = 0, sd_timer_running = False,
      sd_segments_outstanding = []\<rparr>"

definition TCPSender_bytes_in_flight :: "tcp_sender \<Rightarrow> u64" where
  "TCPSender_bytes_in_flight s = sd_bytes_in_flight s"

definition TCPSender_consecutive_retransmissions :: "tcp_sender \<Rightarrow> u32" where
  "TCPSender_consecutive_retransmissions s = ucast (sd_consecutive_retransmissions s)"

definition TCPSender_next_seqno_absolute :: "tcp_sender \<Rightarrow> u64" where
  "TCPSender_next_seqno_absolute s = sd_next_seqno s"

definition TCPSender_next_seqno :: "tcp_sender \<Rightarrow> WrappingInt32" where
  "TCPSender_next_seqno s = wrap (sd_next_seqno s) (sd_isn s)"

definition send_segment :: "tcp_sender \<Rightarrow> tcp_segment \<Rightarrow> tcp_sender" where
  "send_segment s seg =
     (let seg = seg\<lparr>ts_header := (ts_header seg)\<lparr>th_seqno := wrap (sd_next_seqno s) (sd_isn s)\<rparr>\<rparr>;
          len = TCPSegment_length_in_sequence_space seg;
          s = s\<lparr>sd_next_seqno := sd_next_seqno s + len\<rparr>;
          s = s\<lparr>sd_bytes_in_flight := sd_bytes_in_flight s + len\<rparr>;
          s = (if sd_syn_sent s
               then s\<lparr>sd_receiver_free_space := sd_receiver_free_space s - ucast len\<rparr> else s);
          s = s\<lparr>sd_segments_out := sd_segments_out s @ [seg]\<rparr>;
          s = s\<lparr>sd_segments_outstanding := sd_segments_outstanding s @ [seg]\<rparr>
      in if \<not> sd_timer_running s then s\<lparr>sd_timer_running := True, sd_time_elapsed := 0\<rparr> else s)"

text \<open>The segments that the operations below build before sending them.\<close>

definition segment_with :: "bool \<Rightarrow> bool \<Rightarrow> buffer \<Rightarrow> tcp_segment" where
  "segment_with syn fin payload =
     TCPSegment_default\<lparr>ts_header := TCPHeader_default\<lparr>th_syn := syn, th_fin := fin\<rparr>,
       ts_payload := payload\<rparr>"

text \<open>One turn of the loop of \<^verbatim>\<open>fill_window\<close>.\<close>

definition fill_step :: "tcp_sender \<Rightarrow> tcp_sender" where
  "fill_step s =
     (let payload_size = min (ByteStream_buffer_size (sd_stream s))
            (min (ucast (sd_receiver_free_space s)) MAX_PAYLOAD_SIZE);
          (stream', payload) = ByteStream_read (sd_stream s) payload_size;
          s = s\<lparr>sd_stream := stream'\<rparr>;
          fin = (ByteStream_eof (sd_stream s) \<and> ucast (sd_receiver_free_space s) > payload_size);
          s = (if fin then s\<lparr>sd_fin_sent := True\<rparr> else s)
      in send_segment s (segment_with False fin (Buffer_new payload)))"

lemma send_segment_stream [simp]: "sd_stream (send_segment s seg) = sd_stream s"
  by (simp add: send_segment_def Let_def)

lemma fill_step_stream:
  "sd_stream (fill_step s) = ByteStream_pop_output (sd_stream s)
     (min (ByteStream_buffer_size (sd_stream s))
       (min (ucast (sd_receiver_free_space s)) MAX_PAYLOAD_SIZE))"
  by (simp add: fill_step_def Let_def stream_simps case_prod_beta)

lemma fill_step_shrinks:
  assumes "sd_receiver_free_space s \<noteq> 0" "\<not> ByteStream_buffer_empty (sd_stream (fill_step s))"
  shows "bs_size (sd_stream (fill_step s)) < bs_size (sd_stream s)"
proof -
  let ?b = "bs_size (sd_stream s)"
  define k where "k = min ?b (min (ucast (sd_receiver_free_space s)) MAX_PAYLOAD_SIZE)"
  have eq: "bs_size (sd_stream (fill_step s)) = ?b - min ?b k"
    by (simp add: fill_step_stream stream_simps ByteStream_buffer_size_def k_def)
  have "?b \<noteq> 0" using assms(2) by (auto simp: ByteStream_buffer_empty_def eq)
  moreover have "unat (ucast (sd_receiver_free_space s) :: u64) \<noteq> 0"
    using assms(1) by (simp add: unat_ucast_up unat_eq_zero)
  ultimately have "0 < unat k"
    by (simp add: k_def MAX_PAYLOAD_SIZE_def unat_gt_0)
  moreover have "unat k \<le> unat ?b" by (simp add: k_def)
  moreover have "unat (?b - k) = unat ?b - unat k" using calculation by (intro unat_minus_exact)
  moreover have "min ?b k = k" by (simp add: k_def)
  ultimately show ?thesis by (simp add: eq word_less_nat_alt)
qed

text \<open>The loop: as long as the receiver has free space; it stops when the stream is drained.\<close>

function fill_loop :: "tcp_sender \<Rightarrow> tcp_sender" where
  "fill_loop s =
     (if sd_receiver_free_space s \<noteq> 0 then
        let s' = fill_step s
        in if ByteStream_buffer_empty (sd_stream s') then s' else fill_loop s'
      else s)"
  by pat_completeness auto
termination
  by (relation "measure (\<lambda>s. unat (bs_size (sd_stream s)))")
    (auto simp: fill_step_shrinks word_less_nat_alt [symmetric])

declare fill_loop.simps [simp del]

definition TCPSender_fill_window :: "tcp_sender \<Rightarrow> tcp_sender" where
  "TCPSender_fill_window s =
     (if \<not> sd_syn_sent s then send_segment (s\<lparr>sd_syn_sent := True\<rparr>) (segment_with True False Buffer_default)
      else if sd_segments_outstanding s \<noteq> [] \<and> th_syn (ts_header (hd (sd_segments_outstanding s)))
      then s
      else if ByteStream_buffer_size (sd_stream s) = 0 \<and> \<not> ByteStream_eof (sd_stream s) then s
      else if sd_fin_sent s then s
      else if sd_receiver_window_size s \<noteq> 0 then fill_loop s
      else if sd_receiver_free_space s = 0 then
        if ByteStream_eof (sd_stream s)
        then send_segment (s\<lparr>sd_fin_sent := True\<rparr>) (segment_with False True Buffer_default)
        else if \<not> ByteStream_buffer_empty (sd_stream s)
        then let (stream', payload) = ByteStream_read (sd_stream s) 1
             in send_segment (s\<lparr>sd_stream := stream'\<rparr>) (segment_with False False (Buffer_new payload))
        else s
      else s)"

text \<open>
  The validity test reads the front of the queue of outstanding segments even when it is empty;
  \<open>stale\<close> is the sequence number that such a read happens to give.
\<close>

definition ack_valid :: "WrappingInt32 \<Rightarrow> tcp_sender \<Rightarrow> u64 \<Rightarrow> bool" where
  "ack_valid stale s abs_ackno \<longleftrightarrow>
     abs_ackno \<le> sd_next_seqno s \<and>
     abs_ackno \<ge> unwrap (case sd_segments_outstanding s of [] \<Rightarrow> stale
                         | seg # _ \<Rightarrow> th_seqno (ts_header seg)) (sd_isn s) (sd_next_seqno s)"

function pop_acked :: "u64 \<Rightarrow> tcp_sender \<Rightarrow> tcp_sender" where
  "pop_acked abs_ackno s =
     (case sd_segments_outstanding s of
        [] \<Rightarrow> s
      | seg # rest \<Rightarrow>
          if unwrap (th_seqno (ts_header seg)) (sd_isn s) (sd_next_seqno s)
               + TCPSegment_length_in_sequence_space seg \<le> abs_ackno
          then pop_acked abs_ackno
                 (s\<lparr>sd_bytes_in_flight :=
                      sd_bytes_in_flight s - TCPSegment_length_in_sequence_space seg,
                    sd_segments_outstanding := rest,
                    sd_time_elapsed := 0,
                    sd_rto := sd_initial_retransmission_timeout s,
                    sd_consecutive_retransmissions := 0\<rparr>)
          else s)"
  by pat_completeness auto
termination
  by (relation "measure (\<lambda>(_, s). length (sd_segments_outstanding s))") auto

declare pop_acked.simps [simp del]

definition TCPSender_ack_received ::
  "WrappingInt32 \<Rightarrow> tcp_sender \<Rightarrow> WrappingInt32 \<Rightarrow> u16 \<Rightarrow> tcp_sender" where
  "TCPSender_ack_received stale s ackno window_size =
     (let abs_ackno = unwrap ackno (sd_isn s) (sd_next_seqno s)
      in if \<not> ack_valid stale s abs_ackno then s
         else
           let s = s\<lparr>sd_receiver_window_size := window_size,
                     sd_receiver_free_space := window_size\<rparr>;
               s = pop_acked abs_ackno s;
               s = (case sd_segments_outstanding s of
                      [] \<Rightarrow> s
                    | seg # _ \<Rightarrow>
                        s\<lparr>sd_receiver_free_space :=
                            ucast (abs_ackno + ucast window_size
                              - unwrap (th_seqno (ts_header seg)) (sd_isn s) (sd_next_seqno s)
                              - sd_bytes_in_flight s)\<rparr>);
               s = (if sd_bytes_in_flight s = 0 then s\<lparr>sd_timer_running := False\<rparr> else s)
           in TCPSender_fill_window s)"

definition TCPSender_tick :: "tcp_sender \<Rightarrow> u64 \<Rightarrow> tcp_sender outcome" where
  "TCPSender_tick s ms_since_last_tick =
     (if \<not> sd_timer_running s then Inr s
      else
        let s = s\<lparr>sd_time_elapsed := sd_time_elapsed s + ucast ms_since_last_tick\<rparr>
        in if sd_time_elapsed s \<ge> sd_rto s then
             case sd_segments_outstanding s of
               [] \<Rightarrow> Inl Empty_queue_front
             | seg # _ \<Rightarrow>
                 let s = s\<lparr>sd_segments_out := sd_segments_out s @ [seg]\<rparr>;
                     s = (if sd_receiver_window_size s \<noteq> 0 \<or> th_syn (ts_header seg)
                          then s\<lparr>sd_consecutive_retransmissions :=
                                   sd_consecutive_retransmissions s + 1,
                                 sd_rto := push_bit 1 (sd_rto s)\<rparr>
                          else s)
                 in Inr (s\<lparr>sd_time_elapsed := 0\<rparr>)
           else Inr s)"

definition TCPSender_send_empty_segment :: "tcp_sender \<Rightarrow> tcp_sender" where
  "TCPSender_send_empty_segment s =
     (let seg = TCPSegment_default\<lparr>ts_header :=
            TCPHeader_default\<lparr>th_seqno := wrap (sd_next_seqno s) (sd_isn s)\<rparr>\<rparr>
      in s\<lparr>sd_segments_out := sd_segments_out s @ [seg]\<rparr>)"

section \<open>The stream being sent\<close>

text \<open>
  The application writes the stream \<open>S\<close> piece by piece; the outgoing byte stream holds what is
  written and not yet sent.
\<close>

definition stream_of :: "bytes \<Rightarrow> byte_stream \<Rightarrow> bool" where
  "stream_of S b \<longleftrightarrow> bs_wf b \<and> unat (bs_nread b) \<le> unat (bs_nwritten b) \<and>
     unat (bs_nwritten b) \<le> length S \<and>
     bs_buffer b = drop (unat (bs_nread b)) (take (unat (bs_nwritten b)) S) \<and>
     (bs_input_ended b \<longrightarrow> unat (bs_nwritten b) = length S)"

lemma stream_of_size:
  assumes "stream_of S b"
  shows "unat (bs_size b) = unat (bs_nwritten b) - unat (bs_nread b)"
proof -
  have "unat (bs_size b) = length (bs_buffer b)" "unat (bs_nwritten b) \<le> length S"
    "bs_buffer b = drop (unat (bs_nread b)) (take (unat (bs_nwritten b)) S)"
    using assms unfolding stream_of_def bs_wf_def by blast+
  then show ?thesis by simp
qed

lemma stream_of_pop:
  assumes "stream_of S b" "unat k \<le> unat (bs_size b)"
  shows "stream_of S (ByteStream_pop_output b k)"
    and "unat (bs_nread (ByteStream_pop_output b k)) = unat (bs_nread b) + unat k"
    and "ByteStream_peek_output b k = take (unat k) (drop (unat (bs_nread b)) S)"
proof -
  have wf: "bs_wf b" and le: "unat (bs_nread b) \<le> unat (bs_nwritten b)"
    "unat (bs_nwritten b) \<le> length S"
    and buf: "bs_buffer b = drop (unat (bs_nread b)) (take (unat (bs_nwritten b)) S)"
    using assms(1) by (simp_all add: stream_of_def)
  have k: "unat (bs_nread b) + unat k \<le> unat (bs_nwritten b)"
    using assms le(1) stream_of_size [OF assms(1)] by simp
  have min: "min (bs_size b) k = k" using assms(2) by (simp add: min_absorb2 word_le_nat_alt)
  show nread: "unat (bs_nread (ByteStream_pop_output b k)) = unat (bs_nread b) + unat k"
    using k unat_u64_less [of "bs_nwritten b"]
    by (simp add: stream_simps min unat_plus_exact)
  show "stream_of S (ByteStream_pop_output b k)"
    using assms(1) k wf nread
    by (simp add: stream_of_def stream_simps wf_intros buf min add.commute)
  show "ByteStream_peek_output b k = take (unat k) (drop (unat (bs_nread b)) S)"
    using k by (simp add: ByteStream_peek_buffer [OF wf] buf drop_take)
qed

lemma stream_of_eof:
  assumes "stream_of S b" "ByteStream_eof b"
  shows "unat (bs_nread b) = length S"
proof -
  have "bs_size b = 0" "bs_input_ended b"
    using assms(2) by (simp_all add: ByteStream_eof_def ByteStream_buffer_empty_def
        ByteStream_input_ended_def)
  then have "unat (bs_nwritten b) - unat (bs_nread b) = 0" "unat (bs_nwritten b) = length S"
    using stream_of_size [OF assms(1)] assms(1) by (simp_all add: stream_of_def)
  then show ?thesis using assms(1) by (simp add: stream_of_def)
qed

lemma stream_of_write:
  assumes "stream_of S b" "length S < 2 ^ 64"
    and data: "take (length data) (drop (unat (bs_nwritten b)) S) = data"
  shows "stream_of S (fst (ByteStream_write b data))"
proof -
  let ?k = "min (bs_room b) (length data)"
  have b: "bs_wf b" "unat (bs_nread b) \<le> unat (bs_nwritten b)" "unat (bs_nwritten b) \<le> length S"
    "bs_buffer b = drop (unat (bs_nread b)) (take (unat (bs_nwritten b)) S)"
    using assms(1) by (simp_all add: stream_of_def)
  have len: "length data \<le> length S - unat (bs_nwritten b)"
    using arg_cong [OF data, of length] by simp
  have uk: "unat (snd (ByteStream_write b data)) = ?k" by (simp add: stream_simps)
  have nw: "unat (bs_nwritten b + snd (ByteStream_write b data)) = unat (bs_nwritten b) + ?k"
    using len b(3) assms(2) uk by (subst unat_plus_exact) simp_all
  have "take (bs_room b) data = take ?k (drop (unat (bs_nwritten b)) S)"
    using arg_cong [OF data, of "take (bs_room b)"] by simp
  then have "bs_buffer b @ take (bs_room b) data
      = drop (unat (bs_nread b)) (take (unat (bs_nwritten b) + ?k) S)"
    using b by (simp add: take_add)
  then show ?thesis
    using b len assms(1) by (auto simp: stream_of_def stream_simps wf_intros nw)
qed

section \<open>The queue of outstanding segments\<close>

text \<open>
  Segments that continue each other from number \<open>a\<close> up to \<open>e\<close>: each one is a segment of the
  stream, takes at least one sequence number and carries at most the maximal payload.
\<close>

fun seg_chain :: "bytes \<Rightarrow> WrappingInt32 \<Rightarrow> nat \<Rightarrow> tcp_segment list \<Rightarrow> nat \<Rightarrow> bool" where
  "seg_chain S isn a [] e \<longleftrightarrow> a = e"
| "seg_chain S isn a (seg # segs) e \<longleftrightarrow>
     segment_of S isn (word_of_nat a) seg \<and> 0 < unat (TCPSegment_length_in_sequence_space seg) \<and>
     Buffer_size (ts_payload seg) \<le> unat MAX_PAYLOAD_SIZE \<and>
     seg_chain S isn (a + unat (TCPSegment_length_in_sequence_space seg)) segs e"

lemma seg_chain_le: "seg_chain S isn a segs e \<Longrightarrow> a + length segs \<le> e"
  by (induction segs arbitrary: a) fastforce+

lemma seg_chain_snoc:
  "seg_chain S isn a (segs @ [seg]) e \<longleftrightarrow>
     (\<exists>m. seg_chain S isn a segs m \<and> seg_chain S isn m [seg] e)"
  by (induction segs arbitrary: a) auto

definition sd_chain :: "bytes \<Rightarrow> tcp_sender \<Rightarrow> nat \<Rightarrow> bool" where
  "sd_chain S s a \<longleftrightarrow>
     seg_chain S (sd_isn s) a (sd_segments_outstanding s) (unat (sd_next_seqno s)) \<and>
     unat (sd_bytes_in_flight s) = unat (sd_next_seqno s) - a"

definition sd_queue :: "bytes \<Rightarrow> tcp_sender \<Rightarrow> bool" where
  "sd_queue S s \<longleftrightarrow> (\<exists>a. sd_chain S s a) \<and>
     (sd_timer_running s \<longleftrightarrow> sd_segments_outstanding s \<noteq> [])"

lemma sd_chain_empty_iff:
  assumes "sd_chain S s a"
  shows "sd_bytes_in_flight s = 0 \<longleftrightarrow> sd_segments_outstanding s = []"
proof -
  have a: "seg_chain S (sd_isn s) a (sd_segments_outstanding s) (unat (sd_next_seqno s))"
    "unat (sd_bytes_in_flight s) = unat (sd_next_seqno s) - a"
    using assms by (auto simp: sd_chain_def)
  have "sd_bytes_in_flight s = 0 \<longleftrightarrow> unat (sd_bytes_in_flight s) = 0" by (simp add: unat_eq_zero)
  with a seg_chain_le [OF a(1)] show ?thesis
    by (cases "sd_segments_outstanding s") auto
qed


section \<open>The invariant of the sender\<close>

definition sd_agrees :: "bytes \<Rightarrow> tcp_sender \<Rightarrow> bool" where
  "sd_agrees S s \<longleftrightarrow> length S + 2 ^ 33 \<le> 2 ^ 64 \<and> stream_of S (sd_stream s) \<and> sd_queue S s \<and>
     unat (sd_next_seqno s)
       = of_bool (sd_syn_sent s) + unat (bs_nread (sd_stream s)) + of_bool (sd_fin_sent s) \<and>
     (\<not> sd_syn_sent s \<longrightarrow> bs_nread (sd_stream s) = 0 \<and> \<not> sd_fin_sent s) \<and>
     (sd_fin_sent s \<longrightarrow> unat (bs_nread (sd_stream s)) = length S) \<and>
     list_all (\<lambda>seg. \<exists>a. segment_of S (sd_isn s) a seg) (sd_segments_out s)"

lemma send_segment_simps [simp]:
  "sd_isn (send_segment s seg) = sd_isn s"
  "sd_syn_sent (send_segment s seg) = sd_syn_sent s"
  "sd_fin_sent (send_segment s seg) = sd_fin_sent s"
  "sd_receiver_window_size (send_segment s seg) = sd_receiver_window_size s"
  "sd_consecutive_retransmissions (send_segment s seg) = sd_consecutive_retransmissions s"
  "sd_rto (send_segment s seg) = sd_rto s"
  "sd_timer_running (send_segment s seg)"
  "sd_next_seqno (send_segment s seg) = sd_next_seqno s + TCPSegment_length_in_sequence_space seg"
  by (simp_all add: send_segment_def Let_def TCPSegment_length_in_sequence_space_def)

definition numbered :: "tcp_sender \<Rightarrow> tcp_segment \<Rightarrow> tcp_segment" where
  "numbered s seg =
     seg\<lparr>ts_header := (ts_header seg)\<lparr>th_seqno := wrap (sd_next_seqno s) (sd_isn s)\<rparr>\<rparr>"

lemma numbered_simps [simp]:
  "TCPSegment_length_in_sequence_space (numbered s seg) = TCPSegment_length_in_sequence_space seg"
  "ts_payload (numbered s seg) = ts_payload seg"
  "th_syn (ts_header (numbered s seg)) = th_syn (ts_header seg)"
  "th_fin (ts_header (numbered s seg)) = th_fin (ts_header seg)"
  "th_seqno (ts_header (numbered s seg)) = wrap (sd_next_seqno s) (sd_isn s)"
  by (simp_all add: numbered_def TCPSegment_length_in_sequence_space_def)

lemma send_segment_queues:
  "sd_segments_out (send_segment s seg) = sd_segments_out s @ [numbered s seg]"
  "sd_segments_outstanding (send_segment s seg) = sd_segments_outstanding s @ [numbered s seg]"
  "sd_bytes_in_flight (send_segment s seg)
     = sd_bytes_in_flight s + TCPSegment_length_in_sequence_space seg"
  "sd_receiver_free_space (send_segment s seg) = (if sd_syn_sent s
     then sd_receiver_free_space s - ucast (TCPSegment_length_in_sequence_space seg)
     else sd_receiver_free_space s)"
  by (simp_all add: send_segment_def Let_def numbered_def TCPSegment_length_in_sequence_space_def)

lemma segment_with_simps [simp]:
  "TCPSegment_length_in_sequence_space (segment_with syn fin b)
     = size_u64 (Buffer_str b) + (if syn then 1 else 0) + (if fin then 1 else 0)"
  "ts_payload (segment_with syn fin b) = b"
  "th_syn (ts_header (segment_with syn fin b)) = syn"
  "th_fin (ts_header (segment_with syn fin b)) = fin"
  by (simp_all add: segment_with_def TCPSegment_length_in_sequence_space_def TCPSegment_default_def)

text \<open>Sending a new segment of the stream extends the chain.\<close>

lemma send_segment_queue:
  assumes q: "sd_queue S s" and S: "length S + 2 ^ 33 \<le> 2 ^ 64"
    and seg: "segment_of S (sd_isn s) (sd_next_seqno s) (numbered s seg)"
    and len: "TCPSegment_length_in_sequence_space seg \<noteq> 0"
    and max: "Buffer_size (ts_payload seg) \<le> unat MAX_PAYLOAD_SIZE"
  shows "sd_queue S (send_segment s seg)"
    and "unat (sd_next_seqno (send_segment s seg))
      = unat (sd_next_seqno s) + unat (TCPSegment_length_in_sequence_space seg)"
proof -
  let ?l = "TCPSegment_length_in_sequence_space seg"
  note place = segment_place [OF S seg]
  have sum: "unat (sd_next_seqno s) + unat ?l < 2 ^ 64"
    using place(1,2,5) S by simp
  then show next': "unat (sd_next_seqno (send_segment s seg)) = unat (sd_next_seqno s) + unat ?l"
    by (simp add: unat_plus_exact)
  obtain a where a: "seg_chain S (sd_isn s) a (sd_segments_outstanding s) (unat (sd_next_seqno s))"
    "unat (sd_bytes_in_flight s) = unat (sd_next_seqno s) - a"
    using q by (auto simp: sd_queue_def sd_chain_def)
  have "seg_chain S (sd_isn s) (unat (sd_next_seqno s)) [numbered s seg]
      (unat (sd_next_seqno s) + unat ?l)"
    using seg len max by (simp add: unat_gt_0)
  then have "seg_chain S (sd_isn s) a (sd_segments_outstanding s @ [numbered s seg])
      (unat (sd_next_seqno s) + unat ?l)"
    using a(1) seg_chain_snoc by blast
  moreover have "unat (sd_bytes_in_flight s + ?l) = unat (sd_next_seqno s) + unat ?l - a"
    using a sum seg_chain_le [OF a(1)] by (subst unat_plus_exact) simp_all
  ultimately show "sd_queue S (send_segment s seg)"
    using next' by (auto simp: sd_queue_def sd_chain_def send_segment_queues simp del: send_segment_simps(8))
qed

lemma send_segment_agrees:
  assumes q: "sd_queue S s" and S: "length S + 2 ^ 33 \<le> 2 ^ 64"
    and seg: "segment_of S (sd_isn s) (sd_next_seqno s) (numbered s seg)"
    and len: "TCPSegment_length_in_sequence_space seg \<noteq> 0"
    and max: "Buffer_size (ts_payload seg) \<le> unat MAX_PAYLOAD_SIZE"
    and stream: "stream_of S (sd_stream s)" and syn: "sd_syn_sent s"
    and fin: "sd_fin_sent s \<longrightarrow> unat (bs_nread (sd_stream s)) = length S"
    and out: "list_all (\<lambda>seg. \<exists>a. segment_of S (sd_isn s) a seg) (sd_segments_out s)"
    and count: "unat (sd_next_seqno s) + unat (TCPSegment_length_in_sequence_space seg)
      = 1 + unat (bs_nread (sd_stream s)) + of_bool (sd_fin_sent s)"
  shows "sd_agrees S (send_segment s seg)"
  using send_segment_queue [OF q S seg len max] assms
  by (auto simp: sd_agrees_def send_segment_queues simp del: send_segment_simps(8))

text \<open>The data segment that one turn of the filling loop sends.\<close>

lemma data_segment:
  assumes S: "length S + 2 ^ 33 \<le> 2 ^ 64" and stream: "stream_of S b"
    and num: "unat n = 1 + unat (bs_nread b)" and k: "unat k \<le> unat (bs_size b)"
    and fin: "fin \<longrightarrow> unat (bs_nread b) + unat k = length S"
    and seg: "th_seqno (ts_header seg) = wrap n isn" "\<not> th_syn (ts_header seg)"
      "th_fin (ts_header seg) = fin" "Buffer_str (ts_payload seg) = ByteStream_peek_output b k"
  shows "segment_of S isn n seg"
    and "unat (TCPSegment_length_in_sequence_space seg) = unat k + of_bool fin"
    and "Buffer_size (ts_payload seg) = unat k"
proof -
  have le: "unat (bs_nread b) + unat k \<le> length S"
    using k stream stream_of_size [OF stream] by (auto simp: stream_of_def)
  have d: "Buffer_str (ts_payload seg) = take (unat k) (drop (unat (bs_nread b)) S)"
    using stream_of_pop(3) [OF stream k] seg(4) by simp
  have ix: "unat (seg_index n) = unat (bs_nread b)" by (simp add: unat_seg_index num)
  have "n \<noteq> 0" using num by auto
  moreover have "piece_of S (Buffer_copy (ts_payload seg)) (seg_index n) fin"
    using le fin by (auto simp: piece_of_def Buffer_copy_def d ix)
  ultimately show "segment_of S isn n seg"
    using seg num le by (simp add: segment_of_def)
  show "Buffer_size (ts_payload seg) = unat k" using le by (simp add: Buffer_size_def d)
  show "unat (TCPSegment_length_in_sequence_space seg) = unat k + of_bool fin"
    using le S seg(2,3)
    by (auto simp: TCPSegment_length_in_sequence_space_def d unat_size_u64 unat_plus_exact)
qed

text \<open>What reading from the stream and marking the end leaves of the invariant.\<close>

lemma sd_queue_updates [simp]:
  "sd_queue S (s\<lparr>sd_stream := b\<rparr>) = sd_queue S s"
  "sd_queue S (s\<lparr>sd_fin_sent := f\<rparr>) = sd_queue S s"
  "sd_queue S (s\<lparr>sd_syn_sent := f\<rparr>) = sd_queue S s"
  "sd_queue S (s\<lparr>sd_segments_out := out\<rparr>) = sd_queue S s"
  "sd_queue S (s\<lparr>sd_receiver_window_size := w\<rparr>) = sd_queue S s"
  "sd_queue S (s\<lparr>sd_receiver_free_space := w\<rparr>) = sd_queue S s"
  "sd_queue S (s\<lparr>sd_time_elapsed := t\<rparr>) = sd_queue S s"
  "sd_queue S (s\<lparr>sd_rto := t\<rparr>) = sd_queue S s"
  "sd_queue S (s\<lparr>sd_consecutive_retransmissions := n\<rparr>) = sd_queue S s"
  by (simp_all add: sd_queue_def sd_chain_def)

lemma send_data_agrees:
  assumes agr: "sd_agrees S s" and syn: "sd_syn_sent s" and nofin: "\<not> sd_fin_sent s"
    and k: "unat k \<le> unat (bs_size (sd_stream s))" "unat k \<le> unat MAX_PAYLOAD_SIZE"
    and fin: "fin \<longrightarrow> ByteStream_eof (ByteStream_pop_output (sd_stream s) k)"
    and some: "0 < unat k \<or> fin"
    and s': "s' = s\<lparr>sd_stream := ByteStream_pop_output (sd_stream s) k, sd_fin_sent := fin\<rparr>"
    and payload: "Buffer_str payload = ByteStream_peek_output (sd_stream s) k"
  shows "sd_agrees S (send_segment s' (segment_with False fin payload))"
    and "unat (TCPSegment_length_in_sequence_space (segment_with False fin payload))
      = unat k + of_bool fin"
proof -
  let ?b = "sd_stream s" and ?seg = "segment_with False fin payload"
  have S: "length S + 2 ^ 33 \<le> 2 ^ 64" and st: "stream_of S ?b" and q: "sd_queue S s"
    and num: "unat (sd_next_seqno s) = 1 + unat (bs_nread ?b)"
    and out: "list_all (\<lambda>seg. \<exists>a. segment_of S (sd_isn s) a seg) (sd_segments_out s)"
    using agr syn nofin by (simp_all add: sd_agrees_def)
  note pop = stream_of_pop [OF st k(1)]
  have full: "fin \<longrightarrow> unat (bs_nread ?b) + unat k = length S"
    using stream_of_eof [OF pop(1)] fin pop(2) by simp
  note data = data_segment [OF S st num k(1) full, of "numbered s' ?seg" "sd_isn s"]
  have same: "sd_next_seqno s' = sd_next_seqno s" "sd_isn s' = sd_isn s" by (simp_all add: s')
  have seg: "segment_of S (sd_isn s') (sd_next_seqno s') (numbered s' ?seg)"
    and max: "Buffer_size (ts_payload ?seg) \<le> unat MAX_PAYLOAD_SIZE"
    using data(1,3) payload k(2) by (simp_all add: same)
  show len: "unat (TCPSegment_length_in_sequence_space ?seg) = unat k + of_bool fin"
    using data(2) payload by (simp add: same del: segment_with_simps(1))
  have "TCPSegment_length_in_sequence_space ?seg \<noteq> 0" using len some by (auto simp: word_unat_eq_iff)
  moreover have "sd_queue S s'" using q by (simp add: s')
  ultimately show "sd_agrees S (send_segment s' ?seg)"
    using seg max S pop(1,2) num len full out syn
    by (intro send_segment_agrees) (simp_all add: s' del: segment_with_simps(1))
qed

text \<open>How much one turn of the filling loop sends, and whether it sends the FIN.\<close>

definition fill_amount :: "tcp_sender \<Rightarrow> u64" where
  "fill_amount s =
     min (bs_size (sd_stream s)) (min (ucast (sd_receiver_free_space s)) MAX_PAYLOAD_SIZE)"

definition fill_fin :: "tcp_sender \<Rightarrow> bool" where
  "fill_fin s \<longleftrightarrow> ByteStream_eof (ByteStream_pop_output (sd_stream s) (fill_amount s)) \<and>
     ucast (sd_receiver_free_space s) > fill_amount s"

lemma fill_step_form:
  assumes "\<not> sd_fin_sent s"
  shows "fill_step s = send_segment
    (s\<lparr>sd_stream := ByteStream_pop_output (sd_stream s) (fill_amount s), sd_fin_sent := fill_fin s\<rparr>)
    (segment_with False (fill_fin s)
      (Buffer_new (ByteStream_peek_output (sd_stream s) (fill_amount s))))"
proof -
  have "s\<lparr>sd_stream := b\<rparr> = s\<lparr>sd_stream := b, sd_fin_sent := False\<rparr>" for b
    using assms by (cases s) simp
  then show ?thesis
    by (auto simp: fill_step_def Let_def fill_amount_def fill_fin_def ByteStream_buffer_size_def
        ByteStream_read_def)
qed

lemma fill_amount_le:
  "unat (fill_amount s) \<le> unat (bs_size (sd_stream s))" "unat (fill_amount s) \<le> unat MAX_PAYLOAD_SIZE"
  "unat (fill_amount s) \<le> unat (sd_receiver_free_space s)"
  "unat (fill_amount s) + of_bool (fill_fin s) \<le> unat (sd_receiver_free_space s)"
  by (auto simp: fill_amount_def fill_fin_def unat_ucast_up word_less_nat_alt min_le_iff_disj)

lemma fill_amount_some:
  assumes "sd_receiver_free_space s \<noteq> 0" "bs_size (sd_stream s) \<noteq> 0 \<or> ByteStream_eof (sd_stream s)"
  shows "0 < unat (fill_amount s) \<or> fill_fin s"
proof (cases "bs_size (sd_stream s) = 0")
  case True
  then have k0: "fill_amount s = 0" by (simp add: fill_amount_def)
  then have "ByteStream_pop_output (sd_stream s) (fill_amount s) = sd_stream s"
    by (simp add: ByteStream_pop_output_def)
  then show ?thesis using assms True k0
    by (simp add: fill_fin_def) (simp add: word_less_nat_alt unat_gt_0 unat_ucast_up)
next
  case False
  then show ?thesis using assms(1) by (simp add: fill_amount_def MAX_PAYLOAD_SIZE_def unat_gt_0 unat_ucast_up)
qed

lemma fill_step_agrees:
  assumes agr: "sd_agrees S s" and syn: "sd_syn_sent s" and nofin: "\<not> sd_fin_sent s"
    and free: "sd_receiver_free_space s \<noteq> 0"
    and todo: "bs_size (sd_stream s) \<noteq> 0 \<or> ByteStream_eof (sd_stream s)"
  shows "sd_agrees S (fill_step s)"
    and "\<exists>n. 0 < n \<and> n \<le> unat (sd_receiver_free_space s) \<and>
      unat (sd_next_seqno (fill_step s)) = unat (sd_next_seqno s) + n \<and>
      unat (sd_receiver_free_space (fill_step s)) = unat (sd_receiver_free_space s) - n"
    and "sd_fin_sent (fill_step s) \<longrightarrow> ByteStream_buffer_empty (sd_stream (fill_step s))"
    and "sd_receiver_window_size (fill_step s) = sd_receiver_window_size s" "sd_syn_sent (fill_step s)"
proof -
  define k where "k = fill_amount s"
  define fin where "fin = fill_fin s"
  define s' where "s' = s\<lparr>sd_stream := ByteStream_pop_output (sd_stream s) k, sd_fin_sent := fin\<rparr>"
  define seg where "seg = segment_with False fin (Buffer_new (ByteStream_peek_output (sd_stream s) k))"
  have form: "fill_step s = send_segment s' seg"
    using fill_step_form [OF nofin] by (simp only: k_def fin_def s'_def seg_def)
  note le = fill_amount_le [of s, folded k_def fin_def] and some = fill_amount_some [OF free todo, folded k_def fin_def]
  have eof: "fin \<longrightarrow> ByteStream_eof (ByteStream_pop_output (sd_stream s) k)"
    by (simp add: fin_def fill_fin_def k_def)
  note sent = send_data_agrees [OF agr syn nofin le(1,2) eof some s'_def Buffer_str_new, folded seg_def]
  show "sd_agrees S (fill_step s)" using sent(1) by (simp add: form)
  show "sd_fin_sent (fill_step s) \<longrightarrow> ByteStream_buffer_empty (sd_stream (fill_step s))"
    using eof by (auto simp: form s'_def ByteStream_eof_def)
  show "sd_receiver_window_size (fill_step s) = sd_receiver_window_size s" "sd_syn_sent (fill_step s)"
    using syn by (simp_all add: form s'_def)
  have "length S + 2 ^ 33 \<le> 2 ^ 64" "unat (sd_next_seqno s) \<le> length S + 2"
    using agr by (auto simp: sd_agrees_def stream_of_def)
  then have "unat (sd_next_seqno (fill_step s)) = unat (sd_next_seqno s) + (unat k + of_bool fin)"
    using sent(2) le(4) unat_u16_less [of "sd_receiver_free_space s"]
      unat_plus_exact [of "sd_next_seqno s" "TCPSegment_length_in_sequence_space seg"]
    by (simp add: form) (simp add: s'_def)
  moreover have "unat (ucast (TCPSegment_length_in_sequence_space seg) :: u16) = unat k + of_bool fin"
    using sent(2) le(4) unat_u16_less [of "sd_receiver_free_space s"]
    by (simp only: unsigned_ucast_eq) (simp add: take_bit_nat_eq_self)
  then have "unat (sd_receiver_free_space (fill_step s))
      = unat (sd_receiver_free_space s) - (unat k + of_bool fin)"
    using le(4) syn by (simp add: form send_segment_queues s'_def unat_minus_exact)
  ultimately show "\<exists>n. 0 < n \<and> n \<le> unat (sd_receiver_free_space s) \<and>
      unat (sd_next_seqno (fill_step s)) = unat (sd_next_seqno s) + n \<and>
      unat (sd_receiver_free_space (fill_step s)) = unat (sd_receiver_free_space s) - n"
    using le(4) some by (intro exI [of _ "unat k + of_bool fin"]) auto
qed

lemma fill_step_fin:
  assumes "sd_agrees S s" "sd_syn_sent s" "\<not> sd_fin_sent s"
  shows "sd_receiver_free_space (fill_step s) = 0 \<or> (ByteStream_eof (sd_stream (fill_step s)) \<longrightarrow>
    sd_fin_sent (fill_step s))"
proof (cases "fill_fin s")
  case True
  then show ?thesis by (simp add: fill_step_form [OF assms(3)])
next
  case False
  let ?k = "fill_amount s"
  have st: "stream_of S (sd_stream s)" using assms(1) by (simp add: sd_agrees_def)
  have fs: "unat (ucast (sd_receiver_free_space s) :: u64) = unat (sd_receiver_free_space s)"
    by (simp add: unat_ucast_up)
  have "sd_receiver_free_space (fill_step s) = 0"
    if "ByteStream_eof (sd_stream (fill_step s))"
  proof -
    have "unat (sd_receiver_free_space s) \<le> unat ?k"
      using that False fs
      by (simp add: fill_step_form [OF assms(3)] fill_fin_def word_less_nat_alt)
    moreover have "unat ?k \<le> unat (sd_receiver_free_space s)" using fs by (simp add: fill_amount_def)
    moreover have "unat ?k \<le> unat (bs_size (sd_stream s))" by (simp add: fill_amount_def)
    then have "length (ByteStream_peek_output (sd_stream s) ?k) = unat ?k"
      using st by (simp add: ByteStream_peek_buffer stream_of_def bs_wf_def)
    ultimately show ?thesis
      using False assms(2) unat_u16_less [of "sd_receiver_free_space s"]
      by (simp add: fill_step_form [OF assms(3)] send_segment_queues Buffer_str_new size_u64_def)
        (simp add: word_unat_eq_iff unsigned_ucast_eq take_bit_nat_eq_self)
  qed
  then show ?thesis by blast
qed

text \<open>
  The whole loop: it keeps the invariant, sends at most the free space, takes exactly what it
  sends off the free space, and stops only when the space is used up or everything is sent.
\<close>

lemma fill_loop_agrees:
  assumes "sd_agrees S s" "sd_syn_sent s" "\<not> sd_fin_sent s"
    and "bs_size (sd_stream s) \<noteq> 0 \<or> ByteStream_eof (sd_stream s)"
  shows "sd_agrees S (fill_loop s) \<and>
    sd_receiver_window_size (fill_loop s) = sd_receiver_window_size s \<and> sd_syn_sent (fill_loop s) \<and>
    (\<exists>n. n \<le> unat (sd_receiver_free_space s) \<and>
      unat (sd_next_seqno (fill_loop s)) = unat (sd_next_seqno s) + n \<and>
      unat (sd_receiver_free_space (fill_loop s)) = unat (sd_receiver_free_space s) - n) \<and>
    (sd_receiver_free_space (fill_loop s) = 0 \<or> ByteStream_buffer_empty (sd_stream (fill_loop s)) \<and>
      (ByteStream_eof (sd_stream (fill_loop s)) \<longrightarrow> sd_fin_sent (fill_loop s)))"
  using assms
proof (induction s rule: fill_loop.induct)
  case (1 s)
  show ?case
  proof (cases "sd_receiver_free_space s = 0")
    case True
    with 1 show ?thesis by (simp add: fill_loop.simps [of s])
  next
    case False
    note step = fill_step_agrees [OF "1.prems"(1-3) False "1.prems"(4)]
    obtain n where n: "n \<le> unat (sd_receiver_free_space s)"
      "unat (sd_next_seqno (fill_step s)) = unat (sd_next_seqno s) + n"
      "unat (sd_receiver_free_space (fill_step s)) = unat (sd_receiver_free_space s) - n"
      using step(2) by blast
    show ?thesis
    proof (cases "ByteStream_buffer_empty (sd_stream (fill_step s))")
      case True
      then have eq: "fill_loop s = fill_step s" using False by (simp add: fill_loop.simps [of s])
      have "sd_receiver_free_space (fill_step s) = 0 \<or>
          (ByteStream_eof (sd_stream (fill_step s)) \<longrightarrow> sd_fin_sent (fill_step s))"
        using fill_step_fin [OF "1.prems"(1-3)] by blast
      with True step(1,4,5) n eq show ?thesis by auto
    next
      case nonempty: False
      then have eq: "fill_loop s = fill_loop (fill_step s)" using False by (simp add: fill_loop.simps [of s])
      have "\<not> sd_fin_sent (fill_step s)" "bs_size (sd_stream (fill_step s)) \<noteq> 0"
        using step(3) nonempty by (auto simp: ByteStream_buffer_empty_def)
      with "1.IH" [OF False refl nonempty step(1,5)] obtain m where
        "sd_agrees S (fill_loop s)" "sd_syn_sent (fill_loop s)"
        "sd_receiver_window_size (fill_loop s) = sd_receiver_window_size s"
        "m \<le> unat (sd_receiver_free_space (fill_step s))"
        "unat (sd_next_seqno (fill_loop s)) = unat (sd_next_seqno (fill_step s)) + m"
        "unat (sd_receiver_free_space (fill_loop s)) = unat (sd_receiver_free_space (fill_step s)) - m"
        "sd_receiver_free_space (fill_loop s) = 0 \<or> ByteStream_buffer_empty (sd_stream (fill_loop s)) \<and>
          (ByteStream_eof (sd_stream (fill_loop s)) \<longrightarrow> sd_fin_sent (fill_loop s))"
        unfolding eq step(4) by blast
      with n show ?thesis by (auto intro!: exI [of _ "n + m"])
    qed
  qed
qed

section \<open>What each operation changes\<close>

text \<open>Sending only appends to the queue for transmission and leaves the timer's settings alone.\<close>

definition sd_frame :: "tcp_sender \<Rightarrow> tcp_sender \<Rightarrow> bool" where
  "sd_frame s s' \<longleftrightarrow> sd_isn s' = sd_isn s \<and> sd_rto s' = sd_rto s \<and>
     sd_consecutive_retransmissions s' = sd_consecutive_retransmissions s \<and>
     sd_receiver_window_size s' = sd_receiver_window_size s \<and>
     sd_initial_retransmission_timeout s' = sd_initial_retransmission_timeout s \<and>
     (sd_syn_sent s \<longrightarrow> sd_syn_sent s') \<and> (\<exists>new. sd_segments_out s' = sd_segments_out s @ new \<and>
       sd_segments_outstanding s' = sd_segments_outstanding s @ new)"

lemma sd_frame_refl: "sd_frame s s"
  by (simp add: sd_frame_def)

lemma sd_frame_trans: "sd_frame s t \<Longrightarrow> sd_frame t u \<Longrightarrow> sd_frame s u"
  by (auto simp: sd_frame_def)

lemma sd_frame_send:
  "sd_frame s (s\<lparr>sd_stream := b, sd_fin_sent := f\<rparr>)"
  "sd_frame s (s\<lparr>sd_stream := b\<rparr>)" "sd_frame s (s\<lparr>sd_fin_sent := f\<rparr>)"
  "sd_frame s (s\<lparr>sd_syn_sent := True\<rparr>)" "sd_frame s (send_segment s seg)"
  by (simp_all add: sd_frame_def send_segment_def Let_def)

lemma fill_step_frame: "sd_frame s (fill_step s)"
  unfolding fill_step_def Let_def case_prod_beta
  by (auto intro: sd_frame_trans sd_frame_send)

lemma fill_loop_frame: "sd_frame s (fill_loop s)"
proof (induction s rule: fill_loop.induct)
  case (1 s)
  then show ?case
    using fill_step_frame [of s] sd_frame_trans [of s "fill_step s"]
    by (auto simp: fill_loop.simps [of s] Let_def sd_frame_refl)
qed

lemma fill_window_frame: "sd_frame s (TCPSender_fill_window s)"
  unfolding TCPSender_fill_window_def Let_def case_prod_beta
  by (auto intro: sd_frame_refl fill_loop_frame sd_frame_trans sd_frame_send)

lemma fill_window_syn_sent [simp]: "sd_syn_sent (TCPSender_fill_window s)"
  using fill_window_frame [of s]
  by (cases "sd_syn_sent s") (simp_all add: sd_frame_def TCPSender_fill_window_def)

lemma fill_window_cases [consumes 1, case_names stay loop fin probe]:
  assumes "sd_syn_sent s" and "P s"
    and "\<not> sd_fin_sent s \<Longrightarrow> bs_size (sd_stream s) \<noteq> 0 \<or> ByteStream_eof (sd_stream s) \<Longrightarrow>
      sd_receiver_window_size s \<noteq> 0 \<Longrightarrow> P (fill_loop s)"
    and "\<not> sd_fin_sent s \<Longrightarrow> ByteStream_eof (sd_stream s) \<Longrightarrow>
      sd_receiver_window_size s = 0 \<Longrightarrow> sd_receiver_free_space s = 0 \<Longrightarrow>
      P (send_segment (s\<lparr>sd_fin_sent := True\<rparr>) (segment_with False True Buffer_default))"
    and "\<not> sd_fin_sent s \<Longrightarrow> bs_size (sd_stream s) \<noteq> 0 \<Longrightarrow>
      sd_receiver_window_size s = 0 \<Longrightarrow> sd_receiver_free_space s = 0 \<Longrightarrow>
      P (send_segment (s\<lparr>sd_stream := ByteStream_pop_output (sd_stream s) 1\<rparr>)
        (segment_with False False (Buffer_new (ByteStream_peek_output (sd_stream s) 1))))"
  shows "P (TCPSender_fill_window s)"
  using assms
  by (simp add: TCPSender_fill_window_def ByteStream_read_def ByteStream_buffer_size_def
      ByteStream_buffer_empty_def)

lemma fill_window_agrees:
  assumes agr: "sd_agrees S s"
  shows "sd_agrees S (TCPSender_fill_window s)"
proof (cases "sd_syn_sent s")
  case False
  let ?s = "s\<lparr>sd_syn_sent := True\<rparr>" and ?seg = "segment_with True False Buffer_default"
  have zero: "sd_next_seqno s = 0" "bs_nread (sd_stream s) = 0" "\<not> sd_fin_sent s"
    using agr False by (auto simp: sd_agrees_def word_unat_eq_iff)
  have "segment_of S (sd_isn s) 0 (numbered ?s ?seg)"
    by (simp add: segment_of_def piece_of_def Buffer_copy_def Buffer_str_default zero)
  then have "sd_agrees S (send_segment ?s ?seg)"
    using agr zero
    by (intro send_segment_agrees)
      (simp_all add: sd_agrees_def Buffer_size_def Buffer_str_default)
  with False show ?thesis by (simp add: TCPSender_fill_window_def)
next
  case syn: True
  then show ?thesis
  proof (induct rule: fill_window_cases)
    case stay
    show ?case by (rule agr)
  next
    case loop
    then show ?case using fill_loop_agrees [OF agr syn] by blast
  next
    case fin
    have b: "ByteStream_pop_output (sd_stream s) 0 = sd_stream s"
      "ByteStream_peek_output (sd_stream s) 0 = []"
      by (simp_all add: ByteStream_pop_output_def ByteStream_peek_output_def)
    have "s\<lparr>sd_fin_sent := True\<rparr> = s\<lparr>sd_stream := sd_stream s, sd_fin_sent := True\<rparr>" by simp
    with fin show ?case
      by (intro send_data_agrees(1) [OF agr syn fin(1), of 0]) (simp_all add: b Buffer_str_default)
  next
    case probe
    have "unat 1 \<le> unat (bs_size (sd_stream s))" using probe by (simp add: unat_gt_0 Suc_le_eq)
    moreover have "s\<lparr>sd_stream := ByteStream_pop_output (sd_stream s) 1\<rparr>
        = s\<lparr>sd_stream := ByteStream_pop_output (sd_stream s) 1, sd_fin_sent := False\<rparr>"
      using probe by (cases s) simp
    ultimately show ?case
      by (intro send_data_agrees(1) [OF agr syn probe(1), of 1])
        (simp_all add: Buffer_str_new MAX_PAYLOAD_SIZE_def)
  qed
qed

text \<open>
  Processing an acknowledgment: the loop removes a front part of the chain and keeps the count of
  bytes in flight right, whatever the acknowledgment number.
\<close>

lemma sd_agrees_chain: "sd_agrees S s \<Longrightarrow> \<exists>a. sd_chain S s a"
  by (simp add: sd_agrees_def sd_queue_def)

lemma sd_chain_window [simp]:
  "sd_chain S (s\<lparr>sd_receiver_window_size := w, sd_receiver_free_space := f\<rparr>) a = sd_chain S s a"
  by (simp add: sd_chain_def)

definition pop_frame :: "tcp_sender \<Rightarrow> tcp_sender \<Rightarrow> bool" where
  "pop_frame s s' \<longleftrightarrow> sd_isn s' = sd_isn s \<and> sd_segments_out s' = sd_segments_out s \<and>
     sd_stream s' = sd_stream s \<and> sd_next_seqno s' = sd_next_seqno s \<and>
     sd_syn_sent s' = sd_syn_sent s \<and> sd_fin_sent s' = sd_fin_sent s \<and>
     sd_receiver_window_size s' = sd_receiver_window_size s \<and>
     sd_receiver_free_space s' = sd_receiver_free_space s \<and>
     sd_timer_running s' = sd_timer_running s \<and>
     sd_initial_retransmission_timeout s' = sd_initial_retransmission_timeout s \<and>
     (sd_consecutive_retransmissions s' = sd_consecutive_retransmissions s \<or>
      sd_consecutive_retransmissions s' = 0) \<and>
     (sd_segments_outstanding s' \<noteq> [] \<longrightarrow> sd_segments_outstanding s \<noteq> [])"

lemma pop_acked_frame: "pop_frame s (pop_acked abs_ackno s)"
proof (induction abs_ackno s rule: pop_acked.induct)
  case (1 abs_ackno s)
  show ?case
  proof (cases "sd_segments_outstanding s")
    case Nil
    then show ?thesis by (simp add: pop_acked.simps [of _ s] pop_frame_def)
  next
    case (Cons seg rest)
    then show ?thesis
      using 1 [OF Cons] by (auto simp: pop_acked.simps [of _ s] pop_frame_def)
  qed
qed

lemma pop_acked_chain:
  assumes "sd_chain S s a"
  shows "\<exists>a'. sd_chain S (pop_acked abs_ackno s) a' \<and> a \<le> a'"
  using assms
proof (induction abs_ackno s arbitrary: a rule: pop_acked.induct)
  case (1 abs_ackno s)
  show ?case
  proof (cases "sd_segments_outstanding s")
    case Nil
    with 1(2) show ?thesis by (auto simp: pop_acked.simps [of _ s])
  next
    case (Cons seg rest)
    let ?l = "TCPSegment_length_in_sequence_space seg"
    let ?s' = "s\<lparr>sd_bytes_in_flight := sd_bytes_in_flight s - ?l, sd_segments_outstanding := rest,
      sd_time_elapsed := 0, sd_rto := sd_initial_retransmission_timeout s,
      sd_consecutive_retransmissions := 0\<rparr>"
    have c: "seg_chain S (sd_isn s) (a + unat ?l) rest (unat (sd_next_seqno s))"
      "unat (sd_bytes_in_flight s) = unat (sd_next_seqno s) - a"
      using 1(2) Cons by (simp_all add: sd_chain_def)
    have "unat (sd_bytes_in_flight s - ?l) = unat (sd_bytes_in_flight s) - unat ?l"
      using c seg_chain_le [OF c(1)] by (intro unat_minus_exact) simp
    then have "sd_chain S ?s' (a + unat ?l)" using c by (simp add: sd_chain_def)
    with 1(1) [OF Cons] 1(2) show ?thesis
      by (cases "unwrap (th_seqno (ts_header seg)) (sd_isn s) (sd_next_seqno s) + ?l \<le> abs_ackno")
        (auto simp: pop_acked.simps [of _ s] Cons intro: le_trans [OF le_add1])
  qed
qed

text \<open>The sender once a valid acknowledgment is noted, before it fills the window again.\<close>

definition ack_noted :: "tcp_sender \<Rightarrow> u64 \<Rightarrow> u16 \<Rightarrow> tcp_sender" where
  "ack_noted s n w =
     (let s = pop_acked n (s\<lparr>sd_receiver_window_size := w, sd_receiver_free_space := w\<rparr>);
          s = (case sd_segments_outstanding s of
                 [] \<Rightarrow> s
               | seg # _ \<Rightarrow> s\<lparr>sd_receiver_free_space := ucast (n + ucast w
                   - unwrap (th_seqno (ts_header seg)) (sd_isn s) (sd_next_seqno s)
                   - sd_bytes_in_flight s)\<rparr>)
      in if sd_bytes_in_flight s = 0 then s\<lparr>sd_timer_running := False\<rparr> else s)"

lemma ack_received_eq:
  "TCPSender_ack_received stale s ackno w =
     (let n = unwrap ackno (sd_isn s) (sd_next_seqno s)
      in if ack_valid stale s n then TCPSender_fill_window (ack_noted s n w) else s)"
  by (simp add: TCPSender_ack_received_def ack_noted_def Let_def)

lemma ack_noted_frame:
  "sd_isn (ack_noted s n w) = sd_isn s" "sd_segments_out (ack_noted s n w) = sd_segments_out s"
  "sd_stream (ack_noted s n w) = sd_stream s" "sd_next_seqno (ack_noted s n w) = sd_next_seqno s"
  "sd_syn_sent (ack_noted s n w) = sd_syn_sent s" "sd_fin_sent (ack_noted s n w) = sd_fin_sent s"
  "sd_receiver_window_size (ack_noted s n w) = w"
  "sd_segments_outstanding (ack_noted s n w) = sd_segments_outstanding
     (pop_acked n (s\<lparr>sd_receiver_window_size := w, sd_receiver_free_space := w\<rparr>))"
  "sd_consecutive_retransmissions (ack_noted s n w) = sd_consecutive_retransmissions s \<or>
     sd_consecutive_retransmissions (ack_noted s n w) = 0"
  using pop_acked_frame [of "s\<lparr>sd_receiver_window_size := w, sd_receiver_free_space := w\<rparr>" n]
  by (auto simp: ack_noted_def pop_frame_def Let_def split: list.splits)

lemma ack_noted_agrees:
  assumes "sd_agrees S s"
  shows "sd_agrees S (ack_noted s n w)"
proof -
  let ?s0 = "s\<lparr>sd_receiver_window_size := w, sd_receiver_free_space := w\<rparr>"
  have "\<exists>a. sd_chain S ?s0 a" using sd_agrees_chain [OF assms] by simp
  then obtain a where a: "sd_chain S (pop_acked n ?s0) a" using pop_acked_chain by blast
  have "sd_chain S (ack_noted s n w) a"
    using a by (auto simp: ack_noted_def Let_def sd_chain_def split: list.splits)
  moreover have "sd_timer_running (ack_noted s n w) \<longleftrightarrow> sd_segments_outstanding (ack_noted s n w) \<noteq> []"
    using assms sd_chain_empty_iff [OF a] pop_acked_frame [of ?s0 n]
    by (auto simp: ack_noted_def Let_def sd_agrees_def sd_queue_def pop_frame_def split: list.splits)
  ultimately have "sd_queue S (ack_noted s n w)" by (auto simp: sd_queue_def)
  with assms show ?thesis by (simp add: sd_agrees_def ack_noted_frame)
qed

lemma ack_received_agrees:
  "sd_agrees S s \<Longrightarrow> sd_agrees S (TCPSender_ack_received stale s ackno w)"
  by (simp add: ack_received_eq Let_def fill_window_agrees ack_noted_agrees)

lemma tick_agrees:
  assumes "sd_agrees S s"
  shows "\<exists>s'. TCPSender_tick s ms = Inr s' \<and> sd_agrees S s'"
proof (cases "sd_segments_outstanding s")
  case Nil
  then have "\<not> sd_timer_running s" using assms by (simp add: sd_agrees_def sd_queue_def)
  with assms show ?thesis by (simp add: TCPSender_tick_def)
next
  case (Cons seg rest)
  then obtain a where "segment_of S (sd_isn s) a seg"
    using assms by (auto simp: sd_agrees_def sd_queue_def sd_chain_def)
  with assms Cons show ?thesis
    by (auto simp: TCPSender_tick_def Let_def sd_agrees_def)
qed

lemma send_empty_agrees:
  assumes "sd_agrees S s" "sd_syn_sent s"
  shows "sd_agrees S (TCPSender_send_empty_segment s)"
proof -
  let ?seg = "TCPSegment_default\<lparr>ts_header :=
    TCPHeader_default\<lparr>th_seqno := wrap (sd_next_seqno s) (sd_isn s)\<rparr>\<rparr>"
  have n: "unat (sd_next_seqno s) \<le> length S + 2" "0 < unat (sd_next_seqno s)"
    using assms by (auto simp: sd_agrees_def stream_of_def)
  have "segment_of S (sd_isn s) (sd_next_seqno s) ?seg"
    using n by (auto simp: segment_of_def piece_of_def Buffer_copy_def TCPSegment_default_def
        TCPHeader_default_def Buffer_str_default)
  with assms show ?thesis
    by (auto simp: TCPSender_send_empty_segment_def Let_def sd_agrees_def)
qed

text \<open>
  As long as fewer than \<open>2 ^ 31\<close> numbers are in flight, the loop removes exactly the segments that
  end at or before the acknowledged number.
\<close>

definition acked_upto :: "bytes \<Rightarrow> u64 \<Rightarrow> tcp_sender \<Rightarrow> tcp_sender \<Rightarrow> nat \<Rightarrow> nat \<Rightarrow> bool" where
  "acked_upto S n s s' a m \<longleftrightarrow>
     (\<exists>acked. sd_segments_outstanding s = acked @ sd_segments_outstanding s' \<and>
        seg_chain S (sd_isn s) a acked m \<and> (acked \<noteq> [] \<longrightarrow> m \<le> unat n)) \<and>
     sd_chain S s' m \<and>
     (sd_segments_outstanding s' \<noteq> [] \<longrightarrow> unat n < m + unat (TCPSegment_length_in_sequence_space
        (hd (sd_segments_outstanding s'))))"

lemma acked_upto_Cons:
  assumes upto: "acked_upto S n s' t (a + unat (TCPSegment_length_in_sequence_space seg)) m"
    and s: "sd_segments_outstanding s = seg # sd_segments_outstanding s'" "sd_isn s' = sd_isn s"
    and c: "seg_chain S (sd_isn s) a (sd_segments_outstanding s) e"
    and n: "a + unat (TCPSegment_length_in_sequence_space seg) \<le> unat n"
  shows "acked_upto S n s t a m"
proof -
  obtain acked where acked: "sd_segments_outstanding s' = acked @ sd_segments_outstanding t"
    "seg_chain S (sd_isn s) (a + unat (TCPSegment_length_in_sequence_space seg)) acked m"
    "acked \<noteq> [] \<longrightarrow> m \<le> unat n"
    using upto s(2) by (auto simp: acked_upto_def)
  have "sd_segments_outstanding s = (seg # acked) @ sd_segments_outstanding t"
    "seg_chain S (sd_isn s) a (seg # acked) m" "m \<le> unat n"
    using s c n acked by (cases acked, auto)+
  with upto show ?thesis unfolding acked_upto_def by blast
qed

lemma pop_acked_exact:
  assumes "sd_chain S s a" "unat (sd_next_seqno s) \<le> length S + 2" "length S + 2 ^ 33 \<le> 2 ^ 64"
    and "unat (sd_bytes_in_flight s) < 2 ^ 31"
  shows "\<exists>m. acked_upto S n s (pop_acked n s) a m"
  using assms
proof (induction n s arbitrary: a rule: pop_acked.induct)
  case (1 n s)
  show ?case
  proof (cases "sd_segments_outstanding s")
    case Nil
    with 1(2) show ?thesis
      by (auto simp: pop_acked.simps [of _ s] acked_upto_def sd_chain_def)
  next
    case (Cons seg rest)
    let ?l = "TCPSegment_length_in_sequence_space seg"
    let ?s' = "s\<lparr>sd_bytes_in_flight := sd_bytes_in_flight s - ?l, sd_segments_outstanding := rest,
      sd_time_elapsed := 0, sd_rto := sd_initial_retransmission_timeout s,
      sd_consecutive_retransmissions := 0\<rparr>"
    let ?e = "unat (sd_next_seqno s)"
    have c: "seg_chain S (sd_isn s) a (seg # rest) ?e" "unat (sd_bytes_in_flight s) = ?e - a"
      using 1(2) Cons by (simp_all add: sd_chain_def)
    then have r: "seg_chain S (sd_isn s) (a + unat ?l) rest ?e" "a + unat ?l \<le> ?e"
      using seg_chain_le by fastforce+
    have bif: "unat (sd_bytes_in_flight s - ?l) = unat (sd_bytes_in_flight s) - unat ?l"
      using c r by (intro unat_minus_exact) simp
    then have s': "sd_chain S ?s' (a + unat ?l)" using c r by (simp add: sd_chain_def)
    have "unwrap (th_seqno (ts_header seg)) (sd_isn s) (sd_next_seqno s) = word_of_nat a"
      using c r 1(3-5) by (auto simp: segment_of_def seqno.dec_enc_nat unat_of_nat)
    then have fin: "unat (unwrap (th_seqno (ts_header seg)) (sd_isn s) (sd_next_seqno s) + ?l) = a + unat ?l"
      using r 1(3,4) by (simp add: unat_word_ariths unat_of_nat)
    show ?thesis
    proof (cases "a + unat ?l \<le> unat n")
      case True
      then obtain m where "acked_upto S n ?s' (pop_acked n ?s') (a + unat ?l) m"
        using 1(1) [OF Cons _ s'] 1(3-5) bif fin less_imp_diff_less [OF 1(5)]
        by (auto simp: word_le_nat_alt)
      then have "acked_upto S n s (pop_acked n ?s') a m"
        by (rule acked_upto_Cons) (use Cons c(1) True in auto)
      with Cons True fin show ?thesis by (auto simp: pop_acked.simps [of _ s] word_le_nat_alt)
    next
      case False
      with Cons fin 1(2) show ?thesis
        by (auto simp: pop_acked.simps [of _ s] word_le_nat_alt acked_upto_def)
    qed
  qed
qed

section \<open>The window of the receiver\<close>

text \<open>What one call of \<^verbatim>\<open>fill_window\<close> may send: the free space, or one probe number when it is zero.\<close>

lemma fill_window_sends:
  assumes agr: "sd_agrees S s" and syn: "sd_syn_sent s"
  shows "unat (sd_next_seqno (TCPSender_fill_window s)) \<le> unat (sd_next_seqno s) +
    (if sd_receiver_window_size s = 0 \<and> sd_receiver_free_space s = 0 then 1
     else unat (sd_receiver_free_space s))"
  using syn
proof (induct rule: fill_window_cases)
  case loop
  then show ?case using fill_loop_agrees [OF agr syn loop(1,2)] by auto
next
  case fin
  then show ?case
    by (simp add: TCPSegment_length_in_sequence_space_def Buffer_str_default unat_word_ariths)
next
  case probe
  let ?p = "ByteStream_peek_output (sd_stream s) 1"
  have "bs_wf (sd_stream s)" using agr by (simp add: sd_agrees_def stream_of_def)
  then have "length ?p \<le> 1" by (simp add: ByteStream_peek_buffer)
  then have "unat (TCPSegment_length_in_sequence_space (segment_with False False (Buffer_new ?p))) \<le> 1"
    by (simp add: TCPSegment_length_in_sequence_space_def Buffer_str_new size_u64_def unat_of_nat
        le_trans [OF mod_less_eq_dividend])
  then show ?case using probe
    by (simp add: unat_word_ariths le_trans [OF mod_less_eq_dividend])
qed simp

lemma ucast_u16_u64: "ucast (ucast w :: u64) = (w :: u16)"
  by transfer simp

text \<open>
  The free space that a valid acknowledgment of outstanding data leaves: the right edge of the
  window minus the next number to send, cut to 16 bits.
\<close>

lemma ack_noted_free_space:
  assumes agr: "sd_agrees S s" and near: "unat (sd_bytes_in_flight s) < 2 ^ 31"
    and out: "sd_segments_outstanding s \<noteq> []" and valid: "n \<le> sd_next_seqno s"
  shows "sd_receiver_free_space (ack_noted s n w) = ucast (n + ucast w - sd_next_seqno s)"
proof -
  let ?s0 = "s\<lparr>sd_receiver_window_size := w, sd_receiver_free_space := w\<rparr>"
  let ?s1 = "pop_acked n ?s0" and ?e = "unat (sd_next_seqno s)"
  have S: "length S + 2 ^ 33 \<le> 2 ^ 64" "?e \<le> length S + 2"
    using agr by (auto simp: sd_agrees_def stream_of_def)
  obtain a where a: "sd_chain S ?s0 a" using sd_agrees_chain [OF agr] by auto
  then obtain m where m: "acked_upto S n ?s0 ?s1 a m"
    using pop_acked_exact [of S ?s0 a n] S near by auto
  have fr: "sd_isn ?s1 = sd_isn s" "sd_next_seqno ?s1 = sd_next_seqno s"
    "sd_receiver_free_space ?s1 = w"
    using pop_acked_frame [of ?s0 n] by (simp_all add: pop_frame_def)
  have c: "seg_chain S (sd_isn s) m (sd_segments_outstanding ?s1) ?e"
    "unat (sd_bytes_in_flight ?s1) = ?e - m"
    using m fr by (simp_all add: acked_upto_def sd_chain_def)
  then have me: "m \<le> ?e" using seg_chain_le by fastforce
  show ?thesis
  proof (cases "sd_segments_outstanding ?s1")
    case Nil
    then have "?e \<le> unat n" using m c out by (auto simp: acked_upto_def)
    with valid have "n = sd_next_seqno s" by (simp add: word_le_nat_alt word_unat_eq_iff)
    then show ?thesis using Nil fr ucast_u16_u64 [of w] by (simp add: ack_noted_def Let_def)
  next
    case (Cons seg rest)
    have "unat (sd_bytes_in_flight ?s1) < 2 ^ 31"
      using near c a m seg_chain_le [of S "sd_isn s" a _ m] by (fastforce simp: sd_chain_def acked_upto_def)
    then have "unwrap (th_seqno (ts_header seg)) (sd_isn s) (sd_next_seqno s) = word_of_nat m"
      using c Cons me S by (auto simp: segment_of_def seqno.dec_enc_nat unat_of_nat)
    moreover have "sd_bytes_in_flight ?s1 = sd_next_seqno s - word_of_nat m"
    proof -
      have "unat (word_of_nat m :: u64) = m" using me S by (simp add: unat_of_nat)
      then show ?thesis using me c(2) by (simp add: word_unat_eq_iff unat_minus_exact)
    qed
    ultimately have "n + ucast w - unwrap (th_seqno (ts_header seg)) (sd_isn s) (sd_next_seqno s)
        - sd_bytes_in_flight ?s1 = n + ucast w - sd_next_seqno s"
      by simp
    moreover have "sd_receiver_free_space (ack_noted s n w) = ucast (n + ucast w
        - unwrap (th_seqno (ts_header seg)) (sd_isn s) (sd_next_seqno s) - sd_bytes_in_flight ?s1)"
      using Cons fr by (simp add: ack_noted_def Let_def)
    ultimately show ?thesis by metis
  qed
qed

lemma outstanding_syn:
  assumes "sd_agrees S s" "sd_segments_outstanding s \<noteq> []"
  shows "sd_syn_sent s"
proof (rule ccontr)
  assume "\<not> sd_syn_sent s"
  then have "unat (sd_next_seqno s) = 0" using assms(1) by (auto simp: sd_agrees_def)
  moreover obtain a where "seg_chain S (sd_isn s) a (sd_segments_outstanding s) (unat (sd_next_seqno s))"
    using sd_agrees_chain [OF assms(1)] by (auto simp: sd_chain_def)
  ultimately show False using assms(2) seg_chain_le by fastforce
qed

lemma ack_received_window:
  assumes agr: "sd_agrees S s" and near: "unat (sd_bytes_in_flight s) < 2 ^ 31"
    and out: "sd_segments_outstanding s \<noteq> []"
    and n: "n = unwrap ackno (sd_isn s) (sd_next_seqno s)" and valid: "ack_valid stale s n"
    and room: "unat (sd_next_seqno s) \<le> unat n + unat w"
  shows "unat (sd_next_seqno (TCPSender_ack_received stale s ackno w)) \<le> unat n + max 1 (unat w)"
proof -
  let ?t = "ack_noted s n w"
  have le: "n \<le> sd_next_seqno s" using valid by (simp add: ack_valid_def)
  have syn: "sd_syn_sent s" by (rule outstanding_syn [OF agr out])
  have S: "unat (sd_next_seqno s) + 2 ^ 32 \<le> 2 ^ 64"
    using agr by (auto simp: sd_agrees_def stream_of_def)
  have w: "unat (ucast w :: u64) = unat w" "unat w < 2 ^ 16" using unat_u16_less by (simp_all add: unat_ucast_up)
  have "unat (n + ucast w) = unat n + unat w"
    using S le w by (subst unat_plus_exact) (simp_all add: word_le_nat_alt)
  then have "unat (n + ucast w - sd_next_seqno s) = unat n + unat w - unat (sd_next_seqno s)"
    using room by (subst unat_minus_exact) simp_all
  then have "unat (sd_receiver_free_space ?t) = unat n + unat w - unat (sd_next_seqno s)"
    using ack_noted_free_space [OF agr near out le, of w] le w
    by (simp add: unsigned_ucast_eq take_bit_eq_mod word_le_nat_alt)
  with fill_window_sends [OF ack_noted_agrees [OF agr, of n w]] syn n valid room le show ?thesis
    by (auto simp: ack_received_eq Let_def ack_noted_frame word_le_nat_alt word_unat_eq_iff
        split: if_splits)
qed

section \<open>Reachable senders\<close>

text \<open>
  The senders of a connection that transmits the stream \<open>S\<close>: the application writes \<open>S\<close> piece by
  piece and ends it, the window is filled, acknowledgments with any number and any window arrive,
  time passes, and the owner takes segments from the front of the outgoing queue.
\<close>

inductive sender_reach :: "bytes \<Rightarrow> tcp_sender \<Rightarrow> bool" for S where
  start: "length S + 2 ^ 33 \<le> 2 ^ 64 \<Longrightarrow> sender_reach S (TCPSender_new capacity timeout fixed rand)"
| fill: "sender_reach S s \<Longrightarrow> sender_reach S (TCPSender_fill_window s)"
| ack: "sender_reach S s \<Longrightarrow> sender_reach S (TCPSender_ack_received stale s ackno win)"
| tick: "sender_reach S s \<Longrightarrow> TCPSender_tick s ms = Inr s' \<Longrightarrow> sender_reach S s'"
| empty: "sender_reach S s \<Longrightarrow> sd_syn_sent s \<Longrightarrow> sender_reach S (TCPSender_send_empty_segment s)"
| put: "sender_reach S s \<Longrightarrow> take (length d) (drop (unat (bs_nwritten (sd_stream s))) S) = d \<Longrightarrow>
    sender_reach S (s\<lparr>sd_stream := fst (ByteStream_write (sd_stream s) d)\<rparr>)"
| finish: "sender_reach S s \<Longrightarrow> unat (bs_nwritten (sd_stream s)) = length S \<Longrightarrow>
    sender_reach S (s\<lparr>sd_stream := ByteStream_end_input (sd_stream s)\<rparr>)"
| take: "sender_reach S s \<Longrightarrow> sender_reach S (s\<lparr>sd_segments_out := drop k (sd_segments_out s)\<rparr>)"

lemma sender_new_agrees:
  "length S + 2 ^ 33 \<le> 2 ^ 64 \<Longrightarrow> sd_agrees S (TCPSender_new capacity timeout fixed rand)"
  by (simp add: sd_agrees_def sd_queue_def sd_chain_def TCPSender_new_def stream_of_def
      ByteStream_new_def wf_intros bs_wf_def)

lemma sender_write_agrees:
  assumes "sd_agrees S s" "take (length d) (drop (unat (bs_nwritten (sd_stream s))) S) = d"
  shows "sd_agrees S (s\<lparr>sd_stream := fst (ByteStream_write (sd_stream s) d)\<rparr>)"
proof -
  have "stream_of S (fst (ByteStream_write (sd_stream s) d))"
    using assms by (intro stream_of_write) (simp_all add: sd_agrees_def)
  moreover have "bs_nread (fst (ByteStream_write (sd_stream s) d)) = bs_nread (sd_stream s)"
    by (simp add: stream_simps)
  ultimately show ?thesis using assms(1) by (simp add: sd_agrees_def)
qed

lemma sender_close_agrees:
  assumes "sd_agrees S s" "unat (bs_nwritten (sd_stream s)) = length S"
  shows "sd_agrees S (s\<lparr>sd_stream := ByteStream_end_input (sd_stream s)\<rparr>)"
  using assms by (simp add: sd_agrees_def stream_of_def stream_simps bs_wf_def ByteStream_end_input_def)

lemma sender_tick_agrees: "sd_agrees S s \<Longrightarrow> TCPSender_tick s ms = Inr s' \<Longrightarrow> sd_agrees S s'"
  using tick_agrees [of S s ms] by fastforce

lemma sender_take_agrees:
  "sd_agrees S s \<Longrightarrow> sd_agrees S (s\<lparr>sd_segments_out := drop k (sd_segments_out s)\<rparr>)"
  by (auto simp: sd_agrees_def list_all_iff dest: in_set_dropD)

lemma sender_reach_agrees: "sender_reach S s \<Longrightarrow> sd_agrees S s"
  by (induction rule: sender_reach.induct)
    (blast intro: sender_new_agrees fill_window_agrees ack_received_agrees sender_tick_agrees
      send_empty_agrees sender_write_agrees sender_close_agrees sender_take_agrees)+

lemma sender_reach_bound: "sender_reach S s \<Longrightarrow> unat (sd_next_seqno s) \<le> length S + 2"
  by (drule sender_reach_agrees) (auto simp: sd_agrees_def stream_of_def)

text \<open>The first call of \<^verbatim>\<open>fill_window\<close> sends the SYN.\<close>

definition syn_segment :: "WrappingInt32 \<Rightarrow> tcp_segment" where
  "syn_segment isn =
     TCPSegment_default\<lparr>ts_header := TCPHeader_default\<lparr>th_seqno := isn, th_syn := True\<rparr>,
       ts_payload := Buffer_default\<rparr>"

lemma syn_segment_length [simp]: "TCPSegment_length_in_sequence_space (syn_segment isn) = 1"
  by (simp add: syn_segment_def TCPSegment_length_in_sequence_space_def Buffer_str_default
      size_u64_def TCPHeader_default_def)

lemma sender_isn_new [simp]:
  "sd_isn (TCPSender_new capacity timeout fixed rand)
     = (case fixed of Some i \<Rightarrow> i | None \<Rightarrow> rand)"
  by (simp add: TCPSender_new_def)

lemma fill_window_new:
  "TCPSender_fill_window (TCPSender_new capacity timeout fixed rand) =
     (let s = TCPSender_new capacity timeout fixed rand; seg = syn_segment (sd_isn s)
      in s\<lparr>sd_syn_sent := True, sd_next_seqno := 1, sd_bytes_in_flight := 1,
           sd_receiver_free_space := - 1, sd_segments_out := [seg],
           sd_segments_outstanding := [seg], sd_timer_running := True, sd_time_elapsed := 0\<rparr>)"
  by (simp add: TCPSender_fill_window_def TCPSender_new_def send_segment_def segment_with_def
      syn_segment_def Let_def TCPSegment_length_in_sequence_space_def size_u64_def
      Buffer_str_default TCPSegment_default_def TCPHeader_default_def)

section \<open>Properties\<close>

text \<open>
  C7: Everything the sender queues for transmission belongs to its stream: each segment in the
  outgoing queue of a reachable sender carries exactly the bytes of the stream at its sequence
  number, the SYN only at number zero and the FIN only at the end of the stream.
\<close>

theorem TCPSender_segments_faithful:
  assumes "sender_reach S s" and "seg \<in> set (sd_segments_out s)"
  shows "\<exists>a. segment_of S (sd_isn s) a seg"
  using sender_reach_agrees [OF assms(1)] assms(2) by (auto simp: sd_agrees_def list_all_iff)

theorem TCPSender_segments_faithful_witness:
  "\<exists>a. segment_of [1, 2] (WrappingInt32 7) a
     (hd (sd_segments_out (TCPSender_fill_window (TCPSender_new 10 1000 None (WrappingInt32 7)))))"
proof -
  let ?s = "TCPSender_fill_window (TCPSender_new 10 1000 None (WrappingInt32 7))"
  have "sender_reach [1, 2] ?s" by (intro sender_reach.intros) simp
  moreover have "hd (sd_segments_out ?s) \<in> set (sd_segments_out ?s)" "sd_isn ?s = WrappingInt32 7"
    by (simp_all add: fill_window_new Let_def)
  ultimately show ?thesis using TCPSender_segments_faithful [of "[1, 2]" ?s] by simp
qed

text \<open>
  C9: The queue of outstanding segments covers, without gap or overlap, the sequence numbers from
  some \<open>a\<close> up to the next number to send; each of its segments belongs to the stream, takes at least
  one number and at most 1000 bytes of payload; \<^verbatim>\<open>bytes_in_flight\<close> is the count of these numbers, and
  the retransmission timer runs exactly while there are outstanding segments.
\<close>

theorem TCPSender_outstanding_exact:
  assumes "sender_reach S s"
  shows "\<exists>a. seg_chain S (sd_isn s) a (sd_segments_outstanding s) (unat (sd_next_seqno s)) \<and>
      unat (TCPSender_bytes_in_flight s) = unat (TCPSender_next_seqno_absolute s) - a \<and>
      (sd_timer_running s \<longleftrightarrow> sd_segments_outstanding s \<noteq> [])"
  using sd_agrees_chain [OF sender_reach_agrees [OF assms]] sender_reach_agrees [OF assms]
  by (auto simp: sd_chain_def TCPSender_bytes_in_flight_def TCPSender_next_seqno_absolute_def
      sd_agrees_def sd_queue_def)

theorem TCPSender_outstanding_exact_witness:
  "sd_timer_running (TCPSender_fill_window (TCPSender_new 10 1000 None (WrappingInt32 7)))"
proof -
  let ?s = "TCPSender_fill_window (TCPSender_new 10 1000 None (WrappingInt32 7))"
  have "sender_reach [1, 2] ?s" by (intro sender_reach.intros) simp
  moreover have "sd_segments_outstanding ?s \<noteq> []" by (simp add: fill_window_new Let_def TCPSender_bytes_in_flight_def)
  ultimately show ?thesis using TCPSender_outstanding_exact [of "[1, 2]" ?s] by auto
qed

text \<open>
  C17: An acknowledgment removes exactly what it covers. While fewer than \<open>2 ^ 31\<close> numbers are in
  flight, the removal loop splits the outstanding segments into an acknowledged front part, which
  ends at or before the acknowledged number, and a rest whose first segment ends after it; the count
  of bytes in flight is that of the rest.
\<close>

theorem TCPSender_ack_removes_exactly:
  assumes "sender_reach S s" and "unat (TCPSender_bytes_in_flight s) < 2 ^ 31"
  shows "\<exists>a m acked. seg_chain S (sd_isn s) a acked m \<and>
     sd_segments_outstanding s = acked @ sd_segments_outstanding (pop_acked n s) \<and>
     seg_chain S (sd_isn s) m (sd_segments_outstanding (pop_acked n s)) (unat (sd_next_seqno s)) \<and>
     unat (sd_bytes_in_flight (pop_acked n s)) = unat (sd_next_seqno s) - m \<and>
     (acked \<noteq> [] \<longrightarrow> m \<le> unat n) \<and>
     (sd_segments_outstanding (pop_acked n s) \<noteq> [] \<longrightarrow>
        unat n < m + unat (TCPSegment_length_in_sequence_space
          (hd (sd_segments_outstanding (pop_acked n s)))))"
proof -
  note agr = sender_reach_agrees [OF assms(1)]
  obtain a where a: "sd_chain S s a" using sd_agrees_chain [OF agr] by blast
  obtain m where m: "acked_upto S n s (pop_acked n s) a m"
    using pop_acked_exact [OF a sender_reach_bound [OF assms(1)]] agr assms(2)
    by (auto simp: sd_agrees_def TCPSender_bytes_in_flight_def)
  then obtain acked where "sd_segments_outstanding s = acked @ sd_segments_outstanding (pop_acked n s)"
    "seg_chain S (sd_isn s) a acked m" "acked \<noteq> [] \<longrightarrow> m \<le> unat n"
    by (auto simp: acked_upto_def)
  moreover have "sd_isn (pop_acked n s) = sd_isn s" "sd_next_seqno (pop_acked n s) = sd_next_seqno s"
    using pop_acked_frame [of s n] by (simp_all add: pop_frame_def)
  ultimately show ?thesis
    using m by (intro exI [of _ a] exI [of _ m] exI [of _ acked]) (simp add: acked_upto_def sd_chain_def)
qed

theorem TCPSender_ack_removes_exactly_witness:
  "sd_segments_outstanding (pop_acked 1
     (TCPSender_fill_window (TCPSender_new 10 1000 None (WrappingInt32 7)))) = []"
proof -
  let ?s = "TCPSender_fill_window (TCPSender_new 10 1000 None (WrappingInt32 7))"
  have "sender_reach [1, 2] ?s" by (intro sender_reach.intros) simp
  moreover have "unat (TCPSender_bytes_in_flight ?s) < 2 ^ 31" by (simp add: fill_window_new Let_def TCPSender_bytes_in_flight_def)
  ultimately obtain m where
    "seg_chain [1, 2] (sd_isn ?s) m (sd_segments_outstanding (pop_acked 1 ?s)) (unat (sd_next_seqno ?s))"
    "sd_segments_outstanding (pop_acked 1 ?s) \<noteq> [] \<longrightarrow> 1 < m + unat (TCPSegment_length_in_sequence_space
       (hd (sd_segments_outstanding (pop_acked 1 ?s))))"
    using TCPSender_ack_removes_exactly [of "[1, 2]" ?s 1] by auto
  moreover have "unat (sd_next_seqno ?s) = 1" by (simp add: fill_window_new Let_def TCPSender_bytes_in_flight_def)
  ultimately show ?thesis
    by (cases "sd_segments_outstanding (pop_acked 1 ?s)") (auto dest: seg_chain_le)
qed

text \<open>When the timer of the oldest outstanding segment expires, and when that counts as congestion.\<close>

definition timer_expired :: "tcp_sender \<Rightarrow> u64 \<Rightarrow> bool" where
  "timer_expired s ms \<longleftrightarrow>
     sd_segments_outstanding s \<noteq> [] \<and> sd_time_elapsed s + ucast ms \<ge> sd_rto s"

definition retx_counted :: "tcp_sender \<Rightarrow> bool" where
  "retx_counted s \<longleftrightarrow>
     sd_receiver_window_size s \<noteq> 0 \<or> th_syn (ts_header (hd (sd_segments_outstanding s)))"

lemma fill_window_maximal:
  assumes agr: "sd_agrees S s" and syn: "sd_syn_sent s" and win: "sd_receiver_window_size s \<noteq> 0"
    and acked: "\<forall>seg\<in>set (sd_segments_outstanding s). \<not> th_syn (ts_header seg)"
  shows "sd_receiver_free_space (TCPSender_fill_window s) = 0 \<or>
    ByteStream_buffer_empty (sd_stream (TCPSender_fill_window s)) \<and>
    (ByteStream_eof (sd_stream (TCPSender_fill_window s)) \<longrightarrow> sd_fin_sent (TCPSender_fill_window s))"
proof -
  have st: "stream_of S (sd_stream s)" using agr by (simp add: sd_agrees_def)
  have hd: "\<not> (sd_segments_outstanding s \<noteq> [] \<and> th_syn (ts_header (hd (sd_segments_outstanding s))))"
    using acked by (cases "sd_segments_outstanding s") simp_all
  consider (fin) "sd_fin_sent s" | (idle) "bs_size (sd_stream s) = 0" "\<not> ByteStream_eof (sd_stream s)"
    | (go) "\<not> sd_fin_sent s" "bs_size (sd_stream s) \<noteq> 0 \<or> ByteStream_eof (sd_stream s)"
    by blast
  then show ?thesis
  proof cases
    case fin
    then have "unat (bs_size (sd_stream s)) = 0"
      using agr st stream_of_size [OF st] by (simp add: sd_agrees_def stream_of_def)
    then show ?thesis
      using fin syn by (simp add: TCPSender_fill_window_def ByteStream_buffer_empty_def unat_eq_zero)
  next
    case idle
    then show ?thesis using syn
      by (simp add: TCPSender_fill_window_def ByteStream_buffer_empty_def ByteStream_buffer_size_def)
  next
    case go
    then have "TCPSender_fill_window s = fill_loop s"
      using syn win hd by (auto simp: TCPSender_fill_window_def ByteStream_buffer_size_def)
    then show ?thesis using fill_loop_agrees [OF agr syn go] by simp
  qed
qed

text \<open>
  C8: The retransmission timer is sound: in a reachable sender \<^verbatim>\<open>tick\<close> never reads from an empty
  queue. It retransmits the oldest outstanding segment exactly when there is one and the time since
  the last start reaches the timeout; it then doubles the timeout and counts the retransmission
  unless the receiver's window is closed, and in every case leaves the rest of the sender alone.
\<close>

theorem TCPSender_tick_retransmits:
  assumes "sender_reach S s" and "expired = timer_expired s ms" and "counted = retx_counted s"
  shows "TCPSender_tick s ms = Inr
    (s\<lparr>sd_segments_out := sd_segments_out s @ (if expired then [hd (sd_segments_outstanding s)] else []),
       sd_time_elapsed := (if expired then 0 else if sd_segments_outstanding s \<noteq> []
         then sd_time_elapsed s + ucast ms else sd_time_elapsed s),
       sd_rto := (if expired \<and> counted then push_bit 1 (sd_rto s) else sd_rto s),
       sd_consecutive_retransmissions := sd_consecutive_retransmissions s
         + (if expired \<and> counted then 1 else 0)\<rparr>)"
proof -
  have "sd_timer_running s \<longleftrightarrow> sd_segments_outstanding s \<noteq> []"
    using sender_reach_agrees [OF assms(1)] by (simp add: sd_agrees_def sd_queue_def)
  then show ?thesis
    by (cases "sd_segments_outstanding s")
      (simp_all add: TCPSender_tick_def timer_expired_def retx_counted_def assms(2,3) Let_def)
qed

theorem TCPSender_tick_retransmits_witness:
  "\<exists>s'. TCPSender_tick (TCPSender_fill_window (TCPSender_new 10 1000 None (WrappingInt32 7))) 1000
     = Inr s' \<and> sd_rto s' = 2000 \<and> length (sd_segments_out s') = 2"
proof -
  let ?s = "TCPSender_fill_window (TCPSender_new 10 1000 None (WrappingInt32 7))"
  have "sender_reach [1, 2] ?s" by (intro sender_reach.intros) simp
  moreover have "sd_segments_outstanding ?s = [syn_segment (WrappingInt32 7)]"
    "sd_segments_out ?s = [syn_segment (WrappingInt32 7)]"
    "sd_rto ?s = 1000" "sd_time_elapsed ?s = 0" "th_syn (ts_header (syn_segment (WrappingInt32 7)))"
    by (simp_all add: fill_window_new Let_def) (simp_all add: TCPSender_new_def syn_segment_def)
  moreover from this have "timer_expired ?s 1000" "retx_counted ?s"
    by (simp_all add: timer_expired_def retx_counted_def)
  ultimately show ?thesis
    using TCPSender_tick_retransmits [of "[1, 2]" ?s True 1000 True] by simp
qed

text \<open>
  C18: The sender respects the window. When a valid acknowledgment of outstanding data arrives whose
  window does not retract numbers already sent, the sender fills the window at most up to the
  acknowledged number plus the window; a closed window is probed with a single number.
\<close>

theorem TCPSender_respects_window:
  assumes "sender_reach S s" and "unat (TCPSender_bytes_in_flight s) < 2 ^ 31"
    and "sd_segments_outstanding s \<noteq> []"
    and "n = unwrap ackno (sd_isn s) (sd_next_seqno s)" and "ack_valid stale s n"
    and "unat (sd_next_seqno s) \<le> unat n + unat win"
  shows "unat (sd_next_seqno (TCPSender_ack_received stale s ackno win)) \<le> unat n + max 1 (unat win)"
  using assms by (intro ack_received_window [OF sender_reach_agrees])
    (simp_all add: TCPSender_bytes_in_flight_def)

theorem TCPSender_respects_window_witness:
  "unat (sd_next_seqno (TCPSender_ack_received (WrappingInt32 0)
     (TCPSender_fill_window (TCPSender_new 10 1000 None (WrappingInt32 7))) (WrappingInt32 8) 3)) \<le> 1 + 3"
proof -
  let ?s = "TCPSender_fill_window (TCPSender_new 10 1000 None (WrappingInt32 7))"
  have "sender_reach [1, 2] ?s" by (intro sender_reach.intros) simp
  moreover have s: "sd_segments_outstanding ?s = [syn_segment (WrappingInt32 7)]" "sd_next_seqno ?s = 1"
    "sd_isn ?s = WrappingInt32 7" "sd_bytes_in_flight ?s = 1"
    by (simp_all add: fill_window_new Let_def)
  moreover have "unwrap (WrappingInt32 8) (WrappingInt32 7) 1 = 1"
    "unwrap (WrappingInt32 7) (WrappingInt32 7) 1 = 0"
    by code_simp+
  moreover from this have "ack_valid (WrappingInt32 0) ?s 1"
    by (simp add: ack_valid_def s syn_segment_def)
  ultimately show ?thesis
    using TCPSender_respects_window [of "[1, 2]" ?s 1 "WrappingInt32 8" "WrappingInt32 0" 3]
    by (simp add: TCPSender_bytes_in_flight_def)
qed

text \<open>
  C19: Filling an open window is maximal: once the SYN is acknowledged and the window is not closed,
  \<^verbatim>\<open>fill_window\<close> either uses the whole free space, or sends everything that was written, and then also
  the FIN if the stream has ended.
\<close>

theorem TCPSender_fill_window_maximal:
  assumes "sender_reach S s" and "sd_syn_sent s" and "sd_receiver_window_size s \<noteq> 0"
    and "\<forall>seg\<in>set (sd_segments_outstanding s). \<not> th_syn (ts_header seg)"
  shows "sd_receiver_free_space (TCPSender_fill_window s) = 0 \<or>
    ByteStream_buffer_empty (sd_stream (TCPSender_fill_window s)) \<and>
    (ByteStream_eof (sd_stream (TCPSender_fill_window s)) \<longrightarrow> sd_fin_sent (TCPSender_fill_window s))"
  using fill_window_maximal [OF sender_reach_agrees [OF assms(1)] assms(2-4)] by simp

theorem TCPSender_fill_window_maximal_witness:
  "sd_receiver_free_space (TCPSender_fill_window (TCPSender_ack_received (WrappingInt32 0)
      (TCPSender_fill_window (TCPSender_new 10 1000 None (WrappingInt32 7))) (WrappingInt32 8) 3)) = 0 \<or>
    ByteStream_buffer_empty (sd_stream (TCPSender_fill_window (TCPSender_ack_received (WrappingInt32 0)
      (TCPSender_fill_window (TCPSender_new 10 1000 None (WrappingInt32 7))) (WrappingInt32 8) 3)))"
proof -
  let ?s = "TCPSender_ack_received (WrappingInt32 0)
      (TCPSender_fill_window (TCPSender_new 10 1000 None (WrappingInt32 7))) (WrappingInt32 8) 3"
  have "sender_reach [1, 2] ?s" by (intro sender_reach.intros) simp
  moreover have "sd_syn_sent ?s" "sd_receiver_window_size ?s \<noteq> 0" "sd_segments_outstanding ?s = []"
    by code_simp+
  ultimately show ?thesis using TCPSender_fill_window_maximal [of "[1, 2]" ?s] by auto
qed

text \<open>
  C36: A receiver that shrinks its window makes the free space wrap around. After four bytes were sent
  into a window of four, an acknowledgment of the same number with a window of two leaves a free
  space of 65534 instead of none, and the ten bytes written next are all sent: the sender then is at
  number 15 although the window ends at number 3.
\<close>

definition shrunken_window_run :: tcp_sender where
  "shrunken_window_run =
     (let isn = WrappingInt32 0;
          put = (\<lambda>d s. TCPSender_fill_window
            (s\<lparr>sd_stream := fst (ByteStream_write (sd_stream s) d)\<rparr>));
          s = TCPSender_fill_window (TCPSender_new 20 1000 (Some isn) isn);
          s = TCPSender_ack_received isn s (WrappingInt32 1) 4;
          s = put [1, 2, 3, 4] s;
          s = TCPSender_ack_received isn s (WrappingInt32 1) 2
      in put [5, 6, 7, 8, 9, 10, 11, 12, 13, 14] s)"


end
