(* ===== verification/Tcp_State.thy ===== *)
theory Tcp_State
  imports Tcp_Sender
begin

text \<open>
  The summaries of a connection's state, \<^verbatim>\<open>libsponge/tcp_helpers/tcp_state.{hh,cc}\<close>: the texts for
  the sender and the receiver, the official state names of the TCP specification, and the fact
  that the official states are told apart by their summaries.
\<close>

section \<open>Summaries\<close>

definition TCPReceiverStateSummary_ERROR :: string where
  "TCPReceiverStateSummary_ERROR = ''error (connection was reset)''"

definition TCPReceiverStateSummary_LISTEN :: string where
  "TCPReceiverStateSummary_LISTEN = ''waiting for SYN: ackno is empty''"

definition TCPReceiverStateSummary_SYN_RECV :: string where
  "TCPReceiverStateSummary_SYN_RECV =
     ''SYN received (ackno exists), and input to stream hasn't ended''"

definition TCPReceiverStateSummary_FIN_RECV :: string where
  "TCPReceiverStateSummary_FIN_RECV = ''input to stream has ended''"

definition TCPSenderStateSummary_ERROR :: string where
  "TCPSenderStateSummary_ERROR = ''error (connection was reset)''"

definition TCPSenderStateSummary_CLOSED :: string where
  "TCPSenderStateSummary_CLOSED = ''waiting for stream to begin (no SYN sent)''"

definition TCPSenderStateSummary_SYN_SENT :: string where
  "TCPSenderStateSummary_SYN_SENT = ''stream started but nothing acknowledged''"

definition TCPSenderStateSummary_SYN_ACKED :: string where
  "TCPSenderStateSummary_SYN_ACKED = ''stream ongoing''"

definition TCPSenderStateSummary_FIN_SENT :: string where
  "TCPSenderStateSummary_FIN_SENT = ''stream finished (FIN sent) but not fully acknowledged''"

definition TCPSenderStateSummary_FIN_ACKED :: string where
  "TCPSenderStateSummary_FIN_ACKED = ''stream finished and fully acknowledged''"

lemmas receiver_summary_defs =
  TCPReceiverStateSummary_ERROR_def TCPReceiverStateSummary_LISTEN_def
  TCPReceiverStateSummary_SYN_RECV_def TCPReceiverStateSummary_FIN_RECV_def

lemmas sender_summary_defs =
  TCPSenderStateSummary_ERROR_def TCPSenderStateSummary_CLOSED_def
  TCPSenderStateSummary_SYN_SENT_def TCPSenderStateSummary_SYN_ACKED_def
  TCPSenderStateSummary_FIN_SENT_def TCPSenderStateSummary_FIN_ACKED_def

definition receiver_state_summary :: "tcp_receiver \<Rightarrow> string" where
  "receiver_state_summary receiver =
     (if ByteStream_error (TCPReceiver_stream_out receiver) then TCPReceiverStateSummary_ERROR
      else if TCPReceiver_ackno receiver = None then TCPReceiverStateSummary_LISTEN
      else if ByteStream_input_ended (TCPReceiver_stream_out receiver)
      then TCPReceiverStateSummary_FIN_RECV
      else TCPReceiverStateSummary_SYN_RECV)"

definition sender_state_summary :: "tcp_sender \<Rightarrow> string" where
  "sender_state_summary sender =
     (if ByteStream_error (sd_stream sender) then TCPSenderStateSummary_ERROR
      else if TCPSender_next_seqno_absolute sender = 0 then TCPSenderStateSummary_CLOSED
      else if TCPSender_next_seqno_absolute sender = TCPSender_bytes_in_flight sender
      then TCPSenderStateSummary_SYN_SENT
      else if \<not> ByteStream_eof (sd_stream sender) then TCPSenderStateSummary_SYN_ACKED
      else if TCPSender_next_seqno_absolute sender < ByteStream_bytes_written (sd_stream sender) + 2
      then TCPSenderStateSummary_SYN_ACKED
      else if TCPSender_bytes_in_flight sender \<noteq> 0 then TCPSenderStateSummary_FIN_SENT
      else TCPSenderStateSummary_FIN_ACKED)"

section \<open>TCPState\<close>

datatype official_state =
    LISTEN | SYN_RCVD | SYN_SENT | ESTABLISHED | CLOSE_WAIT | LAST_ACK | FIN_WAIT_1 | FIN_WAIT_2
  | CLOSING | TIME_WAIT | CLOSED | RESET

record tcp_state =
  st_sender :: string
  st_receiver :: string
  st_active :: bool
  st_linger_after_streams_finish :: bool

definition TCPState_eq :: "tcp_state \<Rightarrow> tcp_state \<Rightarrow> bool" where
  "TCPState_eq a other \<longleftrightarrow> st_active a = st_active other \<and>
     st_linger_after_streams_finish a = st_linger_after_streams_finish other \<and>
     st_sender a = st_sender other \<and> st_receiver a = st_receiver other"

definition bool_to_string :: "bool \<Rightarrow> string" where
  "bool_to_string b = (if b then ''1'' else ''0'')"

definition TCPState_name :: "tcp_state \<Rightarrow> string" where
  "TCPState_name a =
     ''sender=`'' @ st_sender a @ ''`, receiver=`'' @ st_receiver a @ ''`, active='' @
     bool_to_string (st_active a) @ '', linger_after_streams_finish='' @
     bool_to_string (st_linger_after_streams_finish a)"

definition TCPState_of_official :: "official_state \<Rightarrow> tcp_state" where
  "TCPState_of_official state =
     (let st = \<lparr>st_sender = [], st_receiver = [], st_active = True,
                st_linger_after_streams_finish = True\<rparr>
      in case state of
           LISTEN \<Rightarrow> st\<lparr>st_receiver := TCPReceiverStateSummary_LISTEN,
                       st_sender := TCPSenderStateSummary_CLOSED\<rparr>
         | SYN_RCVD \<Rightarrow> st\<lparr>st_receiver := TCPReceiverStateSummary_SYN_RECV,
                         st_sender := TCPSenderStateSummary_SYN_SENT\<rparr>
         | SYN_SENT \<Rightarrow> st\<lparr>st_receiver := TCPReceiverStateSummary_LISTEN,
                         st_sender := TCPSenderStateSummary_SYN_SENT\<rparr>
         | ESTABLISHED \<Rightarrow> st\<lparr>st_receiver := TCPReceiverStateSummary_SYN_RECV,
                            st_sender := TCPSenderStateSummary_SYN_ACKED\<rparr>
         | CLOSE_WAIT \<Rightarrow> st\<lparr>st_receiver := TCPReceiverStateSummary_FIN_RECV,
                           st_sender := TCPSenderStateSummary_SYN_ACKED,
                           st_linger_after_streams_finish := False\<rparr>
         | LAST_ACK \<Rightarrow> st\<lparr>st_receiver := TCPReceiverStateSummary_FIN_RECV,
                         st_sender := TCPSenderStateSummary_FIN_SENT,
                         st_linger_after_streams_finish := False\<rparr>
         | CLOSING \<Rightarrow> st\<lparr>st_receiver := TCPReceiverStateSummary_FIN_RECV,
                        st_sender := TCPSenderStateSummary_FIN_SENT\<rparr>
         | FIN_WAIT_1 \<Rightarrow> st\<lparr>st_receiver := TCPReceiverStateSummary_SYN_RECV,
                           st_sender := TCPSenderStateSummary_FIN_SENT\<rparr>
         | FIN_WAIT_2 \<Rightarrow> st\<lparr>st_receiver := TCPReceiverStateSummary_SYN_RECV,
                           st_sender := TCPSenderStateSummary_FIN_ACKED\<rparr>
         | TIME_WAIT \<Rightarrow> st\<lparr>st_receiver := TCPReceiverStateSummary_FIN_RECV,
                          st_sender := TCPSenderStateSummary_FIN_ACKED\<rparr>
         | RESET \<Rightarrow> st\<lparr>st_receiver := TCPReceiverStateSummary_ERROR,
                      st_sender := TCPSenderStateSummary_ERROR,
                      st_linger_after_streams_finish := False, st_active := False\<rparr>
         | CLOSED \<Rightarrow> st\<lparr>st_receiver := TCPReceiverStateSummary_FIN_RECV,
                       st_sender := TCPSenderStateSummary_FIN_ACKED,
                       st_linger_after_streams_finish := False, st_active := False\<rparr>)"

definition TCPState_new :: "tcp_sender \<Rightarrow> tcp_receiver \<Rightarrow> bool \<Rightarrow> bool \<Rightarrow> tcp_state" where
  "TCPState_new sender receiver active linger =
     \<lparr>st_sender = sender_state_summary sender, st_receiver = receiver_state_summary receiver,
      st_active = active, st_linger_after_streams_finish = (if active then linger else False)\<rparr>"

section \<open>Properties\<close>

lemma summaries_distinct:
  "distinct [TCPReceiverStateSummary_ERROR, TCPReceiverStateSummary_LISTEN,
     TCPReceiverStateSummary_SYN_RECV, TCPReceiverStateSummary_FIN_RECV]"
  "distinct [TCPSenderStateSummary_ERROR, TCPSenderStateSummary_CLOSED,
     TCPSenderStateSummary_SYN_SENT, TCPSenderStateSummary_SYN_ACKED,
     TCPSenderStateSummary_FIN_SENT, TCPSenderStateSummary_FIN_ACKED]"
  by (simp_all add: receiver_summary_defs sender_summary_defs)

text \<open>
  The twelve official states have pairwise different summaries, so a connection's state, the
  texts it is described with and the comparison of two states identify at most one of them.
\<close>

theorem official_states_distinct:
  "TCPState_eq (TCPState_of_official a) (TCPState_of_official b) \<longleftrightarrow> a = b"
  using summaries_distinct
  by (cases a; cases b) (auto simp: TCPState_of_official_def TCPState_eq_def Let_def)

end
