(* ===== verification/Tcp_Connection.thy ===== *)
theory Tcp_Connection
  imports Tcp_State
begin

text \<open>
  An endpoint of a connection, \<^verbatim>\<open>libsponge/tcp_connection.{hh,cc}\<close>: the receiver, the sender, the
  queue of outgoing segments, the linger flag, the time since the last segment and the active
  flag; one definition per method, with the undefined reads of empty queues as faults.
\<close>

section \<open>State and operations\<close>

record tcp_connection =
  cn_cfg :: tcp_config
  cn_receiver :: tcp_receiver
  cn_sender :: tcp_sender
  cn_segments_out :: "tcp_segment list"
  cn_linger_after_streams_finish :: bool
  cn_time_since_last_segment_received :: u64
  cn_active :: bool

definition TCPConnection_new :: "tcp_config \<Rightarrow> WrappingInt32 \<Rightarrow> tcp_connection" where
  "TCPConnection_new cfg random_isn =
     \<lparr>cn_cfg = cfg, cn_receiver = TCPReceiver_new (tc_recv_capacity cfg),
      cn_sender = TCPSender_new (tc_send_capacity cfg) (tc_rt_timeout cfg) (tc_fixed_isn cfg)
        random_isn,
      cn_segments_out = [], cn_linger_after_streams_finish = True,
      cn_time_since_last_segment_received = 0, cn_active = True\<rparr>"

definition TCPConnection_remaining_outbound_capacity :: "tcp_connection \<Rightarrow> u64" where
  "TCPConnection_remaining_outbound_capacity c =
     ByteStream_remaining_capacity (sd_stream (cn_sender c))"

definition TCPConnection_bytes_in_flight :: "tcp_connection \<Rightarrow> u64" where
  "TCPConnection_bytes_in_flight c = TCPSender_bytes_in_flight (cn_sender c)"

definition TCPConnection_unassembled_bytes :: "tcp_connection \<Rightarrow> u64" where
  "TCPConnection_unassembled_bytes c = TCPReceiver_unassembled_bytes (cn_receiver c)"

definition TCPConnection_time_since_last_segment_received :: "tcp_connection \<Rightarrow> u64" where
  "TCPConnection_time_since_last_segment_received c = cn_time_since_last_segment_received c"

definition TCPConnection_active :: "tcp_connection \<Rightarrow> bool" where
  "TCPConnection_active c = cn_active c"

definition TCPConnection_inbound_stream :: "tcp_connection \<Rightarrow> byte_stream" where
  "TCPConnection_inbound_stream c = TCPReceiver_stream_out (cn_receiver c)"

definition TCPConnection_state :: "tcp_connection \<Rightarrow> tcp_state" where
  "TCPConnection_state c =
     TCPState_new (cn_sender c) (cn_receiver c) (TCPConnection_active c)
       (cn_linger_after_streams_finish c)"

text \<open>\<^verbatim>\<open>_receiver.stream_out().set_error()\<close> and \<^verbatim>\<open>_sender.stream_in().set_error()\<close>.\<close>

definition set_stream_errors :: "tcp_connection \<Rightarrow> tcp_connection" where
  "set_stream_errors c =
     (let re = tr_reassembler (cn_receiver c)
      in c\<lparr>cn_receiver := (cn_receiver c)
             \<lparr>tr_reassembler := re\<lparr>sr_output := ByteStream_set_error (sr_output re)\<rparr>\<rparr>,
           cn_sender := (cn_sender c)
             \<lparr>sd_stream := ByteStream_set_error (sd_stream (cn_sender c))\<rparr>\<rparr>)"

definition clean_shutdown :: "tcp_connection \<Rightarrow> tcp_connection" where
  "clean_shutdown c =
     (if ByteStream_input_ended (TCPReceiver_stream_out (cn_receiver c)) then
        if \<not> ByteStream_eof (sd_stream (cn_sender c))
        then c\<lparr>cn_linger_after_streams_finish := False\<rparr>
        else if TCPSender_bytes_in_flight (cn_sender c) = 0 then
          if \<not> cn_linger_after_streams_finish c \<or>
             TCPConnection_time_since_last_segment_received c \<ge> 10 * ucast (tc_rt_timeout (cn_cfg c))
          then c\<lparr>cn_active := False\<rparr>
          else c
        else c
      else c)"

definition stamp_segment :: "tcp_receiver \<Rightarrow> tcp_segment \<Rightarrow> tcp_segment" where
  "stamp_segment r seg =
     (case TCPReceiver_ackno r of
        None \<Rightarrow> seg
      | Some ackno \<Rightarrow>
          seg\<lparr>ts_header := (ts_header seg)
                \<lparr>th_ack := True, th_ackno := ackno, th_win := ucast (TCPReceiver_window_size r)\<rparr>\<rparr>)"

definition send_sender_segments :: "tcp_connection \<Rightarrow> tcp_connection" where
  "send_sender_segments c =
     (let queue = sd_segments_out (cn_sender c);
          c = c\<lparr>cn_sender := (cn_sender c)\<lparr>sd_segments_out := []\<rparr>\<rparr>;
          c = fold (\<lambda>seg c. c\<lparr>cn_segments_out :=
                      cn_segments_out c @ [stamp_segment (cn_receiver c) seg]\<rparr>) queue c
      in clean_shutdown c)"

definition unclean_shutdown :: "tcp_connection \<Rightarrow> tcp_connection outcome" where
  "unclean_shutdown c =
     (let c = set_stream_errors c; c = c\<lparr>cn_active := False\<rparr>
      in case sd_segments_out (cn_sender c) of
           [] \<Rightarrow> Inl Empty_queue_front
         | seg # rest \<Rightarrow>
             let c = c\<lparr>cn_sender := (cn_sender c)\<lparr>sd_segments_out := rest\<rparr>\<rparr>;
                 h = (ts_header seg)\<lparr>th_ack := True\<rparr>;
                 h = (case TCPReceiver_ackno (cn_receiver c) of
                        None \<Rightarrow> h | Some ackno \<Rightarrow> h\<lparr>th_ackno := ackno\<rparr>);
                 h = h\<lparr>th_win := ucast (TCPReceiver_window_size (cn_receiver c)), th_rst := True\<rparr>
             in Inr (c\<lparr>cn_segments_out := cn_segments_out c @ [seg\<lparr>ts_header := h\<rparr>]\<rparr>))"

definition TCPConnection_connect :: "tcp_connection \<Rightarrow> tcp_connection" where
  "TCPConnection_connect c =
     send_sender_segments (c\<lparr>cn_sender := TCPSender_fill_window (cn_sender c)\<rparr>)"

text \<open>
  \<open>stale\<close> is what the sender's validity test reads from an empty queue of outstanding segments.
\<close>

definition TCPConnection_segment_received ::
  "WrappingInt32 \<Rightarrow> tcp_connection \<Rightarrow> tcp_segment \<Rightarrow> tcp_connection outcome" where
  "TCPConnection_segment_received stale c seg =
     (if \<not> cn_active c then Inr c
      else
        let c = c\<lparr>cn_time_since_last_segment_received := 0\<rparr>;
            h = ts_header seg
        in if TCPReceiver_ackno (cn_receiver c) = None \<and>
              TCPSender_next_seqno_absolute (cn_sender c) = 0
           then
             if \<not> th_syn h then Inr c
             else obind (TCPReceiver_segment_received (cn_receiver c) seg) (\<lambda>(r, _).
                    Inr (TCPConnection_connect (c\<lparr>cn_receiver := r\<rparr>)))
           else
             let syn_sent = (TCPSender_next_seqno_absolute (cn_sender c) > 0 \<and>
                   TCPSender_bytes_in_flight (cn_sender c)
                     = TCPSender_next_seqno_absolute (cn_sender c) \<and>
                   TCPReceiver_ackno (cn_receiver c) = None)
             in if syn_sent \<and> Buffer_size (ts_payload seg) \<noteq> 0 then Inr c
                else if syn_sent \<and> \<not> th_ack h then
                  if th_syn h
                  then obind (TCPReceiver_segment_received (cn_receiver c) seg) (\<lambda>(r, _).
                         Inr (c\<lparr>cn_receiver := r,
                                cn_sender := TCPSender_send_empty_segment (cn_sender c)\<rparr>))
                  else Inr c
                else if syn_sent \<and> th_rst h
                then Inr ((set_stream_errors c)\<lparr>cn_active := False\<rparr>)
                else
                  obind (TCPReceiver_segment_received (cn_receiver c) seg) (\<lambda>(r, _).
                    let c = c\<lparr>cn_receiver := r\<rparr>;
                        c = c\<lparr>cn_sender :=
                                TCPSender_ack_received stale (cn_sender c) (th_ackno h) (th_win h)\<rparr>;
                        c = (if ByteStream_buffer_empty (sd_stream (cn_sender c)) \<and>
                                TCPSegment_length_in_sequence_space seg \<noteq> 0
                             then c\<lparr>cn_sender := TCPSender_send_empty_segment (cn_sender c)\<rparr>
                             else c)
                    in if th_rst h
                       then unclean_shutdown
                              (c\<lparr>cn_sender := TCPSender_send_empty_segment (cn_sender c)\<rparr>)
                       else Inr (send_sender_segments c)))"

definition TCPConnection_write :: "tcp_connection \<Rightarrow> bytes \<Rightarrow> tcp_connection \<times> u64" where
  "TCPConnection_write c data =
     (if data = [] then (c, 0)
      else
        let (stream', write_size) = ByteStream_write (sd_stream (cn_sender c)) data;
            c = c\<lparr>cn_sender := TCPSender_fill_window ((cn_sender c)\<lparr>sd_stream := stream'\<rparr>)\<rparr>
        in (send_sender_segments c, write_size))"

definition TCPConnection_tick :: "tcp_connection \<Rightarrow> u64 \<Rightarrow> tcp_connection outcome" where
  "TCPConnection_tick c ms_since_last_tick =
     (if \<not> cn_active c then Inr c
      else
        let c = c\<lparr>cn_time_since_last_segment_received :=
                    cn_time_since_last_segment_received c + ms_since_last_tick\<rparr>
        in obind (TCPSender_tick (cn_sender c) ms_since_last_tick) (\<lambda>s.
             let c = c\<lparr>cn_sender := s\<rparr>
             in obind (if TCPSender_consecutive_retransmissions (cn_sender c) > MAX_RETX_ATTEMPTS
                       then unclean_shutdown c else Inr c)
                  (\<lambda>c. Inr (send_sender_segments c))))"

definition TCPConnection_end_input_stream :: "tcp_connection \<Rightarrow> tcp_connection" where
  "TCPConnection_end_input_stream c =
     (let s = (cn_sender c)\<lparr>sd_stream := ByteStream_end_input (sd_stream (cn_sender c))\<rparr>
      in send_sender_segments (c\<lparr>cn_sender := TCPSender_fill_window s\<rparr>))"

text \<open>The destructor, up to the messages it prints.\<close>

definition TCPConnection_destroy :: "tcp_connection \<Rightarrow> tcp_connection outcome" where
  "TCPConnection_destroy c =
     (if TCPConnection_active c
      then unclean_shutdown (c\<lparr>cn_sender := TCPSender_send_empty_segment (cn_sender c)\<rparr>)
      else Inr c)"

section \<open>Settled senders\<close>

text \<open>
  With nothing in flight the free space is the whole window. After the window was filled, a sender
  with nothing in flight and nothing left in an ended stream has sent its FIN.
\<close>

definition sd_idle :: "tcp_sender \<Rightarrow> bool" where
  "sd_idle s \<longleftrightarrow> (sd_syn_sent s \<and> sd_bytes_in_flight s = 0 \<longrightarrow>
     sd_receiver_free_space s = sd_receiver_window_size s)"

definition sd_settled :: "tcp_sender \<Rightarrow> bool" where
  "sd_settled s \<longleftrightarrow> sd_idle s \<and>
     (sd_syn_sent s \<and> sd_bytes_in_flight s = 0 \<and> ByteStream_eof (sd_stream s) \<longrightarrow> sd_fin_sent s)"

lemma in_flight_iff: "sd_agrees S s \<Longrightarrow> sd_bytes_in_flight s = 0 \<longleftrightarrow> sd_segments_outstanding s = []"
  using sd_agrees_chain sd_chain_empty_iff by blast

lemma send_segment_outstanding: "sd_segments_outstanding (send_segment s seg) \<noteq> []"
  by (simp add: send_segment_def Let_def)

lemma fill_step_outstanding: "sd_segments_outstanding (fill_step s) \<noteq> []"
  by (simp add: fill_step_def Let_def case_prod_beta send_segment_outstanding)

lemma fill_loop_outstanding:
  assumes "sd_receiver_free_space s \<noteq> 0"
  shows "sd_segments_outstanding (fill_loop s) \<noteq> []"
  using assms fill_loop_frame [of "fill_step s"] fill_step_outstanding [of s]
  by (auto simp: fill_loop.simps [of s] Let_def sd_frame_def)

lemma fill_window_settles:
  assumes agr: "sd_agrees S s" and idle: "sd_idle s"
  shows "sd_settled (TCPSender_fill_window s)"
proof (cases "TCPSender_fill_window s = s \<and> sd_syn_sent s \<and> sd_segments_outstanding s = []")
  case True
  then have "sd_receiver_free_space s = sd_receiver_window_size s"
    using idle in_flight_iff [OF agr] by (simp add: sd_idle_def)
  moreover have "sd_fin_sent s" if "ByteStream_eof (sd_stream s)"
  proof (rule ccontr)
    assume "\<not> sd_fin_sent s"
    then have "sd_segments_outstanding (TCPSender_fill_window s) \<noteq> []"
      using True that calculation send_segment_outstanding fill_loop_outstanding [of s]
      unfolding TCPSender_fill_window_def by (auto split: if_splits)
    with True show False by simp
  qed
  ultimately show ?thesis using True idle by (simp add: sd_settled_def)
next
  case False
  have "sd_segments_outstanding (TCPSender_fill_window s) \<noteq> []"
  proof (cases "sd_segments_outstanding s = [] \<and> sd_syn_sent s")
    case True
    with False have "TCPSender_fill_window s \<noteq> s" by blast
    moreover from True have "sd_receiver_free_space s = sd_receiver_window_size s"
      using idle in_flight_iff [OF agr] by (simp add: sd_idle_def)
    ultimately show ?thesis
      using True send_segment_outstanding fill_loop_outstanding [of s]
      unfolding TCPSender_fill_window_def by (auto simp: ByteStream_read_def split: if_splits)
  next
    case False
    then show ?thesis
      using fill_window_frame [of s]
      by (auto simp: sd_frame_def TCPSender_fill_window_def send_segment_outstanding)
  qed
  then show ?thesis
    using in_flight_iff [OF fill_window_agrees [OF agr]] by (simp add: sd_settled_def sd_idle_def)
qed

lemma ack_noted_idle:
  assumes "sd_agrees S s"
  shows "sd_idle (ack_noted s n w)"
proof -
  have "sd_receiver_free_space (ack_noted s n w) = w"
    if "sd_segments_outstanding (ack_noted s n w) = []"
    using that pop_acked_frame [of "s\<lparr>sd_receiver_window_size := w, sd_receiver_free_space := w\<rparr>" n]
    by (simp add: ack_noted_frame) (simp add: ack_noted_def Let_def pop_frame_def)
  then show ?thesis
    using in_flight_iff [OF ack_noted_agrees [OF assms]] by (simp add: sd_idle_def ack_noted_frame)
qed

lemma ack_received_settles:
  assumes "sd_agrees S s" "sd_settled s"
  shows "sd_settled (TCPSender_ack_received stale s ackno w)"
  using assms
  by (simp add: ack_received_eq Let_def fill_window_settles [OF ack_noted_agrees ack_noted_idle])

lemma ack_received_counts:
  "sd_consecutive_retransmissions (TCPSender_ack_received stale s ackno w)
     = sd_consecutive_retransmissions s \<or>
   sd_consecutive_retransmissions (TCPSender_ack_received stale s ackno w) = 0"
  using fill_window_frame ack_noted_frame(9)
  by (auto simp: ack_received_eq Let_def sd_frame_def)

lemma ack_received_syn_sent:
  "sd_syn_sent s \<Longrightarrow> sd_syn_sent (TCPSender_ack_received stale s ackno w)"
  by (simp add: ack_received_eq Let_def)

section \<open>The invariant of a connection\<close>

text \<open>
  The connection sends the stream \<open>S\<close>, and its peer sends \<open>R\<close> from the initial number \<open>p\<close>.
  \<open>cn_base\<close> holds also between the steps of an operation, \<open>cn_core\<close> after each of them, and
  \<open>cn_done\<close> says what an inactive connection without errors has achieved.
\<close>

definition cn_base :: "bytes \<Rightarrow> bytes \<Rightarrow> WrappingInt32 \<Rightarrow> tcp_connection \<Rightarrow> bool" where
  "cn_base S R p c \<longleftrightarrow> sd_agrees S (cn_sender c) \<and> tr_agrees R p (cn_receiver c) \<and>
     sd_idle (cn_sender c) \<and>
     (cn_active c \<longrightarrow> unat (sd_consecutive_retransmissions (cn_sender c)) \<le> 8) \<and>
     (\<forall>seg\<in>set (cn_segments_out c). \<exists>a. segment_of S (sd_isn (cn_sender c)) a seg)"

definition cn_core :: "bytes \<Rightarrow> bytes \<Rightarrow> WrappingInt32 \<Rightarrow> tcp_connection \<Rightarrow> bool" where
  "cn_core S R p c \<longleftrightarrow> cn_base S R p c \<and> sd_settled (cn_sender c) \<and>
     (tr_isn (cn_receiver c) \<noteq> None \<longrightarrow> sd_syn_sent (cn_sender c))"

definition cn_error :: "tcp_connection \<Rightarrow> bool" where
  "cn_error c \<longleftrightarrow> ByteStream_error (TCPConnection_inbound_stream c)"

definition cn_done :: "tcp_connection \<Rightarrow> bool" where
  "cn_done c \<longleftrightarrow> cn_active c \<or> cn_error c \<or>
     ByteStream_input_ended (TCPConnection_inbound_stream c) \<and>
     ByteStream_eof (sd_stream (cn_sender c)) \<and> sd_fin_sent (cn_sender c) \<and>
     sd_bytes_in_flight (cn_sender c) = 0 \<and>
     (cn_linger_after_streams_finish c \<longrightarrow>
        cn_time_since_last_segment_received c \<ge> 10 * ucast (tc_rt_timeout (cn_cfg c)))"

definition cn_inv :: "bytes \<Rightarrow> bytes \<Rightarrow> WrappingInt32 \<Rightarrow> tcp_connection \<Rightarrow> bool" where
  "cn_inv S R p c \<longleftrightarrow> cn_core S R p c \<and> cn_done c"

lemma segment_of_stamped [simp]:
  "segment_of S isn a (stamp_segment r seg) = segment_of S isn a seg"
  by (simp add: stamp_segment_def segment_of_def split: option.split)

lemma ackno_None [simp]: "TCPReceiver_ackno r = None \<longleftrightarrow> tr_isn r = None"
  by (simp add: TCPReceiver_ackno_def split: option.split)

lemma sender_error_agrees [simp]:
  "sd_agrees S (s\<lparr>sd_stream := ByteStream_set_error (sd_stream s)\<rparr>) = sd_agrees S s"
  by (simp add: sd_agrees_def stream_of_def bs_wf_def ByteStream_set_error_def)

lemma reassembler_error_agrees [simp]:
  "sr_agrees R (re\<lparr>sr_output := ByteStream_set_error (sr_output re)\<rparr>) = sr_agrees R re"
  by (simp add: ByteStream_set_error_def sr_agrees_def sr_wf_def sr_shape_def
      sr_arrays_def sr_window_def sr_pos_def sr_cap_def bs_wf_def)

lemma receiver_error_agrees [simp]:
  "tr_agrees R p (r\<lparr>tr_reassembler := (tr_reassembler r)\<lparr>sr_output :=
     ByteStream_set_error (sr_output (tr_reassembler r))\<rparr>\<rparr>) = tr_agrees R p r"
  by (cases "tr_isn r") (simp_all add: tr_agrees_def sr_pos_def)

text \<open>The operations the handlers are made of.\<close>

lemma clean_shutdown_form:
  "\<exists>l a. clean_shutdown c = c\<lparr>cn_linger_after_streams_finish := l, cn_active := a\<rparr> \<and>
     (a \<longrightarrow> cn_active c) \<and>
     (l = cn_linger_after_streams_finish c \<or>
        ByteStream_input_ended (TCPConnection_inbound_stream c) \<and> \<not> ByteStream_eof (sd_stream (cn_sender c))) \<and>
     (\<not> a \<longrightarrow> \<not> cn_active c \<or> ByteStream_input_ended (TCPConnection_inbound_stream c) \<and>
        ByteStream_eof (sd_stream (cn_sender c)) \<and> sd_bytes_in_flight (cn_sender c) = 0 \<and>
        (l \<longrightarrow> cn_time_since_last_segment_received c \<ge> 10 * ucast (tc_rt_timeout (cn_cfg c))))"
proof (intro exI conjI)
  let ?l = "cn_linger_after_streams_finish (clean_shutdown c)" and ?a = "cn_active (clean_shutdown c)"
  show "clean_shutdown c = c\<lparr>cn_linger_after_streams_finish := ?l, cn_active := ?a\<rparr>"
    by (cases c) (simp add: clean_shutdown_def)
qed (simp_all add: clean_shutdown_def TCPConnection_inbound_stream_def TCPSender_bytes_in_flight_def
    TCPConnection_time_since_last_segment_received_def)

lemma stamp_queue:
  "fold (\<lambda>seg c. c\<lparr>cn_segments_out := cn_segments_out c @ [stamp_segment (cn_receiver c) seg]\<rparr>) q c
     = c\<lparr>cn_segments_out := cn_segments_out c @ map (stamp_segment (cn_receiver c)) q\<rparr>"
  by (induction q arbitrary: c) simp_all

lemma send_sender_segments_eq:
  "send_sender_segments c = clean_shutdown (c\<lparr>cn_sender := (cn_sender c)\<lparr>sd_segments_out := []\<rparr>,
     cn_segments_out := cn_segments_out c @
       map (stamp_segment (cn_receiver c)) (sd_segments_out (cn_sender c))\<rparr>)"
  by (simp add: send_sender_segments_def Let_def stamp_queue)

text \<open>A reassembled end implies that the SYN arrived.\<close>

lemma ended_isn: "tr_agrees R p r \<Longrightarrow> ByteStream_input_ended (TCPReceiver_stream_out r) \<Longrightarrow> tr_isn r \<noteq> None"
  by (cases "tr_isn r") (auto simp: tr_agrees_ended, simp add: tr_agrees_def)

lemma send_sender_segments_inv:
  assumes core: "cn_core S R p c" and don: "cn_done c"
  shows "cn_inv S R p (send_sender_segments c)"
proof -
  define d where "d = c\<lparr>cn_sender := (cn_sender c)\<lparr>sd_segments_out := []\<rparr>, cn_segments_out :=
    cn_segments_out c @ map (stamp_segment (cn_receiver c)) (sd_segments_out (cn_sender c))\<rparr>"
  have sd: "sd_agrees S (cn_sender d)" "\<forall>seg\<in>set (sd_segments_out (cn_sender c)).
      \<exists>a. segment_of S (sd_isn (cn_sender c)) a seg"
    using core sender_take_agrees [of S "cn_sender c" "length (sd_segments_out (cn_sender c))"]
    by (simp_all add: d_def cn_core_def cn_base_def) (simp add: sd_agrees_def list_all_iff)
  then have d: "cn_core S R p d"
    using core by (simp add: cn_core_def cn_base_def d_def sd_idle_def sd_settled_def ball_Un)
  have d2: "cn_done d"
    using don by (simp add: d_def cn_done_def cn_error_def TCPConnection_inbound_stream_def)
  have tr: "tr_agrees R p (cn_receiver d)" using d by (simp add: cn_core_def cn_base_def)
  have fin: "sd_fin_sent (cn_sender d)" if "ByteStream_input_ended (TCPConnection_inbound_stream d)"
    "ByteStream_eof (sd_stream (cn_sender d))" "sd_bytes_in_flight (cn_sender d) = 0"
    using that d ended_isn [OF tr]
    by (auto simp: cn_core_def sd_settled_def TCPConnection_inbound_stream_def)
  obtain l a where form: "clean_shutdown d = d\<lparr>cn_linger_after_streams_finish := l, cn_active := a\<rparr>"
    and act: "a \<longrightarrow> cn_active d"
    and l: "l = cn_linger_after_streams_finish d \<or>
      ByteStream_input_ended (TCPConnection_inbound_stream d) \<and> \<not> ByteStream_eof (sd_stream (cn_sender d))"
    and stop: "\<not> a \<longrightarrow> \<not> cn_active d \<or> ByteStream_input_ended (TCPConnection_inbound_stream d) \<and>
      ByteStream_eof (sd_stream (cn_sender d)) \<and> sd_bytes_in_flight (cn_sender d) = 0 \<and>
      (l \<longrightarrow> cn_time_since_last_segment_received d \<ge> 10 * ucast (tc_rt_timeout (cn_cfg d)))"
    using clean_shutdown_form [of d] by blast
  have "cn_core S R p (clean_shutdown d)" using d act by (auto simp: form cn_core_def cn_base_def)
  moreover have "cn_done (clean_shutdown d)"
    using d2 fin act l stop by (auto simp: form cn_done_def cn_error_def TCPConnection_inbound_stream_def)
  ultimately show ?thesis by (simp add: cn_inv_def send_sender_segments_eq d_def)
qed

lemma fill_core:
  assumes "cn_base S R p c"
  shows "cn_core S R p (c\<lparr>cn_sender := TCPSender_fill_window (cn_sender c)\<rparr>)"
  using assms fill_window_frame [of "cn_sender c"] fill_window_settles [of S "cn_sender c"]
  by (auto simp: cn_core_def cn_base_def fill_window_agrees sd_frame_def sd_settled_def)

lemma fill_done:
  assumes "cn_base S R p c" "cn_done c"
  shows "cn_done (c\<lparr>cn_sender := TCPSender_fill_window (cn_sender c)\<rparr>)"
proof -
  have "TCPSender_fill_window s = s" if "sd_agrees S s" "sd_fin_sent s" for s
    using that by (auto simp: sd_agrees_def TCPSender_fill_window_def)
  with assms show ?thesis
    by (auto simp: cn_done_def cn_base_def cn_error_def TCPConnection_inbound_stream_def)
qed

lemma connect_inv:
  "cn_base S R p c \<Longrightarrow> cn_done c \<Longrightarrow> cn_inv S R p (TCPConnection_connect c)"
  by (simp add: TCPConnection_connect_def send_sender_segments_inv fill_core fill_done)

lemma set_error_eof [simp]: "ByteStream_eof (ByteStream_set_error b) = ByteStream_eof b"
  by (simp add: ByteStream_set_error_def ByteStream_eof_def ByteStream_buffer_empty_def
      ByteStream_input_ended_def)

lemma set_stream_errors_core:
  "cn_core S R p c \<Longrightarrow> cn_core S R p ((set_stream_errors c)\<lparr>cn_active := False\<rparr>)"
  by (simp add: set_stream_errors_def Let_def cn_core_def cn_base_def sd_idle_def sd_settled_def)

lemma set_stream_errors_error: "cn_error (set_stream_errors c)"
  by (simp add: set_stream_errors_def Let_def cn_error_def TCPConnection_inbound_stream_def
      TCPReceiver_stream_out_def StreamReassembler_stream_out_def ByteStream_set_error_def
      ByteStream_error_def)

lemma cn_error_simps [simp]:
  "cn_error (c\<lparr>cn_sender := s\<rparr>) = cn_error c" "cn_error (c\<lparr>cn_active := b\<rparr>) = cn_error c"
  "cn_error (c\<lparr>cn_segments_out := q\<rparr>) = cn_error c"
  by (simp_all add: cn_error_def TCPConnection_inbound_stream_def)

text \<open>The reset segment that an unclean shutdown makes of the first queued segment.\<close>

definition rst_segment :: "tcp_receiver \<Rightarrow> tcp_segment \<Rightarrow> tcp_segment" where
  "rst_segment r seg =
     (let h = (ts_header seg)\<lparr>th_ack := True\<rparr>;
          h = (case TCPReceiver_ackno r of None \<Rightarrow> h | Some ackno \<Rightarrow> h\<lparr>th_ackno := ackno\<rparr>)
      in seg\<lparr>ts_header := h\<lparr>th_win := ucast (TCPReceiver_window_size r), th_rst := True\<rparr>\<rparr>)"

lemma segment_of_rst [simp]: "segment_of S isn a (rst_segment r seg) = segment_of S isn a seg"
  by (simp add: rst_segment_def segment_of_def Let_def split: option.split)

lemma unclean_shutdown_eq:
  "unclean_shutdown c =
     (let e = (set_stream_errors c)\<lparr>cn_active := False\<rparr>
      in case sd_segments_out (cn_sender e) of
           [] \<Rightarrow> Inl Empty_queue_front
         | seg # rest \<Rightarrow> Inr (e\<lparr>cn_sender := (cn_sender e)\<lparr>sd_segments_out := rest\<rparr>,
             cn_segments_out := cn_segments_out e @ [rst_segment (cn_receiver e) seg]\<rparr>))"
  by (simp add: unclean_shutdown_def rst_segment_def Let_def split: list.split option.split)

lemma unclean_shutdown_inv:
  assumes core: "cn_core S R p c" and q: "sd_segments_out (cn_sender c) \<noteq> []"
  shows "\<exists>d. unclean_shutdown c = Inr d \<and> cn_inv S R p d \<and> \<not> cn_active d \<and> cn_error d"
proof -
  define e where "e = (set_stream_errors c)\<lparr>cn_active := False\<rparr>"
  have e: "cn_core S R p e" "cn_error e" "\<not> cn_active e"
    using set_stream_errors_core [OF core] set_stream_errors_error by (simp_all add: e_def)
  obtain seg rest where sr: "sd_segments_out (cn_sender e) = seg # rest"
    using q by (cases "sd_segments_out (cn_sender c)") (simp_all add: e_def set_stream_errors_def Let_def)
  then have "unclean_shutdown c = Inr (e\<lparr>cn_sender := (cn_sender e)\<lparr>sd_segments_out := rest\<rparr>,
      cn_segments_out := cn_segments_out e @ [rst_segment (cn_receiver e) seg]\<rparr>)"
    unfolding unclean_shutdown_eq Let_def e_def by simp
  moreover have "\<exists>a. segment_of S (sd_isn (cn_sender e)) a seg"
    "sd_agrees S ((cn_sender e)\<lparr>sd_segments_out := rest\<rparr>)"
    using e(1) sr sender_take_agrees [of S "cn_sender e" 1]
    by (simp_all add: cn_core_def cn_base_def) (simp add: sd_agrees_def)
  ultimately show ?thesis
    using e by (simp add: cn_inv_def cn_done_def)
      (simp add: cn_core_def cn_base_def sd_idle_def sd_settled_def)
qed

lemma send_empty_simps [simp]:
  "sd_syn_sent (TCPSender_send_empty_segment s) = sd_syn_sent s"
  "sd_isn (TCPSender_send_empty_segment s) = sd_isn s"
  "sd_settled (TCPSender_send_empty_segment s) = sd_settled s"
  "sd_idle (TCPSender_send_empty_segment s) = sd_idle s"
  "sd_consecutive_retransmissions (TCPSender_send_empty_segment s) = sd_consecutive_retransmissions s"
  "sd_segments_out (TCPSender_send_empty_segment s) \<noteq> []"
  by (simp_all add: TCPSender_send_empty_segment_def Let_def sd_settled_def sd_idle_def)

lemma send_empty_core:
  assumes "cn_core S R p c" "sd_syn_sent (cn_sender c)"
  shows "cn_core S R p (c\<lparr>cn_sender := TCPSender_send_empty_segment (cn_sender c)\<rparr>)"
  using assms by (simp add: cn_core_def cn_base_def send_empty_agrees)

lemma ack_core:
  assumes "cn_core S R p c" "sd_syn_sent (cn_sender c)"
  shows "cn_core S R p (c\<lparr>cn_sender := TCPSender_ack_received stale (cn_sender c) ackno w\<rparr>)"
proof -
  have "sd_isn (TCPSender_ack_received stale s ackno w) = sd_isn s" for s
    using fill_window_frame by (simp add: ack_received_eq Let_def sd_frame_def ack_noted_frame)
  then show ?thesis
    using assms ack_received_counts [of stale "cn_sender c" ackno w]
    by (auto simp: cn_core_def cn_base_def ack_received_agrees ack_received_settles
        ack_received_syn_sent sd_settled_def dest: ack_received_settles [unfolded sd_settled_def])
qed

section \<open>Every handler keeps the invariant\<close>

lemma receiver_core:
  "cn_core S R p c \<Longrightarrow> sd_syn_sent (cn_sender c) \<Longrightarrow> tr_agrees R p r \<Longrightarrow>
     cn_core S R p (c\<lparr>cn_receiver := r\<rparr>)"
  by (simp add: cn_core_def cn_base_def)

lemma time_core [simp]:
  "cn_core S R p (c\<lparr>cn_time_since_last_segment_received := t\<rparr>) = cn_core S R p c"
  by (simp add: cn_core_def cn_base_def)

lemma active_done: "cn_active c \<Longrightarrow> cn_done c"
  by (simp add: cn_done_def)

lemma cn_syn_sent:
  assumes "cn_core S R p c"
    "\<not> (tr_isn (cn_receiver c) = None \<and> sd_next_seqno (cn_sender c) = 0)"
  shows "sd_syn_sent (cn_sender c)"
proof (rule ccontr)
  assume no: "\<not> sd_syn_sent (cn_sender c)"
  then have "unat (sd_next_seqno (cn_sender c)) = 0"
    using assms(1) by (auto simp: cn_core_def cn_base_def sd_agrees_def)
  with no assms show False by (simp add: cn_core_def unat_eq_zero)
qed

text \<open>What \<^verbatim>\<open>segment_received\<close> does once receiver and sender took the segment.\<close>

definition answer :: "tcp_connection \<Rightarrow> tcp_segment \<Rightarrow> tcp_connection outcome" where
  "answer c seg =
     (let c = (if ByteStream_buffer_empty (sd_stream (cn_sender c)) \<and>
                  TCPSegment_length_in_sequence_space seg \<noteq> 0
               then c\<lparr>cn_sender := TCPSender_send_empty_segment (cn_sender c)\<rparr> else c)
      in if th_rst (ts_header seg)
         then unclean_shutdown (c\<lparr>cn_sender := TCPSender_send_empty_segment (cn_sender c)\<rparr>)
         else Inr (send_sender_segments c))"

lemma answer_inv:
  assumes core: "cn_core S R p c" and syn: "sd_syn_sent (cn_sender c)" and act: "cn_active c"
  shows "\<exists>d. answer c seg = Inr d \<and> cn_inv S R p d \<and>
    (th_rst (ts_header seg) \<longrightarrow> \<not> cn_active d \<and> cn_error d)"
proof -
  define c1 where "c1 = (if ByteStream_buffer_empty (sd_stream (cn_sender c)) \<and>
      TCPSegment_length_in_sequence_space seg \<noteq> 0
    then c\<lparr>cn_sender := TCPSender_send_empty_segment (cn_sender c)\<rparr> else c)"
  have c1: "cn_core S R p c1" "sd_syn_sent (cn_sender c1)" "cn_active c1"
    using core syn act send_empty_core [OF core syn] by (simp_all add: c1_def)
  obtain d where "unclean_shutdown (c1\<lparr>cn_sender := TCPSender_send_empty_segment (cn_sender c1)\<rparr>) = Inr d"
    "cn_inv S R p d" "\<not> cn_active d" "cn_error d"
    using unclean_shutdown_inv [OF send_empty_core [OF c1(1,2)]] by auto
  moreover have "cn_inv S R p (send_sender_segments c1)"
    using c1 by (simp add: send_sender_segments_inv active_done)
  ultimately show ?thesis by (simp add: answer_def Let_def flip: c1_def)
qed

definition in_syn_sent :: "tcp_connection \<Rightarrow> bool" where
  "in_syn_sent c \<longleftrightarrow> 0 < sd_next_seqno (cn_sender c) \<and>
     sd_bytes_in_flight (cn_sender c) = sd_next_seqno (cn_sender c) \<and> tr_isn (cn_receiver c) = None"

lemma segment_received_open_eq:
  assumes "cn_active c" "\<not> (tr_isn (cn_receiver c) = None \<and> sd_next_seqno (cn_sender c) = 0)"
    and "TCPReceiver_segment_received (cn_receiver c) seg = Inr (r, b)"
  shows "TCPConnection_segment_received stale c seg =
    (let c0 = c\<lparr>cn_time_since_last_segment_received := 0\<rparr>
     in if in_syn_sent c \<and> Buffer_size (ts_payload seg) \<noteq> 0 then Inr c0
     else if in_syn_sent c \<and> \<not> th_ack (ts_header seg) then
       if th_syn (ts_header seg)
       then Inr (c0\<lparr>cn_receiver := r, cn_sender := TCPSender_send_empty_segment (cn_sender c)\<rparr>)
       else Inr c0
     else if in_syn_sent c \<and> th_rst (ts_header seg) then Inr ((set_stream_errors c0)\<lparr>cn_active := False\<rparr>)
     else answer (c0\<lparr>cn_receiver := r, cn_sender := TCPSender_ack_received stale (cn_sender c)
       (th_ackno (ts_header seg)) (th_win (ts_header seg))\<rparr>) seg)"
  using assms
  by (cases "tr_isn (cn_receiver c)") (simp_all add: TCPConnection_segment_received_def answer_def
      Let_def in_syn_sent_def TCPSender_next_seqno_absolute_def TCPSender_bytes_in_flight_def
      split del: if_split cong: if_cong)

lemma segment_received_open:
  assumes "cn_active c" "\<not> (tr_isn (cn_receiver c) = None \<and> sd_next_seqno (cn_sender c) = 0)"
    and "TCPReceiver_segment_received (cn_receiver c) seg = Inr (r, b)"
  defines "c0 \<equiv> c\<lparr>cn_time_since_last_segment_received := 0\<rparr>"
  shows "TCPConnection_segment_received stale c seg \<in>
    {Inr c0, Inr (c0\<lparr>cn_receiver := r, cn_sender := TCPSender_send_empty_segment (cn_sender c)\<rparr>),
     Inr ((set_stream_errors c0)\<lparr>cn_active := False\<rparr>),
     answer (c0\<lparr>cn_receiver := r, cn_sender := TCPSender_ack_received stale (cn_sender c)
       (th_ackno (ts_header seg)) (th_win (ts_header seg))\<rparr>) seg}"
  using segment_received_open_eq [OF assms(1-3), of stale] by (simp add: Let_def c0_def)

lemma segment_received_inv:
  assumes inv: "cn_inv S R p c" and seg: "segment_of R p a seg"
    and near: "seqno_near a (ByteStream_bytes_written (TCPConnection_inbound_stream c))"
  shows "\<exists>d. TCPConnection_segment_received stale c seg = Inr d \<and> cn_inv S R p d"
proof (cases "cn_active c")
  case False
  with inv show ?thesis by (simp add: TCPConnection_segment_received_def)
next
  case act: True
  let ?c = "c\<lparr>cn_time_since_last_segment_received := 0\<rparr>"
  have core: "cn_core S R p ?c" using inv by (simp add: cn_inv_def)
  then have "tr_agrees R p (cn_receiver c)" by (simp add: cn_core_def cn_base_def)
  then obtain r b where r: "TCPReceiver_segment_received (cn_receiver c) seg = Inr (r, b)"
    "tr_agrees R p r"
    using segment_received_agrees seg near by (force simp: TCPConnection_inbound_stream_def)
  show ?thesis
  proof (cases "tr_isn (cn_receiver c) = None \<and> sd_next_seqno (cn_sender c) = 0")
    case True
    have "cn_base S R p (?c\<lparr>cn_receiver := r\<rparr>)" using core r(2) by (simp add: cn_core_def cn_base_def)
    then have "cn_inv S R p (TCPConnection_connect (?c\<lparr>cn_receiver := r\<rparr>))"
      using act by (intro connect_inv) (simp_all add: active_done)
    with True act core r(1) show ?thesis
      by (simp add: TCPConnection_segment_received_def TCPSender_next_seqno_absolute_def cn_inv_def
          active_done Let_def)
  next
    case False
    have syn: "sd_syn_sent (cn_sender ?c)" using cn_syn_sent [OF core] False by simp
    define c2 where "c2 = ?c\<lparr>cn_receiver := r, cn_sender :=
      TCPSender_ack_received stale (cn_sender c) (th_ackno (ts_header seg)) (th_win (ts_header seg))\<rparr>"
    have core2: "cn_core S R p (?c\<lparr>cn_receiver := r\<rparr>)" by (rule receiver_core [OF core syn r(2)])
    have "cn_core S R p c2" "sd_syn_sent (cn_sender c2)" "cn_active c2"
      using ack_core [OF core2, of stale "th_ackno (ts_header seg)" "th_win (ts_header seg)"] syn act
      by (simp_all add: c2_def ack_received_syn_sent)
    then obtain d where d: "answer c2 seg = Inr d" "cn_inv S R p d" using answer_inv by blast
    have "cn_inv S R p (?c\<lparr>cn_receiver := r, cn_sender := TCPSender_send_empty_segment (cn_sender c)\<rparr>)"
      using send_empty_core [OF core2] syn act by (simp add: cn_inv_def active_done)
    moreover have "cn_inv S R p ((set_stream_errors ?c)\<lparr>cn_active := False\<rparr>)"
      using set_stream_errors_core [OF core] set_stream_errors_error by (simp add: cn_inv_def cn_done_def)
    moreover have "cn_inv S R p ?c" using core act by (simp add: cn_inv_def active_done)
    ultimately show ?thesis
      using segment_received_open [OF act False r(1), of stale] d unfolding c2_def by auto
  qed
qed

lemma tick_counts:
  assumes "TCPSender_tick s ms = Inr s'"
  shows "sd_consecutive_retransmissions s' = sd_consecutive_retransmissions s \<or>
    sd_consecutive_retransmissions s' = sd_consecutive_retransmissions s + 1 \<and> sd_segments_out s' \<noteq> []"
    and "sd_isn s' = sd_isn s" "sd_syn_sent s' = sd_syn_sent s" "sd_settled s' = sd_settled s"
    "sd_stream s' = sd_stream s"
  using assms
  by (auto simp: TCPSender_tick_def Let_def sd_settled_def sd_idle_def split: if_splits list.splits)

lemma retx_limit:
  "TCPSender_consecutive_retransmissions s > MAX_RETX_ATTEMPTS \<longleftrightarrow>
     8 < unat (sd_consecutive_retransmissions s)"
  by (simp add: TCPSender_consecutive_retransmissions_def MAX_RETX_ATTEMPTS_def word_less_nat_alt
      unat_ucast_up)

lemma connection_tick_inv:
  assumes inv: "cn_inv S R p c"
  shows "\<exists>d. TCPConnection_tick c ms = Inr d \<and> cn_inv S R p d"
proof (cases "cn_active c")
  case False
  with inv show ?thesis by (simp add: TCPConnection_tick_def)
next
  case act: True
  let ?c = "c\<lparr>cn_time_since_last_segment_received := cn_time_since_last_segment_received c + ms\<rparr>"
  have core: "cn_core S R p c" using inv by (simp add: cn_inv_def)
  then have "sd_agrees S (cn_sender c)" by (simp add: cn_core_def cn_base_def)
  then obtain s where s: "TCPSender_tick (cn_sender c) ms = Inr s" "sd_agrees S s"
    using tick_agrees [of S "cn_sender c" ms] by blast
  note counts = tick_counts [OF s(1)]
  show ?thesis
  proof (cases "8 < unat (sd_consecutive_retransmissions s)")
    case False
    have "cn_core S R p (?c\<lparr>cn_sender := s\<rparr>)"
      using core s(2) counts False by (simp add: cn_core_def cn_base_def sd_settled_def)
    then show ?thesis
      using act s(1) False
      by (simp add: TCPConnection_tick_def Let_def retx_limit send_sender_segments_inv active_done)
  next
    case True
    have "sd_segments_out s \<noteq> []" using core act counts(1) True by (auto simp: cn_core_def cn_base_def)
    moreover have "cn_core S R p (?c\<lparr>cn_sender := s, cn_active := False\<rparr>)"
      using core s(2) counts by (simp add: cn_core_def cn_base_def sd_settled_def)
    moreover have "unclean_shutdown (?c\<lparr>cn_sender := s, cn_active := False\<rparr>)
        = unclean_shutdown (?c\<lparr>cn_sender := s\<rparr>)"
      by (simp add: unclean_shutdown_eq set_stream_errors_def Let_def)
    ultimately obtain d where "unclean_shutdown (?c\<lparr>cn_sender := s\<rparr>) = Inr d" "cn_inv S R p d"
      using unclean_shutdown_inv [of S R p "?c\<lparr>cn_sender := s, cn_active := False\<rparr>"] by auto
    then show ?thesis
      using act s(1) True send_sender_segments_inv [of S R p d]
      by (simp add: TCPConnection_tick_def Let_def retx_limit cn_inv_def)
  qed
qed

lemma sender_stream_base:
  assumes "cn_core S R p c" "sd_agrees S ((cn_sender c)\<lparr>sd_stream := b\<rparr>)"
  shows "cn_base S R p (c\<lparr>cn_sender := (cn_sender c)\<lparr>sd_stream := b\<rparr>\<rparr>)"
  using assms by (simp add: cn_core_def cn_base_def sd_idle_def)

lemma core_agrees: "cn_core S R p c \<Longrightarrow> sd_agrees S (cn_sender c)"
  by (simp add: cn_core_def cn_base_def)

lemma connection_write_inv:
  assumes inv: "cn_inv S R p c"
    and d: "take (length d) (drop (unat (bs_nwritten (sd_stream (cn_sender c)))) S) = d"
  shows "cn_inv S R p (fst (TCPConnection_write c d))"
proof (cases "d = []")
  case True
  with inv show ?thesis by (simp add: TCPConnection_write_def)
next
  case False
  let ?s = "cn_sender c"
  let ?c = "c\<lparr>cn_sender := ?s\<lparr>sd_stream := fst (ByteStream_write (sd_stream ?s) d)\<rparr>\<rparr>"
  have core: "cn_core S R p c" and don: "cn_done c" using inv by (simp_all add: cn_inv_def)
  have base: "cn_base S R p ?c"
    by (rule sender_stream_base [OF core sender_write_agrees [OF core_agrees [OF core] d]])
  have "\<not> ByteStream_eof (sd_stream ?s)"
    using False d core_agrees [OF core]
    by (auto simp: sd_agrees_def stream_of_def ByteStream_eof_def ByteStream_input_ended_def)
  then have "cn_done ?c"
    using don by (auto simp: cn_done_def cn_error_def TCPConnection_inbound_stream_def)
  then have "cn_inv S R p (send_sender_segments (?c\<lparr>cn_sender := TCPSender_fill_window (cn_sender ?c)\<rparr>))"
    using base by (intro send_sender_segments_inv fill_core fill_done)
  with False show ?thesis by (simp add: TCPConnection_write_def case_prod_beta Let_def)
qed

lemma end_input_stream_inv:
  assumes inv: "cn_inv S R p c" and full: "unat (bs_nwritten (sd_stream (cn_sender c))) = length S"
  shows "cn_inv S R p (TCPConnection_end_input_stream c)"
proof -
  let ?s = "cn_sender c"
  let ?c = "c\<lparr>cn_sender := ?s\<lparr>sd_stream := ByteStream_end_input (sd_stream ?s)\<rparr>\<rparr>"
  have core: "cn_core S R p c" and don: "cn_done c" using inv by (simp_all add: cn_inv_def)
  have base: "cn_base S R p ?c"
    by (rule sender_stream_base [OF core sender_close_agrees [OF core_agrees [OF core] full]])
  have "cn_done ?c"
    using don by (auto simp: cn_done_def cn_error_def TCPConnection_inbound_stream_def
        ByteStream_eof_def ByteStream_end_input_def ByteStream_input_ended_def ByteStream_buffer_empty_def)
  then have "cn_inv S R p (send_sender_segments (?c\<lparr>cn_sender := TCPSender_fill_window (cn_sender ?c)\<rparr>))"
    using base by (intro send_sender_segments_inv fill_core fill_done)
  then show ?thesis by (simp add: TCPConnection_end_input_stream_def Let_def)
qed

text \<open>Reading from the inbound stream, and taking segments from the outgoing queue.\<close>

definition TCPConnection_read :: "tcp_connection \<Rightarrow> u64 \<Rightarrow> tcp_connection \<times> bytes" where
  "TCPConnection_read c n =
     (let (r, d) = TCPReceiver_read (cn_receiver c) n in (c\<lparr>cn_receiver := r\<rparr>, d))"

lemma connection_read_inv:
  assumes inv: "cn_inv S R p c"
  shows "cn_inv S R p (fst (TCPConnection_read c n))"
    and "take (tr_nread (cn_receiver c)) R @ snd (TCPConnection_read c n)
      = take (tr_nread (cn_receiver (fst (TCPConnection_read c n)))) R"
proof -
  obtain r d where rd: "TCPReceiver_read (cn_receiver c) n = (r, d)" by (cases "TCPReceiver_read (cn_receiver c) n")
  have tr: "tr_agrees R p (cn_receiver c)" using inv by (simp add: cn_inv_def cn_core_def cn_base_def)
  note agr = TCPReceiver_read_agrees [OF tr rd]
  have same: "tr_isn r = tr_isn (cn_receiver c)"
    "ByteStream_input_ended (TCPReceiver_stream_out r) = ByteStream_input_ended (TCPReceiver_stream_out (cn_receiver c))"
    "ByteStream_error (TCPReceiver_stream_out r) = ByteStream_error (TCPReceiver_stream_out (cn_receiver c))"
    using rd by (auto simp: TCPReceiver_read_def reassembler_read_def Let_def case_prod_beta tr_stream_defs
        ByteStream_read_def ByteStream_pop_output_def ByteStream_error_def)
  show "cn_inv S R p (fst (TCPConnection_read c n))"
    using inv agr same by (simp add: TCPConnection_read_def rd cn_inv_def cn_core_def cn_base_def cn_done_def
        cn_error_def TCPConnection_inbound_stream_def)
  show "take (tr_nread (cn_receiver c)) R @ snd (TCPConnection_read c n)
      = take (tr_nread (cn_receiver (fst (TCPConnection_read c n)))) R"
    using agr by (simp add: TCPConnection_read_def rd)
qed

lemma take_segments_inv:
  "cn_inv S R p c \<Longrightarrow> cn_inv S R p (c\<lparr>cn_segments_out := drop k (cn_segments_out c)\<rparr>)"
  by (auto simp: cn_inv_def cn_core_def cn_base_def cn_done_def cn_error_def
      TCPConnection_inbound_stream_def dest: in_set_dropD)

lemma connection_new_inv:
  assumes "tc_recv_capacity cfg \<noteq> 0" "length S + 2 ^ 33 \<le> 2 ^ 64"
    and "length R + unat (tc_recv_capacity cfg) + 2 ^ 33 \<le> 2 ^ 64"
  shows "cn_inv S R p (TCPConnection_new cfg rand)"
  using assms sender_new_agrees [OF assms(2)] tr_new_agrees [of "tc_recv_capacity cfg" R p]
  by (simp add: cn_inv_def cn_core_def cn_base_def cn_done_def TCPConnection_new_def sd_idle_def
      sd_settled_def) (simp add: TCPSender_new_def TCPReceiver_new_def)

text \<open>
  What segments and time do not change: the count of bytes read, the own initial number and the
  count of bytes written.
\<close>

definition cn_same :: "tcp_connection \<Rightarrow> tcp_connection \<Rightarrow> bool" where
  "cn_same c d \<longleftrightarrow> tr_nread (cn_receiver d) = tr_nread (cn_receiver c) \<and>
     sd_isn (cn_sender d) = sd_isn (cn_sender c) \<and>
     bs_nwritten (sd_stream (cn_sender d)) = bs_nwritten (sd_stream (cn_sender c))"

lemma fill_loop_written: "bs_nwritten (sd_stream (fill_loop s)) = bs_nwritten (sd_stream s)"
proof (induction s rule: fill_loop.induct)
  case (1 s)
  have "bs_nwritten (sd_stream (fill_step s)) = bs_nwritten (sd_stream s)"
    by (simp add: fill_step_stream stream_simps)
  with 1 show ?case by (auto simp: fill_loop.simps [of s] Let_def)
qed

lemma fill_window_written [simp]:
  "bs_nwritten (sd_stream (TCPSender_fill_window s)) = bs_nwritten (sd_stream s)"
  by (simp add: TCPSender_fill_window_def fill_loop_written case_prod_beta Let_def stream_simps)

lemma ack_received_written [simp]:
  "bs_nwritten (sd_stream (TCPSender_ack_received stale s ackno w)) = bs_nwritten (sd_stream s)"
  by (simp add: ack_received_eq Let_def ack_noted_frame)

lemma set_error_written [simp]: "bs_nwritten (ByteStream_set_error b) = bs_nwritten b"
  by (simp add: ByteStream_set_error_def)

lemma set_error_nread [simp]:
  "tr_nread (r\<lparr>tr_reassembler := (tr_reassembler r)\<lparr>sr_output :=
     ByteStream_set_error (sr_output (tr_reassembler r))\<rparr>\<rparr>) = tr_nread r"
  by (simp add: tr_nread_def tr_stream_defs ByteStream_set_error_def)

lemma send_sender_segments_same: "cn_same c (send_sender_segments c)"
proof -
  have "cn_same d (clean_shutdown d)" for d
    using clean_shutdown_form [of d] by (auto simp: cn_same_def)
  then show ?thesis by (simp add: send_sender_segments_eq cn_same_def)
qed

lemma set_stream_errors_same: "cn_same c (set_stream_errors c)"
  by (simp add: cn_same_def set_stream_errors_def Let_def)

lemma unclean_shutdown_same: "unclean_shutdown c = Inr d \<Longrightarrow> cn_same c d"
  using set_stream_errors_same [of c]
  by (auto simp: unclean_shutdown_eq Let_def cn_same_def split: list.splits)

lemma fill_window_isn [simp]: "sd_isn (TCPSender_fill_window s) = sd_isn s"
  using fill_window_frame [of s] by (simp add: sd_frame_def)

lemma ack_received_isn [simp]: "sd_isn (TCPSender_ack_received stale s ackno w) = sd_isn s"
  by (simp add: ack_received_eq Let_def ack_noted_frame)

lemma connect_same: "cn_same c (TCPConnection_connect c)"
  using send_sender_segments_same [of "c\<lparr>cn_sender := TCPSender_fill_window (cn_sender c)\<rparr>"]
  by (simp add: TCPConnection_connect_def cn_same_def)

lemma cn_same_trans: "cn_same c d \<Longrightarrow> cn_same d e \<Longrightarrow> cn_same c e"
  by (simp add: cn_same_def)

lemma send_empty_same: "cn_same c (c\<lparr>cn_sender := TCPSender_send_empty_segment (cn_sender c)\<rparr>)"
  by (simp add: cn_same_def TCPSender_send_empty_segment_def Let_def)

lemma answer_same:
  assumes "answer c seg = Inr d"
  shows "cn_same c d"
proof -
  define e where "e = (if ByteStream_buffer_empty (sd_stream (cn_sender c)) \<and>
      TCPSegment_length_in_sequence_space seg \<noteq> 0
    then c\<lparr>cn_sender := TCPSender_send_empty_segment (cn_sender c)\<rparr> else c)"
  have e: "cn_same c e" using send_empty_same [of c] by (simp add: e_def cn_same_def)
  have "(if th_rst (ts_header seg)
      then unclean_shutdown (e\<lparr>cn_sender := TCPSender_send_empty_segment (cn_sender e)\<rparr>)
      else Inr (send_sender_segments e)) = Inr d"
    using assms by (simp only: answer_def Let_def e_def)
  then have "cn_same e d"
    using cn_same_trans [OF send_empty_same unclean_shutdown_same] send_sender_segments_same [of e]
    by (cases "th_rst (ts_header seg)") simp_all
  with e show ?thesis by (rule cn_same_trans)
qed

lemma segment_received_same:
  assumes inv: "cn_inv S R p c" and seg: "segment_of R p a seg"
    and near: "seqno_near a (ByteStream_bytes_written (TCPConnection_inbound_stream c))"
    and d: "TCPConnection_segment_received stale c seg = Inr d"
  shows "cn_same c d"
proof (cases "cn_active c")
  case False
  with d show ?thesis by (simp add: TCPConnection_segment_received_def cn_same_def)
next
  case act: True
  have "tr_agrees R p (cn_receiver c)" using inv by (simp add: cn_inv_def cn_core_def cn_base_def)
  then obtain r b where r: "TCPReceiver_segment_received (cn_receiver c) seg = Inr (r, b)"
    "tr_nread r = tr_nread (cn_receiver c)"
    using segment_received_agrees seg near by (force simp: TCPConnection_inbound_stream_def)
  let ?c = "c\<lparr>cn_time_since_last_segment_received := 0\<rparr>"
  show ?thesis
  proof (cases "tr_isn (cn_receiver c) = None \<and> sd_next_seqno (cn_sender c) = 0")
    case True
    with act d r(1) have "d = ?c \<or> d = TCPConnection_connect (?c\<lparr>cn_receiver := r\<rparr>)"
      by (simp add: TCPConnection_segment_received_def TCPSender_next_seqno_absolute_def Let_def
          split: if_splits)
    with r(2) connect_same [of "?c\<lparr>cn_receiver := r\<rparr>"] show ?thesis by (auto simp: cn_same_def)
  next
    case False
    let ?y = "?c\<lparr>cn_receiver := r, cn_sender := TCPSender_ack_received stale (cn_sender c)
      (th_ackno (ts_header seg)) (th_win (ts_header seg))\<rparr>"
    have "cn_same ?c ?y" using r(2) by (simp add: cn_same_def)
    then have "answer ?y seg = Inr d \<Longrightarrow> cn_same ?c d" using answer_same by (rule cn_same_trans)
    moreover have "cn_same ?c (?c\<lparr>cn_receiver := r, cn_sender := TCPSender_send_empty_segment (cn_sender c)\<rparr>)"
      using r(2) by (simp add: cn_same_def TCPSender_send_empty_segment_def Let_def)
    moreover have "cn_same ?c ((set_stream_errors ?c)\<lparr>cn_active := False\<rparr>)"
      using set_stream_errors_same [of ?c] by (simp add: cn_same_def)
    moreover have "cn_same ?c ?c" by (simp add: cn_same_def)
    ultimately have "cn_same ?c d"
      using segment_received_open [OF act False r(1), of stale] unfolding d by auto
    then show ?thesis by (simp add: cn_same_def)
  qed
qed

lemma connection_tick_same: "TCPConnection_tick c ms = Inr d \<Longrightarrow> cn_same c d"
proof (cases "cn_active c")
  case True
  assume d: "TCPConnection_tick c ms = Inr d"
  let ?c = "c\<lparr>cn_time_since_last_segment_received := cn_time_since_last_segment_received c + ms\<rparr>"
  obtain s where s: "TCPSender_tick (cn_sender c) ms = Inr s"
    using d True by (cases "TCPSender_tick (cn_sender c) ms") (simp_all add: TCPConnection_tick_def Let_def)
  have "cn_same c (?c\<lparr>cn_sender := s\<rparr>)" using tick_counts(2,5) [OF s] by (simp add: cn_same_def)
  moreover have "d = send_sender_segments (?c\<lparr>cn_sender := s\<rparr>) \<or>
      (\<exists>e. unclean_shutdown (?c\<lparr>cn_sender := s\<rparr>) = Inr e \<and> d = send_sender_segments e)"
    using d True s by (cases "unclean_shutdown (?c\<lparr>cn_sender := s\<rparr>)")
      (auto simp: TCPConnection_tick_def Let_def split: if_splits)
  moreover have "unclean_shutdown (?c\<lparr>cn_sender := s\<rparr>) = Inr e \<Longrightarrow>
      cn_same (?c\<lparr>cn_sender := s\<rparr>) (send_sender_segments e)" for e
    using unclean_shutdown_same send_sender_segments_same by (rule cn_same_trans)
  ultimately have "cn_same (?c\<lparr>cn_sender := s\<rparr>) d"
    using send_sender_segments_same by blast
  with \<open>cn_same c (?c\<lparr>cn_sender := s\<rparr>)\<close> show "cn_same c d" by (rule cn_same_trans)
qed (simp add: TCPConnection_tick_def cn_same_def)

section \<open>Reachable connections\<close>

text \<open>
  The steps of the owner of a connection that sends \<open>S\<close>: open it, write the next bytes of \<open>S\<close>, end
  the stream once all is written, let time pass, read from the inbound stream (the last argument is
  what is read) and take segments from the outgoing queue.
\<close>

inductive conn_step :: "bytes \<Rightarrow> tcp_connection \<Rightarrow> tcp_connection \<Rightarrow> bytes \<Rightarrow> bool" for S where
  begin_conn: "conn_step S c (TCPConnection_connect c) []"
| put: "take (length d) (drop (unat (bs_nwritten (sd_stream (cn_sender c)))) S) = d \<Longrightarrow>
    conn_step S c (fst (TCPConnection_write c d)) []"
| finish: "unat (bs_nwritten (sd_stream (cn_sender c))) = length S \<Longrightarrow>
    conn_step S c (TCPConnection_end_input_stream c) []"
| tick: "TCPConnection_tick c ms = Inr c' \<Longrightarrow> conn_step S c c' []"
| get: "TCPConnection_read c n = (c', d) \<Longrightarrow> conn_step S c c' d"
| take: "conn_step S c (c\<lparr>cn_segments_out := drop k (cn_segments_out c)\<rparr>) []"

text \<open>
  The connections reached when the peer sends \<open>R\<close> from the initial number \<open>p\<close>: any segment of the
  peer may arrive, in any order and any number of times, as long as its number is within half the
  sequence space. The last argument collects what was read.
\<close>

inductive conn_reach ::
  "bytes \<Rightarrow> bytes \<Rightarrow> WrappingInt32 \<Rightarrow> tcp_config \<Rightarrow> tcp_connection \<Rightarrow> bytes \<Rightarrow> bool"
  for S R p cfg where
  start: "conn_reach S R p cfg (TCPConnection_new cfg rand) []"
| step: "conn_reach S R p cfg c out \<Longrightarrow> conn_step S c c' d \<Longrightarrow> conn_reach S R p cfg c' (out @ d)"
| recv: "conn_reach S R p cfg c out \<Longrightarrow> segment_of R p a seg \<Longrightarrow>
    seqno_near a (ByteStream_bytes_written (TCPConnection_inbound_stream c)) \<Longrightarrow>
    TCPConnection_segment_received stale c seg = Inr c' \<Longrightarrow> conn_reach S R p cfg c' out"

text \<open>The sizes for which the 64-bit counters of the connection do not wrap.\<close>

definition sizes_ok :: "bytes \<Rightarrow> bytes \<Rightarrow> tcp_config \<Rightarrow> bool" where
  "sizes_ok S R cfg \<longleftrightarrow> tc_recv_capacity cfg \<noteq> 0 \<and> length S + 2 ^ 33 \<le> 2 ^ 64 \<and>
     length R + unat (tc_recv_capacity cfg) + 2 ^ 33 \<le> 2 ^ 64"

lemma conn_step_inv:
  assumes "conn_step S c c' d" "cn_inv S R p c"
  shows "cn_inv S R p c' \<and> take (tr_nread (cn_receiver c)) R @ d = take (tr_nread (cn_receiver c')) R \<and>
    sd_isn (cn_sender c') = sd_isn (cn_sender c)"
  using assms
proof cases
  case begin_conn
  have "cn_base S R p c" "cn_done c" using assms(2) by (simp_all add: cn_inv_def cn_core_def)
  with begin_conn connect_same [of c] show ?thesis by (simp add: connect_inv cn_same_def)
next
  case (put x)
  let ?t = "(cn_sender c)\<lparr>sd_stream := fst (ByteStream_write (sd_stream (cn_sender c)) x)\<rparr>"
  from put connection_write_inv [OF assms(2) put(3)]
    send_sender_segments_same [of "c\<lparr>cn_sender := TCPSender_fill_window ?t\<rparr>"]
  show ?thesis by (simp add: TCPConnection_write_def cn_same_def case_prod_beta Let_def)
next
  case finish
  let ?t = "(cn_sender c)\<lparr>sd_stream := ByteStream_end_input (sd_stream (cn_sender c))\<rparr>"
  from finish end_input_stream_inv [OF assms(2) finish(3)]
    send_sender_segments_same [of "c\<lparr>cn_sender := TCPSender_fill_window ?t\<rparr>"]
  show ?thesis by (simp add: TCPConnection_end_input_stream_def cn_same_def Let_def)
next
  case (tick ms)
  with connection_tick_inv [OF assms(2), of ms] connection_tick_same [of c ms c'] show ?thesis
    by (auto simp: cn_same_def)
next
  case (get n)
  with connection_read_inv [OF assms(2), of n] show ?thesis
    by (auto simp: TCPConnection_read_def case_prod_beta)
next
  case (take k)
  with take_segments_inv [OF assms(2), of k] show ?thesis by simp
qed

lemma conn_reach_inv:
  assumes "conn_reach S R p cfg c out" "sizes_ok S R cfg"
  shows "cn_inv S R p c \<and> out = take (tr_nread (cn_receiver c)) R"
  using assms(1)
proof induction
  case (start rand)
  have "cn_inv S R p (TCPConnection_new cfg rand)"
    using assms(2) by (intro connection_new_inv) (simp_all add: sizes_ok_def)
  then show ?case
    by (simp add: TCPConnection_new_def TCPReceiver_new_def StreamReassembler_new_def tr_nread_def
        tr_stream_defs ByteStream_new_def)
next
  case (step c out c' d)
  then show ?case using conn_step_inv [OF step(2), of R p] by simp
next
  case (recv c out a seg stale c')
  then show ?case
    using segment_received_inv [of S R p c a seg stale] segment_received_same [of S R p c a seg stale c']
    by (auto simp: cn_same_def)
qed

text \<open>The streams of a connection, and the numbers of a peer that sends less than half the sequence space.\<close>

lemma conn_streams_wf:
  assumes "cn_inv S R p c"
  shows "bs_wf (sd_stream (cn_sender c))" "bs_wf (TCPConnection_inbound_stream c)"
    "unat (ByteStream_bytes_written (TCPConnection_inbound_stream c)) \<le> length R"
proof -
  have *: "stream_of S (sd_stream (cn_sender c))" "sr_agrees R (tr_reassembler (cn_receiver c))"
    using assms by (simp_all add: cn_inv_def cn_core_def cn_base_def sd_agrees_def tr_agrees_def)
  from *(1) show "bs_wf (sd_stream (cn_sender c))" by (simp add: stream_of_def)
  from *(2) have "sr_wf (tr_reassembler (cn_receiver c))" "sr_pos (tr_reassembler (cn_receiver c)) \<le> length R"
    by (simp_all add: sr_agrees_def)
  then show "bs_wf (TCPConnection_inbound_stream c)"
    "unat (ByteStream_bytes_written (TCPConnection_inbound_stream c)) \<le> length R"
    by (simp_all add: sr_wf_def sr_pos_def TCPConnection_inbound_stream_def tr_stream_defs)
qed

lemma peer_number_near:
  assumes "cn_inv S R p c" "segment_of R p a seg" "length R + 2 < 2 ^ 31"
  shows "seqno_near a (ByteStream_bytes_written (TCPConnection_inbound_stream c))"
  using conn_streams_wf(3) [OF assms(1)] assms(2,3) by (simp add: seqno_near_def segment_of_def)

text \<open>Writing within the capacity takes everything.\<close>

lemma write_advances:
  assumes "length d \<le> unat (TCPConnection_remaining_outbound_capacity c)"
    and "unat (bs_nwritten (sd_stream (cn_sender c))) + length d < 2 ^ 64"
  shows "unat (snd (TCPConnection_write c d)) = length d"
    "unat (bs_nwritten (sd_stream (cn_sender (fst (TCPConnection_write c d)))))
       = unat (bs_nwritten (sd_stream (cn_sender c))) + length d"
proof -
  let ?b = "sd_stream (cn_sender c)"
  let ?t = "(cn_sender c)\<lparr>sd_stream := fst (ByteStream_write ?b d)\<rparr>"
  have w: "unat (snd (ByteStream_write ?b d)) = length d"
    using assms(1) by (simp add: stream_simps TCPConnection_remaining_outbound_capacity_def bs_room_def)
  then have "unat (bs_nwritten (fst (ByteStream_write ?b d))) = unat (bs_nwritten ?b) + length d"
    using assms(2) by (simp add: stream_simps unat_word_ariths)
  then show "unat (bs_nwritten (sd_stream (cn_sender (fst (TCPConnection_write c d)))))
       = unat (bs_nwritten ?b) + length d"
    using send_sender_segments_same [of "c\<lparr>cn_sender := TCPSender_fill_window ?t\<rparr>"]
    by (simp add: TCPConnection_write_def cn_same_def case_prod_beta Let_def)
  show "unat (snd (TCPConnection_write c d)) = length d"
    using w by (simp add: TCPConnection_write_def case_prod_beta Let_def)
qed

lemma end_input_written:
  "bs_nwritten (sd_stream (cn_sender (TCPConnection_end_input_stream c))) = bs_nwritten (sd_stream (cn_sender c))"
proof -
  let ?t = "(cn_sender c)\<lparr>sd_stream := ByteStream_end_input (sd_stream (cn_sender c))\<rparr>"
  show ?thesis
    using send_sender_segments_same [of "c\<lparr>cn_sender := TCPSender_fill_window ?t\<rparr>"]
    by (simp add: TCPConnection_end_input_stream_def cn_same_def Let_def ByteStream_end_input_def)
qed

section \<open>Properties\<close>

text \<open>The configuration of the examples below: small streams and a fixed initial number.\<close>

definition small_config :: "u32 \<Rightarrow> tcp_config" where
  "small_config isn = \<lparr>tc_rt_timeout = 1000, tc_recv_capacity = 8, tc_send_capacity = 8,
     tc_fixed_isn = Some (WrappingInt32 isn)\<rparr>"

lemma small_config_ok: "length S \<le> 100 \<Longrightarrow> length R \<le> 100 \<Longrightarrow> sizes_ok S R (small_config isn)"
  by (simp add: sizes_ok_def small_config_def)

lemma syn_segment_of: "segment_of R p 0 (syn_segment p)"
  by (simp add: segment_of_def syn_segment_def piece_of_def Buffer_copy_def Buffer_str_default
      TCPHeader_default_def)

lemma connect_new_reach:
  "conn_reach S R p cfg (TCPConnection_connect (TCPConnection_new cfg rand)) []"
  using conn_reach.step [OF conn_reach.start conn_step.begin_conn] by simp

lemma send_sender_segments_receiver [simp]: "cn_receiver (send_sender_segments c) = cn_receiver c"
  by (simp add: send_sender_segments_eq clean_shutdown_def)

lemma connect_new_written:
  "ByteStream_bytes_written (TCPConnection_inbound_stream
     (TCPConnection_connect (TCPConnection_new cfg rand))) = 0"
  by (simp add: TCPConnection_connect_def TCPConnection_inbound_stream_def TCPConnection_new_def
      TCPReceiver_new_def StreamReassembler_new_def tr_stream_defs ByteStream_new_def)

lemma unclean_shutdown_result:
  assumes "unclean_shutdown c = Inr d"
  shows "\<not> cn_active d" "ByteStream_error (TCPConnection_inbound_stream d)"
    "ByteStream_error (sd_stream (cn_sender d))" "th_rst (ts_header (last (cn_segments_out d)))"
  using assms
  by (auto simp: unclean_shutdown_eq Let_def set_stream_errors_def TCPConnection_inbound_stream_def
      tr_stream_defs ByteStream_set_error_def ByteStream_error_def rst_segment_def split: list.splits)

text \<open>
  A connection never fails. In every reachable state, a segment of the peer and the passing of
  time are handled without a read from an empty queue and without a division by zero.
\<close>

theorem TCPConnection_never_faults:
  assumes "conn_reach S R p cfg c out" and "sizes_ok S R cfg" and "segment_of R p a seg"
    and "seqno_near a (ByteStream_bytes_written (TCPConnection_inbound_stream c))"
  shows "(\<exists>d. TCPConnection_segment_received stale c seg = Inr d) \<and>
    (\<exists>d. TCPConnection_tick c ms = Inr d)"
proof -
  have "cn_inv S R p c" using conn_reach_inv [OF assms(1,2)] by blast
  from segment_received_inv [OF this assms(3,4)] connection_tick_inv [OF this] show ?thesis by blast
qed

theorem TCPConnection_never_faults_witness:
  "\<exists>d. TCPConnection_segment_received (WrappingInt32 0)
     (TCPConnection_connect (TCPConnection_new (small_config 3) (WrappingInt32 0)))
     (syn_segment (WrappingInt32 9)) = Inr d"
  using TCPConnection_never_faults [OF connect_new_reach small_config_ok syn_segment_of,
      of "[1]" "[2]"] by (simp add: connect_new_written seqno_near_def)

text \<open>
  C3: A connection delivers the peer's stream. What the application has read, followed by what is
  buffered, is the prefix of the peer's stream of the length written so far, and the application
  sees the end of the stream only after it has read all of it.
\<close>

theorem TCPConnection_delivers:
  assumes "conn_reach S R p cfg c out" and "sizes_ok S R cfg"
  shows "out @ bs_buffer (TCPConnection_inbound_stream c)
      = take (unat (ByteStream_bytes_written (TCPConnection_inbound_stream c))) R \<and>
    (ByteStream_eof (TCPConnection_inbound_stream c) \<longrightarrow> out = R)"
proof -
  have "tr_agrees R p (cn_receiver c)" and out: "out = take (tr_nread (cn_receiver c)) R"
    using conn_reach_inv [OF assms] by (simp_all add: cn_inv_def cn_core_def cn_base_def)
  from tr_agrees_delivers [OF this(1)] show ?thesis
    by (auto simp: out TCPConnection_inbound_stream_def)
qed

theorem TCPConnection_delivers_witness:
  "bs_buffer (TCPConnection_inbound_stream
     (TCPConnection_connect (TCPConnection_new (small_config 3) (WrappingInt32 0)))) = []"
  using TCPConnection_delivers [OF connect_new_reach small_config_ok, of "[1]" "[2]" 3 "WrappingInt32 0"]
  by (simp add: connect_new_written)

text \<open>
  A connection transmits only its own stream: every segment in its outgoing queue, also one that
  resets the connection, carries the bytes of the stream at its sequence number.
\<close>

theorem TCPConnection_transmits_stream:
  assumes "conn_reach S R p cfg c out" and "sizes_ok S R cfg" and "seg \<in> set (cn_segments_out c)"
  shows "\<exists>a. segment_of S (sd_isn (cn_sender c)) a seg"
  using conn_reach_inv [OF assms(1,2)] assms(3) by (simp add: cn_inv_def cn_core_def cn_base_def)

theorem TCPConnection_transmits_stream_witness:
  "\<exists>a. segment_of [1] (WrappingInt32 3) a (hd (cn_segments_out
     (TCPConnection_connect (TCPConnection_new (small_config 3) (WrappingInt32 0)))))"
proof -
  let ?c = "TCPConnection_connect (TCPConnection_new (small_config 3) (WrappingInt32 0))"
  have "cn_segments_out ?c \<noteq> []" "sd_isn (cn_sender ?c) = WrappingInt32 3" by code_simp+
  then show ?thesis
    using TCPConnection_transmits_stream [OF connect_new_reach small_config_ok, of "[1]" "[2]"
      "hd (cn_segments_out ?c)" 3 "WrappingInt32 0"] by simp
qed

text \<open>
  C4: A clean close is complete. A reachable connection that is no longer active and was not reset
  has assembled the whole stream of the peer, has sent its own whole stream and the FIN, and all of
  it was acknowledged; if it had to linger, it did so for ten times the retransmission timeout after
  the last segment.
\<close>

theorem TCPConnection_clean_close:
  assumes "conn_reach S R p cfg c out" and "sizes_ok S R cfg"
    and "\<not> TCPConnection_active c" and "\<not> ByteStream_error (TCPConnection_inbound_stream c)"
  shows "out @ bs_buffer (TCPConnection_inbound_stream c) = R \<and>
    unat (ByteStream_bytes_read (sd_stream (cn_sender c))) = length S \<and>
    unat (TCPSender_next_seqno_absolute (cn_sender c)) = length S + 2 \<and>
    TCPConnection_bytes_in_flight c = 0 \<and>
    (cn_linger_after_streams_finish c \<longrightarrow>
       10 * ucast (tc_rt_timeout (cn_cfg c)) \<le> TCPConnection_time_since_last_segment_received c)"
proof -
  have core: "cn_core S R p c" and don: "cn_done c" and out: "out = take (tr_nread (cn_receiver c)) R"
    using conn_reach_inv [OF assms(1,2)] by (simp_all add: cn_inv_def)
  then have tr: "tr_agrees R p (cn_receiver c)" and sd: "sd_agrees S (cn_sender c)"
    by (simp_all add: cn_core_def cn_base_def)
  have closed: "ByteStream_input_ended (TCPReceiver_stream_out (cn_receiver c))"
    "sd_fin_sent (cn_sender c)" "sd_bytes_in_flight (cn_sender c) = 0"
    using don assms(3,4)
    by (auto simp: cn_done_def cn_error_def TCPConnection_active_def TCPConnection_inbound_stream_def)
  have "unat (ByteStream_bytes_written (TCPReceiver_stream_out (cn_receiver c))) = length R"
    using closed(1) tr_agrees_ended [OF tr] written_pos [of R "cn_receiver c"] tr
    by (simp add: tr_agrees_def)
  then have "out @ bs_buffer (TCPConnection_inbound_stream c) = R"
    using tr_agrees_delivers(1) [OF tr] out by (simp add: TCPConnection_inbound_stream_def)
  moreover have "unat (bs_nread (sd_stream (cn_sender c))) = length S" "sd_syn_sent (cn_sender c)"
    using closed(2) sd by (auto simp: sd_agrees_def)
  moreover from this have "unat (sd_next_seqno (cn_sender c)) = length S + 2"
    using closed(2) sd by (simp add: sd_agrees_def)
  ultimately show ?thesis
    using don assms(3,4) closed(3)
    by (auto simp: cn_done_def cn_error_def TCPConnection_active_def ByteStream_bytes_read_def
        TCPSender_next_seqno_absolute_def TCPConnection_bytes_in_flight_def
        TCPSender_bytes_in_flight_def TCPConnection_time_since_last_segment_received_def)
qed

text \<open>
  A passive open and close as a run: the peer opens, sends the stream \<open>[2]\<close> with its FIN and
  acknowledges; the connection itself sends the empty stream.
\<close>

definition peer_segment :: "u64 \<Rightarrow> bytes \<Rightarrow> bool \<Rightarrow> bool \<Rightarrow> u32 \<Rightarrow> tcp_segment" where
  "peer_segment a d fin ack ackno =
     TCPSegment_default\<lparr>ts_header := TCPHeader_default\<lparr>th_seqno := wrap a (WrappingInt32 9),
         th_syn := (a = 0), th_fin := fin, th_ack := ack, th_ackno := WrappingInt32 ackno,
         th_win := 5\<rparr>, ts_payload := Buffer_new d\<rparr>"

definition recv_ok :: "tcp_connection \<Rightarrow> tcp_segment \<Rightarrow> tcp_connection" where
  "recv_ok c seg = projr (TCPConnection_segment_received (WrappingInt32 0) c seg)"

definition passive_open :: tcp_connection where
  "passive_open = recv_ok (TCPConnection_new (small_config 3) (WrappingInt32 0))
     (peer_segment 0 [] False False 0)"

definition passive_data :: tcp_connection where
  "passive_data = recv_ok passive_open (peer_segment 1 [2] True True 4)"

definition passive_close :: tcp_connection where
  "passive_close = recv_ok (TCPConnection_end_input_stream passive_data) (peer_segment 3 [] False True 5)"

lemma recv_ok_reach:
  assumes "conn_reach S R p cfg c out" "sizes_ok S R cfg" "segment_of R p a seg"
    and "seqno_near a (ByteStream_bytes_written (TCPConnection_inbound_stream c))"
  shows "conn_reach S R p cfg (recv_ok c seg) out"
proof -
  obtain d where "TCPConnection_segment_received (WrappingInt32 0) c seg = Inr d"
    using segment_received_inv conn_reach_inv [OF assms(1,2)] assms(3,4) by blast
  with conn_reach.recv [OF assms(1,3,4)] show ?thesis by (simp add: recv_ok_def)
qed

lemma passive_segments:
  "segment_of [2] (WrappingInt32 9) 0 (peer_segment 0 [] False False 0)"
  "segment_of [2] (WrappingInt32 9) 1 (peer_segment 1 [2] True True 4)"
  "segment_of [2] (WrappingInt32 9) 3 (peer_segment 3 [] False True 5)"
  by (simp_all add: segment_of_def peer_segment_def piece_of_def Buffer_copy_def Buffer_str_new seg_index_def)

lemma passive_written:
  "ByteStream_bytes_written (TCPConnection_inbound_stream
     (TCPConnection_new (small_config 3) (WrappingInt32 0))) = 0"
  "ByteStream_bytes_written (TCPConnection_inbound_stream passive_open) = 0"
  "ByteStream_bytes_written (TCPConnection_inbound_stream (TCPConnection_end_input_stream passive_data)) = 1"
  by code_simp+

lemma passive_sender: "bs_nwritten (sd_stream (cn_sender passive_data)) = 0" 
  by code_simp

lemma passive_closed:
  "\<not> TCPConnection_active passive_close" "\<not> ByteStream_error (TCPConnection_inbound_stream passive_close)"
  by code_simp+

lemma passive_open_reach: "conn_reach [] [2] (WrappingInt32 9) (small_config 3) passive_open []"
  unfolding passive_open_def
  by (rule recv_ok_reach [OF conn_reach.start small_config_ok passive_segments(1)])
    (simp_all add: passive_written seqno_near_def)

lemma passive_close_reach: "conn_reach [] [2] (WrappingInt32 9) (small_config 3) passive_close []"
proof -
  have "conn_reach [] [2] (WrappingInt32 9) (small_config 3) passive_data []"
    unfolding passive_data_def
    by (rule recv_ok_reach [OF passive_open_reach small_config_ok passive_segments(2)])
      (simp_all add: passive_written seqno_near_def)
  then have "conn_reach [] [2] (WrappingInt32 9) (small_config 3) (TCPConnection_end_input_stream passive_data) []"
    using conn_reach.step [OF _ conn_step.finish] passive_sender by fastforce
  then show ?thesis
    unfolding passive_close_def
    by (rule recv_ok_reach [OF _ small_config_ok passive_segments(3)])
      (simp_all add: passive_written seqno_near_def)
qed

theorem TCPConnection_clean_close_witness:
  "bs_buffer (TCPConnection_inbound_stream passive_close) = [2] \<and>
   TCPConnection_bytes_in_flight passive_close = 0"
  using TCPConnection_clean_close [OF passive_close_reach small_config_ok passive_closed] by simp

end
