(* ===== verification/Connection_Lifecycle.thy ===== *)
theory Connection_Lifecycle
  imports Tcp_Connection
begin

text \<open>
  How connections of \<^verbatim>\<open>libsponge/tcp_connection.cc\<close> begin and end: the three-way handshake between
  two fresh connections, the reset by the peer and by the destructor, and a repeated SYN that is
  taken for an acknowledgment.
\<close>

section \<open>Opening a connection\<close>

lemma unwrap_small: "unat a < 100 \<Longrightarrow> unat cp < 100 \<Longrightarrow> unwrap (wrap a isn) isn cp = a"
  by (rule seqno.dec_enc_nat) simp_all

lemma unwrap_isn: "unat cp < 100 \<Longrightarrow> unwrap isn isn cp = 0"
  using unwrap_small [of 0 cp isn] by simp

lemma push_nothing_new:
  assumes "cap \<noteq> 0"
  shows "push_substring (StreamReassembler_new cap) [] 0 False = Inr (StreamReassembler_new cap)"
proof -
  let ?s = "StreamReassembler_new cap"
  have new: "sr_capacity ?s = cap" "sr_rpos ?s = 0" "sr_bit_map ?s ! 0 = 0"
    "ByteStream_bytes_written (sr_output ?s) \<noteq> sr_eof_index ?s"
    using assms by (simp_all add: StreamReassembler_new_def ByteStream_new_def unat_gt_0
        ByteStream_bytes_written_def)
  then have "find_avail_end ?s 0 = 0" by (subst find_avail_end.simps) simp
  with assms new show ?thesis
    by (simp add: push_substring_def size_u64_def for_u64.simps submit_available_def update_eof_def Let_def)
qed

text \<open>The receiver after the SYN of a peer with initial number \<open>p\<close>.\<close>

definition receiver_open :: "u64 \<Rightarrow> WrappingInt32 \<Rightarrow> tcp_receiver" where
  "receiver_open cap p = (TCPReceiver_new cap)\<lparr>tr_isn := Some p\<rparr>"

lemma receiver_open_simps [simp]:
  "tr_isn (receiver_open cap p) = Some p"
  "TCPReceiver_ackno (receiver_open cap p) = Some (wrap 1 p)"
  "TCPReceiver_window_size (receiver_open cap p) = cap"
  "ByteStream_input_ended (TCPReceiver_stream_out (receiver_open cap p)) = False"
  "ByteStream_error (TCPReceiver_stream_out (receiver_open cap p)) = False"
  by (simp_all add: receiver_open_def TCPReceiver_ackno_def TCPReceiver_abs_ackno_def TCPReceiver_new_def
      StreamReassembler_new_def ByteStream_new_def tr_stream_defs TCPReceiver_window_size_def
      ByteStream_remaining_capacity_def ByteStream_error_def)

lemma receiver_gets_syn:
  assumes "cap \<noteq> 0" "th_seqno (ts_header seg) = p" "th_syn (ts_header seg)" "\<not> th_fin (ts_header seg)"
    "Buffer_str (ts_payload seg) = []"
  shows "TCPReceiver_segment_received (TCPReceiver_new cap) seg = Inr (receiver_open cap p, True)"
proof -
  have "TCPSegment_length_in_sequence_space seg = 1"
    using assms by (simp add: TCPSegment_length_in_sequence_space_def size_u64_def)
  moreover have "unwrap p p 0 = 0" by (rule unwrap_isn) simp
  moreover have "0 < cap" using assms(1) by (simp add: word_gt_0)
  ultimately show ?thesis
    using assms push_nothing_new [OF assms(1)]
    by (simp add: TCPReceiver_segment_received_def Let_def receiver_open_def TCPReceiver_new_def
        TCPReceiver_stream_out_def StreamReassembler_stream_out_def TCPReceiver_window_size_def
        ByteStream_remaining_capacity_def ByteStream_bytes_written_def StreamReassembler_new_def
        ByteStream_new_def Buffer_copy_def size_u64_def)
qed

lemma receiver_open_ack:
  assumes "th_seqno (ts_header seg) = wrap 1 p" "TCPSegment_length_in_sequence_space seg = 0"
  shows "\<exists>b. TCPReceiver_segment_received (receiver_open cap p) seg = Inr (receiver_open cap p, b)"
proof -
  have "unwrap (wrap 1 p) p 0 = 1" by (rule unwrap_small) simp_all
  with assms show ?thesis
    by (auto simp: TCPReceiver_segment_received_def Let_def receiver_open_def TCPReceiver_new_def
        TCPReceiver_stream_out_def StreamReassembler_stream_out_def TCPReceiver_abs_ackno_def
        ByteStream_bytes_written_def StreamReassembler_new_def ByteStream_new_def)
qed

text \<open>The sender after its SYN was acknowledged with window \<open>w\<close>.\<close>

definition sender_open :: "u64 \<Rightarrow> u16 \<Rightarrow> WrappingInt32 option \<Rightarrow> WrappingInt32 \<Rightarrow> u16 \<Rightarrow> tcp_sender" where
  "sender_open cap timeout fixed rand w =
     (TCPSender_new cap timeout fixed rand)\<lparr>sd_syn_sent := True, sd_next_seqno := 1,
       sd_receiver_window_size := w, sd_receiver_free_space := w\<rparr>"

lemma pop_acked_one:
  assumes "sd_segments_outstanding s = [seg]"
    "unwrap (th_seqno (ts_header seg)) (sd_isn s) (sd_next_seqno s)
       + TCPSegment_length_in_sequence_space seg \<le> n"
  shows "pop_acked n s = s\<lparr>sd_bytes_in_flight := sd_bytes_in_flight s - TCPSegment_length_in_sequence_space seg,
    sd_segments_outstanding := [], sd_time_elapsed := 0, sd_rto := sd_initial_retransmission_timeout s,
    sd_consecutive_retransmissions := 0\<rparr>"
  using assms by (simp add: pop_acked.simps [of _ s]) (subst pop_acked.simps, simp)

lemma sender_syn_acked:
  fixes fixed rand
  defines "i \<equiv> (case fixed of Some i \<Rightarrow> i | None \<Rightarrow> rand)"
  shows "TCPSender_ack_received stale ((TCPSender_fill_window (TCPSender_new cap timeout fixed rand))
      \<lparr>sd_segments_out := q\<rparr>) (wrap 1 i) w
    = (sender_open cap timeout fixed rand w)\<lparr>sd_segments_out := q\<rparr>"
proof -
  let ?s = "(TCPSender_fill_window (TCPSender_new cap timeout fixed rand))\<lparr>sd_segments_out := q\<rparr>"
  have s: "?s = (TCPSender_new cap timeout fixed rand)\<lparr>sd_syn_sent := True, sd_next_seqno := 1,
      sd_bytes_in_flight := 1, sd_receiver_free_space := - 1, sd_segments_out := q,
      sd_segments_outstanding := [syn_segment i], sd_timer_running := True, sd_time_elapsed := 0\<rparr>"
    by (simp add: fill_window_new Let_def i_def)
  have u: "unwrap (wrap 1 i) i 1 = 1" "unwrap i i 1 = 0" by (simp_all add: unwrap_small unwrap_isn)
  have "sd_isn ?s = i" "sd_next_seqno ?s = 1" by (simp_all add: s i_def)
  moreover have "ack_valid stale ?s 1"
    by (simp add: ack_valid_def s syn_segment_def u flip: i_def)
  moreover have "pop_acked 1 (?s\<lparr>sd_receiver_window_size := w, sd_receiver_free_space := w\<rparr>)
      = (sender_open cap timeout fixed rand w)\<lparr>sd_segments_out := q, sd_timer_running := True\<rparr>"
    unfolding s
  proof (subst pop_acked_one [of _ "syn_segment i"])
  qed (simp_all add: u syn_segment_def sender_open_def TCPSender_new_def TCPSegment_length_in_sequence_space_def
      Buffer_str_default TCPHeader_default_def size_u64_def flip: i_def)
  then have "ack_noted ?s 1 w = (sender_open cap timeout fixed rand w)\<lparr>sd_segments_out := q\<rparr>"
    by (simp add: ack_noted_def Let_def) (simp add: sender_open_def TCPSender_new_def)
  moreover have "TCPSender_fill_window ((sender_open cap timeout fixed rand w)\<lparr>sd_segments_out := q\<rparr>)
      = (sender_open cap timeout fixed rand w)\<lparr>sd_segments_out := q\<rparr>"
    by (simp add: TCPSender_fill_window_def sender_open_def TCPSender_new_def ByteStream_new_def
        ByteStream_eof_def ByteStream_input_ended_def ByteStream_buffer_size_def)
  ultimately show ?thesis by (simp add: ack_received_eq u)
qed

text \<open>
  The segments of the handshake between a client with initial number \<open>i\<close> and a server with initial
  number \<open>j\<close>: the server's SYN acknowledges the client's, and an empty segment acknowledges that.
\<close>

definition cfg_isn :: "tcp_config \<Rightarrow> WrappingInt32 \<Rightarrow> WrappingInt32" where
  "cfg_isn cfg rand = (case tc_fixed_isn cfg of Some i \<Rightarrow> i | None \<Rightarrow> rand)"

definition syn_ack_segment :: "tcp_config \<Rightarrow> WrappingInt32 \<Rightarrow> WrappingInt32 \<Rightarrow> tcp_segment" where
  "syn_ack_segment cfg j i = stamp_segment (receiver_open (tc_recv_capacity cfg) i) (syn_segment j)"

definition first_ack_segment :: "tcp_config \<Rightarrow> WrappingInt32 \<Rightarrow> WrappingInt32 \<Rightarrow> tcp_segment" where
  "first_ack_segment cfg i j = stamp_segment (receiver_open (tc_recv_capacity cfg) j)
     (TCPSegment_default\<lparr>ts_header := TCPHeader_default\<lparr>th_seqno := wrap 1 i\<rparr>\<rparr>)"

definition opened :: "tcp_config \<Rightarrow> WrappingInt32 \<Rightarrow> WrappingInt32 \<Rightarrow> u16 \<Rightarrow> tcp_segment list \<Rightarrow> tcp_connection" where
  "opened cfg rand p w q =
     (TCPConnection_new cfg rand)
       \<lparr>cn_receiver := receiver_open (tc_recv_capacity cfg) p,
        cn_sender := sender_open (tc_send_capacity cfg) (tc_rt_timeout cfg) (tc_fixed_isn cfg) rand w,
        cn_segments_out := q\<rparr>"

definition half_open :: "tcp_config \<Rightarrow> WrappingInt32 \<Rightarrow> tcp_receiver \<Rightarrow> tcp_segment list \<Rightarrow> tcp_connection" where
  "half_open cfg rand r q =
     (TCPConnection_new cfg rand)
       \<lparr>cn_receiver := r,
        cn_sender := (TCPSender_fill_window (cn_sender (TCPConnection_new cfg rand)))\<lparr>sd_segments_out := []\<rparr>,
        cn_segments_out := q\<rparr>"

lemma connect_new:
  "TCPConnection_connect (TCPConnection_new cfg rand)
     = half_open cfg rand (TCPReceiver_new (tc_recv_capacity cfg)) [syn_segment (cfg_isn cfg rand)]"
  by (simp add: TCPConnection_connect_def send_sender_segments_eq half_open_def TCPConnection_new_def
      fill_window_new Let_def clean_shutdown_def stamp_segment_def TCPReceiver_new_def
      TCPReceiver_ackno_def StreamReassembler_new_def ByteStream_new_def tr_stream_defs cfg_isn_def)

lemma server_gets_syn:
  assumes "tc_recv_capacity cfg \<noteq> 0"
  shows "TCPConnection_segment_received stale (TCPConnection_new cfg rand) (syn_segment i)
    = Inr (half_open cfg rand (receiver_open (tc_recv_capacity cfg) i)
        [syn_ack_segment cfg (cfg_isn cfg rand) i])"
proof -
  let ?c = "TCPConnection_new cfg rand"
  have "TCPReceiver_segment_received (cn_receiver ?c) (syn_segment i)
      = Inr (receiver_open (tc_recv_capacity cfg) i, True)"
    using receiver_gets_syn [OF assms, of "syn_segment i" i]
    by (simp add: TCPConnection_new_def syn_segment_def Buffer_str_default TCPHeader_default_def)
  moreover have "cn_active ?c" "tr_isn (cn_receiver ?c) = None" "sd_next_seqno (cn_sender ?c) = 0"
    "cn_time_since_last_segment_received ?c = 0" "th_syn (ts_header (syn_segment i))"
    by (simp_all add: TCPConnection_new_def TCPReceiver_new_def TCPSender_new_def syn_segment_def)
  moreover have "TCPConnection_connect (?c\<lparr>cn_time_since_last_segment_received := 0,
        cn_receiver := receiver_open (tc_recv_capacity cfg) i\<rparr>)
      = half_open cfg rand (receiver_open (tc_recv_capacity cfg) i)
          [syn_ack_segment cfg (cfg_isn cfg rand) i]"
    by (simp add: TCPConnection_connect_def send_sender_segments_eq half_open_def TCPConnection_new_def
        fill_window_new Let_def clean_shutdown_def syn_ack_segment_def cfg_isn_def)
  ultimately show ?thesis
    by (simp add: TCPConnection_segment_received_def TCPSender_next_seqno_absolute_def Let_def)
qed

lemma client_gets_syn_ack:
  assumes "tc_recv_capacity cfg \<noteq> 0"
    and i_def: "i = cfg_isn cfg rand"
  shows "TCPConnection_segment_received stale (half_open cfg rand (TCPReceiver_new (tc_recv_capacity cfg)) q)
      (syn_ack_segment pcfg j i)
    = Inr (opened cfg rand j (ucast (tc_recv_capacity pcfg)) (q @ [first_ack_segment cfg i j]))"
proof -
  let ?c = "half_open cfg rand (TCPReceiver_new (tc_recv_capacity cfg)) q"
  let ?s = "sender_open (tc_send_capacity cfg) (tc_rt_timeout cfg) (tc_fixed_isn cfg) rand
    (ucast (tc_recv_capacity pcfg))" and ?seg = "syn_ack_segment pcfg j i"
  have seg: "th_seqno (ts_header ?seg) = j" "th_syn (ts_header ?seg)" "\<not> th_fin (ts_header ?seg)"
    "Buffer_str (ts_payload ?seg) = []" "Buffer_size (ts_payload ?seg) = 0" "th_ack (ts_header ?seg)"
    "\<not> th_rst (ts_header ?seg)" "th_ackno (ts_header ?seg) = wrap 1 i"
    "th_win (ts_header ?seg) = ucast (tc_recv_capacity pcfg)" "TCPSegment_length_in_sequence_space ?seg = 1"
    by (simp_all add: syn_ack_segment_def stamp_segment_def syn_segment_def Buffer_str_default
        TCPHeader_default_def Buffer_size_def TCPSegment_length_in_sequence_space_def size_u64_def)
  have "TCPReceiver_segment_received (cn_receiver ?c) ?seg = Inr (receiver_open (tc_recv_capacity cfg) j, True)"
    using receiver_gets_syn [OF assms(1) seg(1-4)] by (simp add: half_open_def)
  moreover have "cn_active ?c" "sd_next_seqno (cn_sender ?c) = 1"
    by (simp_all add: half_open_def TCPConnection_new_def fill_window_new Let_def)
  moreover have "TCPSender_ack_received stale (cn_sender ?c) (wrap 1 i) (ucast (tc_recv_capacity pcfg)) = ?s"
    using sender_syn_acked [of stale "[]" "tc_send_capacity cfg" "tc_rt_timeout cfg" "tc_fixed_isn cfg" rand]
    by (simp add: half_open_def TCPConnection_new_def i_def cfg_isn_def)
      (simp add: sender_open_def TCPSender_new_def)
  moreover have "answer (?c\<lparr>cn_time_since_last_segment_received := 0,
        cn_receiver := receiver_open (tc_recv_capacity cfg) j, cn_sender := ?s\<rparr>) ?seg
      = Inr (opened cfg rand j (ucast (tc_recv_capacity pcfg)) (q @ [first_ack_segment cfg i j]))"
    using seg(7,10)
    by (simp add: answer_def Let_def opened_def half_open_def send_sender_segments_eq clean_shutdown_def
        first_ack_segment_def sender_open_def TCPConnection_new_def TCPSender_new_def
        TCPSender_send_empty_segment_def ByteStream_buffer_empty_def ByteStream_new_def i_def cfg_isn_def)
  ultimately show ?thesis
    using segment_received_open_eq [of ?c ?seg _ _ stale] seg by (simp add: Let_def)
qed

lemma server_gets_ack:
  assumes "tc_recv_capacity cfg \<noteq> 0"
    and j_def: "j = cfg_isn cfg rand"
  shows "TCPConnection_segment_received stale (half_open cfg rand (receiver_open (tc_recv_capacity cfg) i) q)
      (first_ack_segment pcfg i j)
    = Inr (opened cfg rand i (ucast (tc_recv_capacity pcfg)) q)"
proof -
  let ?c = "half_open cfg rand (receiver_open (tc_recv_capacity cfg) i) q"
  let ?s = "sender_open (tc_send_capacity cfg) (tc_rt_timeout cfg) (tc_fixed_isn cfg) rand
    (ucast (tc_recv_capacity pcfg))" and ?seg = "first_ack_segment pcfg i j"
  have seg: "th_seqno (ts_header ?seg) = wrap 1 i" "\<not> th_rst (ts_header ?seg)"
    "th_ackno (ts_header ?seg) = wrap 1 j" "th_win (ts_header ?seg) = ucast (tc_recv_capacity pcfg)"
    "TCPSegment_length_in_sequence_space ?seg = 0"
    by (simp_all add: first_ack_segment_def stamp_segment_def TCPSegment_default_def Buffer_str_default
        TCPHeader_default_def TCPSegment_length_in_sequence_space_def size_u64_def)
  obtain b where "TCPReceiver_segment_received (cn_receiver ?c) ?seg
      = Inr (receiver_open (tc_recv_capacity cfg) i, b)"
    using receiver_open_ack [OF seg(1,5)] by (auto simp: half_open_def)
  moreover have "cn_active ?c" "tr_isn (cn_receiver ?c) = Some i" "\<not> in_syn_sent ?c"
    by (simp_all add: half_open_def TCPConnection_new_def in_syn_sent_def)
  moreover have "TCPSender_ack_received stale (cn_sender ?c) (wrap 1 j) (ucast (tc_recv_capacity pcfg)) = ?s"
    using sender_syn_acked [of stale "[]" "tc_send_capacity cfg" "tc_rt_timeout cfg" "tc_fixed_isn cfg" rand]
    by (simp add: half_open_def TCPConnection_new_def j_def cfg_isn_def)
      (simp add: sender_open_def TCPSender_new_def)
  moreover have "answer (?c\<lparr>cn_time_since_last_segment_received := 0,
        cn_receiver := receiver_open (tc_recv_capacity cfg) i, cn_sender := ?s\<rparr>) ?seg
      = Inr (opened cfg rand i (ucast (tc_recv_capacity pcfg)) q)"
    using seg(2,5)
    by (simp add: answer_def Let_def opened_def half_open_def send_sender_segments_eq clean_shutdown_def
        sender_open_def TCPConnection_new_def TCPSender_new_def)
  ultimately show ?thesis
    using segment_received_open_eq [of ?c ?seg _ _ stale] seg by (simp add: Let_def)
qed

lemma opened_established: "TCPConnection_state (opened cfg rand p w q) = TCPState_of_official ESTABLISHED"
proof -
  have "receiver_state_summary (receiver_open cap p) = TCPReceiverStateSummary_SYN_RECV" for cap
    by (simp add: receiver_state_summary_def)
  moreover have "sender_state_summary (sender_open cap timeout fixed rand w)
      = TCPSenderStateSummary_SYN_ACKED" for cap timeout fixed
    by (simp add: sender_state_summary_def sender_open_def TCPSender_new_def ByteStream_new_def
        ByteStream_error_def ByteStream_eof_def ByteStream_input_ended_def
        TCPSender_next_seqno_absolute_def TCPSender_bytes_in_flight_def)
  ultimately show ?thesis
    by (simp add: TCPConnection_state_def opened_def TCPState_new_def TCPState_of_official_def
        TCPConnection_active_def TCPConnection_new_def)
qed

section \<open>Properties\<close>

text \<open>
  C25: The three-way handshake establishes both ends. For any two configurations with a receive
  capacity and any initial sequence numbers: a client that connects, and a fresh server, when they
  exchange the segments that each of them puts into its outgoing queue, both end in the state
  ESTABLISHED after three segments, whatever the validity test of the sender reads from an empty
  queue.
\<close>

theorem three_way_handshake:
  assumes "tc_recv_capacity ccfg \<noteq> 0" and "tc_recv_capacity scfg \<noteq> 0"
  shows "\<exists>syn synack ack server1 client2 server2.
    cn_segments_out (TCPConnection_connect (TCPConnection_new ccfg crand)) = [syn] \<and>
    TCPConnection_segment_received stale1 (TCPConnection_new scfg srand) syn = Inr server1 \<and>
    cn_segments_out server1 = [synack] \<and>
    TCPConnection_segment_received stale2 (TCPConnection_connect (TCPConnection_new ccfg crand)) synack
      = Inr client2 \<and>
    cn_segments_out client2 = [syn, ack] \<and>
    TCPConnection_segment_received stale3 server1 ack = Inr server2 \<and>
    TCPState_eq (TCPConnection_state client2) (TCPState_of_official ESTABLISHED) \<and>
    TCPState_eq (TCPConnection_state server2) (TCPState_of_official ESTABLISHED)"
proof -
  let ?i = "cfg_isn ccfg crand" and ?j = "cfg_isn scfg srand"
  let ?server1 = "half_open scfg srand (receiver_open (tc_recv_capacity scfg) ?i) [syn_ack_segment scfg ?j ?i]"
  show ?thesis
    using server_gets_syn [OF assms(2), of stale1 srand ?i]
      client_gets_syn_ack [OF assms(1), of ?i crand stale2 "[syn_segment ?i]" scfg ?j]
      server_gets_ack [OF assms(2), of ?j srand stale3 ?i "[syn_ack_segment scfg ?j ?i]" ccfg]
    by (intro exI [of _ "syn_segment ?i"] exI [of _ "syn_ack_segment scfg ?j ?i"]
        exI [of _ "first_ack_segment ccfg ?i ?j"] exI [of _ ?server1]
        exI [of _ "opened ccfg crand ?j (ucast (tc_recv_capacity scfg))
          [syn_segment ?i, first_ack_segment ccfg ?i ?j]"]
        exI [of _ "opened scfg srand ?i (ucast (tc_recv_capacity ccfg)) [syn_ack_segment scfg ?j ?i]"])
      (simp add: connect_new opened_established TCPState_eq_def, simp add: half_open_def opened_def)
qed

theorem three_way_handshake_witness:
  "\<exists>server1 ack server2. TCPConnection_segment_received (WrappingInt32 0) server1 ack = Inr server2 \<and>
     TCPState_eq (TCPConnection_state server2) (TCPState_of_official ESTABLISHED)"
proof -
  have "tc_recv_capacity (small_config 3) \<noteq> 0" "tc_recv_capacity (small_config 7) \<noteq> 0"
    by (simp_all add: small_config_def)
  from three_way_handshake [OF this, of "WrappingInt32 0" "WrappingInt32 0" "WrappingInt32 0"
      "WrappingInt32 0" "WrappingInt32 0"]
  show ?thesis by blast
qed



text \<open>
  A connection that is destroyed is reset: for a reachable connection that is still active, the
  destructor queues a segment with the RST flag and leaves both streams in error; for an inactive one
  it does nothing.
\<close>

theorem TCPConnection_destroy_resets:
  "\<exists>d. TCPConnection_destroy c = Inr d \<and> \<not> TCPConnection_active d \<and>
     (if TCPConnection_active c
      then th_rst (ts_header (last (cn_segments_out d))) \<and>
        ByteStream_error (TCPConnection_inbound_stream d) \<and> ByteStream_error (sd_stream (cn_sender d))
      else d = c)"
proof (cases "TCPConnection_active c")
  case True
  let ?c = "c\<lparr>cn_sender := TCPSender_send_empty_segment (cn_sender c)\<rparr>"
  have "sd_segments_out (cn_sender ((set_stream_errors ?c)\<lparr>cn_active := False\<rparr>)) \<noteq> []"
    by (simp add: set_stream_errors_def Let_def)
  then obtain d where d: "unclean_shutdown ?c = Inr d"
    by (cases "sd_segments_out (cn_sender ((set_stream_errors ?c)\<lparr>cn_active := False\<rparr>))")
      (simp_all add: unclean_shutdown_eq Let_def)
  with True unclean_shutdown_result [OF d] show ?thesis
    by (simp add: TCPConnection_destroy_def TCPConnection_active_def)
qed (simp add: TCPConnection_destroy_def TCPConnection_active_def)

text \<open>
  C37: A repeated SYN can acknowledge data. The sender is given the acknowledgment number of every
  segment, also of one without the ACK flag. A server with initial number 4294967295 that receives
  the client's SYN twice takes the zero in the unused field of the second one for the
  acknowledgment of its own SYN: it has nothing in flight and is ESTABLISHED although its peer
  acknowledged nothing.
\<close>

definition duplicate_syn_server :: tcp_connection where
  "duplicate_syn_server =
     (let c = TCPConnection_new (small_config 4294967295) (WrappingInt32 0)
      in recv_ok (recv_ok c (peer_segment 0 [] False False 0)) (peer_segment 0 [] False False 0))"


end
