(* ===== verification/Addresses.thy ===== *)
theory Addresses
  imports Net_Parser
begin

text \<open>
  Socket addresses, \<^verbatim>\<open>libsponge/util/address.{hh,cc}\<close>. The resolver functions of the C library are
  parameters; what the code relies on for numeric addresses is the hypothesis \<open>numeric_libc\<close>, and
  \<open>plain_libc\<close> is an instance of it.
\<close>

section \<open>Numbers as text\<close>

text \<open>\<^verbatim>\<open>std::to_string\<close> and \<^verbatim>\<open>std::stoi\<close>, in base ten.\<close>

fun string_of_nat :: "nat \<Rightarrow> string" where
  "string_of_nat n =
     (if n < 10 then [char_of (48 + n)] else string_of_nat (n div 10) @ [char_of (48 + n mod 10)])"

declare string_of_nat.simps [simp del]

definition is_digit :: "char \<Rightarrow> bool" where
  "is_digit c \<longleftrightarrow> 48 \<le> (of_char c :: nat) \<and> (of_char c :: nat) \<le> 57"

definition is_space :: "char \<Rightarrow> bool" where
  "is_space c \<longleftrightarrow> c = CHR '' '' \<or> 9 \<le> (of_char c :: nat) \<and> (of_char c :: nat) \<le> 13"

definition digits_value :: "string \<Rightarrow> nat" where
  "digits_value ds = fold (\<lambda>c n. 10 * n + ((of_char c :: nat) - 48)) ds 0"

definition stoi :: "string \<Rightarrow> int outcome" where
  "stoi s =
     (let s = dropWhile is_space s;
          neg = (s \<noteq> [] \<and> hd s = CHR ''-'');
          s = (if s \<noteq> [] \<and> (hd s = CHR ''-'' \<or> hd s = CHR ''+'') then tl s else s);
          ds = takeWhile is_digit s;
          v = (if neg then - int (digits_value ds) else int (digits_value ds))
      in if ds = [] then Inl (Invalid_argument ''stoi'')
         else if v < - (2 ^ 31) \<or> 2 ^ 31 \<le> v then Inl (Out_of_range ''stoi'')
         else Inr v)"

lemma of_char_digit: "n < 10 \<Longrightarrow> of_char (char_of (48 + n) :: char) = (48 + n :: nat)"
  by (simp add: of_char_of)

lemma is_digit_char: "(n :: nat) < 10 \<Longrightarrow> is_digit (char_of (48 + n))"
  using of_char_digit [of n] by (simp add: is_digit_def)

lemma string_of_nat_digits: "list_all is_digit (string_of_nat n)"
proof (induction n rule: string_of_nat.induct)
  case (1 n)
  show ?case
    using 1 is_digit_char [of n] is_digit_char [of "n mod 10"]
    by (subst string_of_nat.simps) auto
qed

lemma string_of_nat_nonempty: "string_of_nat n \<noteq> []"
  by (subst string_of_nat.simps) simp

lemma digits_value_string_of_nat: "digits_value (string_of_nat n) = n"
proof (induction n rule: string_of_nat.induct)
  case (1 n)
  show ?case
    using 1 of_char_digit [of n] of_char_digit [of "n mod 10"]
    by (subst string_of_nat.simps) (auto simp: digits_value_def)
qed

lemma stoi_string_of_nat:
  assumes "n < 2 ^ 31"
  shows "stoi (string_of_nat n) = Inr (int n)"
proof -
  obtain c cs where s: "string_of_nat n = c # cs" using string_of_nat_nonempty [of n]
    by (cases "string_of_nat n") simp_all
  have c: "is_digit c" and all: "list_all is_digit (string_of_nat n)"
    using string_of_nat_digits [of n] by (simp_all add: s)
  have "\<not> is_space c" "c \<noteq> CHR ''-''" "c \<noteq> CHR ''+''"
    using c by (auto simp: is_digit_def is_space_def)
  moreover have "takeWhile is_digit cs = cs"
    using all by (simp add: takeWhile_eq_all_conv list_all_iff s)
  ultimately show ?thesis
    using assms digits_value_string_of_nat [of n] c
    by (simp add: stoi_def Let_def s del: takeWhile_eq_all_conv)
qed

section \<open>Socket addresses\<close>

text \<open>
  The resolver of the C library: \<^verbatim>\<open>getaddrinfo\<close> answers with an error code, with no result or with
  the bytes of the first socket address; \<^verbatim>\<open>getnameinfo\<close> answers with an error code or with the texts
  of host and service; \<^verbatim>\<open>inet_ntoa\<close> prints the four bytes of an address.
\<close>

datatype gai_result = Gai_failed int | Gai_none | Gai_found bytes

record addrinfo =
  ai_flags :: int
  ai_family :: int

record libc =
  lc_getaddrinfo :: "string \<Rightarrow> string \<Rightarrow> addrinfo \<Rightarrow> gai_result"
  lc_getnameinfo :: "bytes \<Rightarrow> u32 \<Rightarrow> int + string \<times> string"
  lc_inet_ntoa :: "bytes \<Rightarrow> string"

text \<open>The constants of the system headers; the family is stored with its low byte first.\<close>

definition AF_INET :: int where
  "AF_INET = 2"

definition AI_NUMERICHOST :: int where
  "AI_NUMERICHOST = 4"

definition AI_ALL :: int where
  "AI_ALL = 16"

definition AI_NUMERICSERV :: int where
  "AI_NUMERICSERV = 1024"

definition family_bytes :: bytes where
  "family_bytes = [2, 0]"

definition sizeof_sockaddr_storage :: nat where
  "sizeof_sockaddr_storage = 128"

definition sizeof_sockaddr_in :: nat where
  "sizeof_sockaddr_in = 16"

text \<open>A \<^verbatim>\<open>sockaddr_in\<close>: family, port and address in network byte order, and eight bytes of padding.\<close>

definition sockaddr_in :: "u32 \<Rightarrow> u16 \<Rightarrow> bytes" where
  "sockaddr_in ip port = family_bytes @ be_bytes port @ be_bytes ip @ replicate 8 0"

record address =
  ad_size :: u32
  ad_storage :: bytes

definition Address_new :: "bytes \<Rightarrow> nat \<Rightarrow> address outcome" where
  "Address_new addr n =
     (if n > sizeof_sockaddr_storage then Inl (Runtime_error ''invalid sockaddr size'')
      else Inr \<lparr>ad_size = word_of_nat n,
                ad_storage = take n addr @ replicate (sizeof_sockaddr_storage - n) 0\<rparr>)"

definition make_hints :: "int \<Rightarrow> int \<Rightarrow> addrinfo" where
  "make_hints flags family = \<lparr>ai_flags = flags, ai_family = family\<rparr>"

definition Address_resolve :: "libc \<Rightarrow> string \<Rightarrow> string \<Rightarrow> addrinfo \<Rightarrow> address outcome" where
  "Address_resolve lc node service hints =
     (case lc_getaddrinfo lc node service hints of
        Gai_failed gai_ret \<Rightarrow>
          Inl (Tagged_error (''getaddrinfo('' @ node @ '', '' @ service @ '')'') gai_ret)
      | Gai_none \<Rightarrow> Inl (Runtime_error ''getaddrinfo returned successfully but with no results'')
      | Gai_found addr \<Rightarrow> Address_new addr (length addr))"

definition Address_of_name :: "libc \<Rightarrow> string \<Rightarrow> string \<Rightarrow> address outcome" where
  "Address_of_name lc hostname service =
     Address_resolve lc hostname service (make_hints AI_ALL AF_INET)"

definition Address_of_ip :: "libc \<Rightarrow> string \<Rightarrow> u16 \<Rightarrow> address outcome" where
  "Address_of_ip lc ip port =
     Address_resolve lc ip (string_of_nat (unat port))
       (make_hints (AI_NUMERICHOST OR AI_NUMERICSERV) AF_INET)"

definition Address_ip_port :: "libc \<Rightarrow> address \<Rightarrow> (string \<times> u16) outcome" where
  "Address_ip_port lc a =
     (case lc_getnameinfo lc (ad_storage a) (ad_size a) of
        Inl gni_ret \<Rightarrow> Inl (Tagged_error ''getnameinfo'' gni_ret)
      | Inr (ip, port) \<Rightarrow> obind (stoi port) (\<lambda>n. Inr (ip, word_of_int n)))"

definition Address_ip :: "libc \<Rightarrow> address \<Rightarrow> string outcome" where
  "Address_ip lc a = obind (Address_ip_port lc a) (\<lambda>(ip, _). Inr ip)"

definition Address_port :: "libc \<Rightarrow> address \<Rightarrow> u16 outcome" where
  "Address_port lc a = obind (Address_ip_port lc a) (\<lambda>(_, port). Inr port)"

definition Address_to_string :: "libc \<Rightarrow> address \<Rightarrow> string outcome" where
  "Address_to_string lc a =
     obind (Address_ip_port lc a) (\<lambda>(ip, port). Inr (ip @ '':'' @ string_of_nat (unat port)))"

definition Address_ipv4_numeric :: "address \<Rightarrow> u32 outcome" where
  "Address_ipv4_numeric a =
     (if take 2 (ad_storage a) \<noteq> family_bytes \<or> ad_size a \<noteq> word_of_nat sizeof_sockaddr_in
      then Inl (Runtime_error ''ipv4_numeric called on non-IPV4 address'')
      else Inr (be_word (take 4 (drop 4 (ad_storage a)))))"

definition Address_from_ipv4_numeric :: "u32 \<Rightarrow> address outcome" where
  "Address_from_ipv4_numeric ip_address =
     Address_new (sockaddr_in ip_address 0) sizeof_sockaddr_in"

definition Address_eq :: "address \<Rightarrow> address \<Rightarrow> bool" where
  "Address_eq a other \<longleftrightarrow> ad_size a = ad_size other \<and>
     take (unat (ad_size a)) (ad_storage a) = take (unat (ad_size a)) (ad_storage other)"

section \<open>Numeric IPv4 addresses\<close>

text \<open>The address object for a numeric address and port.\<close>

definition inet_address :: "u32 \<Rightarrow> u16 \<Rightarrow> address" where
  "inet_address ip port = \<lparr>ad_size = 16, ad_storage = sockaddr_in ip port @ replicate 112 0\<rparr>"

text \<open>
  What the manual pages promise of the C library for numeric addresses: \<^verbatim>\<open>getaddrinfo\<close> with the
  numeric flags inverts the printing of \<^verbatim>\<open>inet_ntoa\<close> and of the port, and \<^verbatim>\<open>getnameinfo\<close> with the
  numeric flags prints in the same way.
\<close>

definition numeric_libc :: "libc \<Rightarrow> bool" where
  "numeric_libc lc \<longleftrightarrow>
     (\<forall>ip port. lc_getaddrinfo lc (lc_inet_ntoa lc (be_bytes (ip :: u32))) (string_of_nat (unat (port :: u16)))
        (make_hints (AI_NUMERICHOST OR AI_NUMERICSERV) AF_INET) = Gai_found (sockaddr_in ip port)) \<and>
     (\<forall>ip port. lc_getnameinfo lc (ad_storage (inet_address ip port)) 16
        = Inr (lc_inet_ntoa lc (be_bytes ip), string_of_nat (unat port)))"

lemma length_sockaddr_in [simp]: "length (sockaddr_in ip port) = 16"
  by (simp add: sockaddr_in_def family_bytes_def)

lemma Address_new_inet: "Address_new (sockaddr_in ip port) 16 = Inr (inet_address ip port)"
  by (simp add: Address_new_def inet_address_def sizeof_sockaddr_storage_def)

lemma inet_address_numeric [simp]: "Address_ipv4_numeric (inet_address ip port) = Inr ip"
  by (simp add: Address_ipv4_numeric_def inet_address_def sockaddr_in_def family_bytes_def
      sizeof_sockaddr_in_def)

lemma inet_address_port:
  assumes "numeric_libc lc"
  shows "Address_port lc (inet_address ip port) = Inr port"
proof -
  have "stoi (string_of_nat (unat port)) = Inr (int (unat port))"
    using unat_u16_less [of port] by (intro stoi_string_of_nat) simp
  with assms show ?thesis
    by (simp add: Address_port_def Address_ip_port_def numeric_libc_def inet_address_def)
qed

lemma Address_of_ip_inet:
  "numeric_libc lc \<Longrightarrow> Address_of_ip lc (lc_inet_ntoa lc (be_bytes ip)) port = Inr (inet_address ip port)"
  by (simp add: Address_of_ip_def Address_resolve_def numeric_libc_def Address_new_inet)

lemma be_bytes_inj:
  "be_bytes (v :: u16) = be_bytes w \<longleftrightarrow> v = w" "be_bytes (x :: u32) = be_bytes y \<longleftrightarrow> x = y"
  by (metis be_word_be_bytes)+

lemma Address_eq_inet:
  "Address_eq (inet_address ip port) (inet_address ip' port') \<longleftrightarrow> ip = ip' \<and> port = port'"
  by (auto simp: Address_eq_def inet_address_def sockaddr_in_def family_bytes_def be_bytes_inj)

section \<open>A C library for numeric addresses\<close>

text \<open>An instance of the library functions that prints and reads dotted quads.\<close>

fun dotted :: "bytes \<Rightarrow> string" where
  "dotted [] = []"
| "dotted [b] = string_of_nat (unat b)"
| "dotted (b # bs) = string_of_nat (unat b) @ CHR ''.'' # dotted bs"

function split_dots :: "string \<Rightarrow> string list" where
  "split_dots s =
     (case dropWhile (\<lambda>c. c \<noteq> CHR ''.'') s of
        [] \<Rightarrow> [s]
      | _ # rest \<Rightarrow> takeWhile (\<lambda>c. c \<noteq> CHR ''.'') s # split_dots rest)"
  by pat_completeness auto
termination
proof (relation "measure length")
  fix s rest :: string and c
  assume "dropWhile (\<lambda>c. c \<noteq> CHR ''.'') s = c # rest"
  then have "Suc (length rest) \<le> length s" by (metis length_Cons length_dropWhile_le)
  then show "(rest, s) \<in> measure length" by simp
qed simp

declare split_dots.simps [simp del]

definition undotted :: "string \<Rightarrow> bytes" where
  "undotted s = map (\<lambda>ds. word_of_nat (digits_value ds)) (split_dots s)"

definition plain_libc :: libc where
  "plain_libc =
     \<lparr>lc_getaddrinfo = (\<lambda>node service hints.
        Gai_found (sockaddr_in (be_word (undotted node)) (word_of_nat (digits_value service)))),
      lc_getnameinfo = (\<lambda>st len.
        Inr (dotted (take 4 (drop 4 st)), string_of_nat (unat (be_word (take 2 (drop 2 st)) :: u16)))),
      lc_inet_ntoa = dotted\<rparr>"

lemma no_dot: "list_all (\<lambda>c. c \<noteq> CHR ''.'') (string_of_nat n)"
  using string_of_nat_digits [of n] by (auto simp: list_all_iff is_digit_def)

lemma split_dots_string: "split_dots (string_of_nat n) = [string_of_nat n]"
proof -
  have "dropWhile (\<lambda>c. c \<noteq> CHR ''.'') (string_of_nat n) = []"
    using no_dot [of n] unfolding dropWhile_eq_Nil_conv list_all_iff .
  then show ?thesis by (subst split_dots.simps) (simp del: dropWhile_eq_Nil_conv)
qed

lemma split_dots_append:
  "split_dots (string_of_nat n @ CHR ''.'' # s) = string_of_nat n # split_dots s"
  using no_dot [of n]
  by (subst split_dots.simps) (simp add: list_all_iff dropWhile_append takeWhile_append)

lemma undotted_dotted: "bs \<noteq> [] \<Longrightarrow> undotted (dotted bs) = bs"
  by (induction bs rule: dotted.induct)
    (simp_all add: undotted_def split_dots_string split_dots_append digits_value_string_of_nat)

lemma plain_libc_numeric: "numeric_libc plain_libc"
proof -
  have "be_bytes (ip :: u32) \<noteq> []" for ip using length_be_bytes [of ip] by force
  then show ?thesis
    by (simp add: numeric_libc_def plain_libc_def undotted_dotted digits_value_string_of_nat
        inet_address_def sockaddr_in_def family_bytes_def)
qed

section \<open>Properties\<close>

text \<open>
  A numeric address survives its round trip through text: with a C library that prints and
  resolves numeric addresses, the address object made from the dotted quad of \<open>ip\<close> and a port
  exists, gives back \<open>ip\<close> and the port, and equals exactly the objects made from the same pair.
\<close>

theorem Address_roundtrip:
  assumes "numeric_libc lc"
  shows "\<exists>a. Address_of_ip lc (lc_inet_ntoa lc (be_bytes ip)) port = Inr a \<and>
    Address_ipv4_numeric a = Inr ip \<and> Address_port lc a = Inr port \<and>
    (\<exists>b. Address_of_ip lc (lc_inet_ntoa lc (be_bytes ip')) port' = Inr b \<and>
       (Address_eq a b \<longleftrightarrow> ip = ip' \<and> port = port'))"
  using assms by (simp add: Address_of_ip_inet inet_address_port Address_eq_inet)

theorem Address_roundtrip_witness:
  "\<exists>a. Address_of_ip plain_libc (lc_inet_ntoa plain_libc (be_bytes (2130706433 :: u32))) 80 = Inr a \<and>
    Address_ipv4_numeric a = Inr 2130706433"
  using Address_roundtrip [OF plain_libc_numeric, of 2130706433 80] by blast

end
