(* ===== verification/Datagram_Adapters.thy ===== *)
theory Datagram_Adapters
  imports Ipv4_Datagram Addresses
begin

text \<open>
  The adapters that carry TCP segments in datagrams: their configuration
  (\<^verbatim>\<open>tcp_helpers/tcp_config.hh\<close>), TCP in IPv4 (\<^verbatim>\<open>tcp_over_ip.cc\<close>), the TUN device adapter
  (\<^verbatim>\<open>tuntap_adapter.hh\<close>), TCP in UDP (\<^verbatim>\<open>fd_adapter.cc\<close>) and the adapter with random loss
  (\<^verbatim>\<open>lossy_fd_adapter.hh\<close>). What the device or socket returns on a read is an argument of the
  reading operations; what is handed to it is the result of the writing ones. The locale
  \<open>segment_link\<close> is the contract of a pair of adapters.
\<close>

section \<open>Adapter configuration\<close>

record fd_adapter_config =
  fa_source :: address
  fa_destination :: address
  fa_loss_rate_dn :: u16
  fa_loss_rate_up :: u16

text \<open>Both addresses start as address and port zero.\<close>

definition FdAdapterConfig_default :: "libc \<Rightarrow> fd_adapter_config outcome" where
  "FdAdapterConfig_default lc =
     obind (Address_of_ip lc ''0'' 0) (\<lambda>source.
     obind (Address_of_ip lc ''0'' 0) (\<lambda>destination.
       Inr \<lparr>fa_source = source, fa_destination = destination, fa_loss_rate_dn = 0, fa_loss_rate_up = 0\<rparr>))"

record fd_adapter =
  fb_cfg :: fd_adapter_config
  fb_listen :: bool

definition set_listening :: "fd_adapter \<Rightarrow> bool \<Rightarrow> fd_adapter" where
  "set_listening ad l = ad\<lparr>fb_listen := l\<rparr>"

definition listening :: "fd_adapter \<Rightarrow> bool" where
  "listening ad = fb_listen ad"

definition FdAdapter_config :: "fd_adapter \<Rightarrow> fd_adapter_config" where
  "FdAdapter_config ad = fb_cfg ad"

definition FdAdapter_tick :: "fd_adapter \<Rightarrow> u64 \<Rightarrow> fd_adapter" where
  "FdAdapter_tick ad ms = ad"

section \<open>TCP in IPv4\<close>

text \<open>
  The conditions of \<^verbatim>\<open>unwrap_tcp_in_ip\<close> are evaluated in order; those on the addresses only when the
  adapter is not listening.
\<close>

definition unwrap_tcp_in_ip ::
  "libc \<Rightarrow> fd_adapter \<Rightarrow> ipv4_datagram \<Rightarrow> (fd_adapter \<times> tcp_segment option) outcome" where
  "unwrap_tcp_in_ip lc ad ip_dgram =
     (let h = id_header ip_dgram; cfg = FdAdapter_config ad
      in obind (if \<not> listening ad
                then obind (Address_ipv4_numeric (fa_source cfg)) (\<lambda>ip. Inr (ih_dst h \<noteq> ip))
                else Inr False) (\<lambda>not_for_us.
         if not_for_us then Inr (ad, None) else
         obind (if \<not> listening ad
                then obind (Address_ipv4_numeric (fa_destination cfg)) (\<lambda>ip. Inr (ih_src h \<noteq> ip))
                else Inr False) (\<lambda>not_from_peer.
         if not_from_peer then Inr (ad, None) else
         if ih_proto h \<noteq> PROTO_TCP then Inr (ad, None) else
         obind (BufferList_to_Buffer (id_payload ip_dgram)) (\<lambda>payload.
         obind (TCPSegment_parse TCPSegment_default payload (IPv4Header_pseudo_cksum h)) (\<lambda>(tcp_seg, res).
         if res \<noteq> NoError then Inr (ad, None) else
         obind (Address_port lc (fa_source cfg)) (\<lambda>our_port.
         if th_dport (ts_header tcp_seg) \<noteq> our_port then Inr (ad, None) else
         obind (if listening ad then
                  if th_syn (ts_header tcp_seg) \<and> \<not> th_rst (ts_header tcp_seg) then
                    obind (Address_of_ip lc (lc_inet_ntoa lc (be_bytes (ih_dst h))) our_port) (\<lambda>source.
                    obind (Address_of_ip lc (lc_inet_ntoa lc (be_bytes (ih_src h)))
                             (th_sport (ts_header tcp_seg))) (\<lambda>destination.
                      Inr (Some (set_listening (ad\<lparr>fb_cfg := cfg\<lparr>fa_source := source,
                        fa_destination := destination\<rparr>\<rparr>) False))))
                  else Inr None
                else Inr (Some ad)) (\<lambda>target.
         case target of
           None \<Rightarrow> Inr (ad, None)
         | Some ad \<Rightarrow>
             obind (Address_port lc (fa_destination (FdAdapter_config ad))) (\<lambda>peer_port.
               if th_sport (ts_header tcp_seg) \<noteq> peer_port then Inr (ad, None)
               else Inr (ad, Some tcp_seg)))))))))"

text \<open>The result holds the segment with its ports set, since it is passed by reference.\<close>

definition wrap_tcp_in_ip ::
  "libc \<Rightarrow> fd_adapter \<Rightarrow> tcp_segment \<Rightarrow> (tcp_segment \<times> ipv4_datagram) outcome" where
  "wrap_tcp_in_ip lc ad seg =
     (let cfg = FdAdapter_config ad
      in obind (Address_port lc (fa_source cfg)) (\<lambda>sport.
         obind (Address_port lc (fa_destination cfg)) (\<lambda>dport.
         let seg = seg\<lparr>ts_header := (ts_header seg)\<lparr>th_sport := sport, th_dport := dport\<rparr>\<rparr>
         in obind (Address_ipv4_numeric (fa_source cfg)) (\<lambda>src.
            obind (Address_ipv4_numeric (fa_destination cfg)) (\<lambda>dst.
            let h = (id_header IPv4Datagram_default)\<lparr>ih_src := src, ih_dst := dst\<rparr>;
                h = h\<lparr>ih_len := word_of_nat (unat (ih_hlen h) * 4 + unat (th_doff (ts_header seg)) * 4
                         + Buffer_size (ts_payload seg))\<rparr>
            in obind (TCPSegment_serialize seg (IPv4Header_pseudo_cksum h)) (\<lambda>payload.
                 Inr (seg, \<lparr>id_header = h, id_payload = payload\<rparr>)))))))"

text \<open>
  The adapter over a TUN device: \<open>packet\<close> is what the read from the device returned, and the bytes
  of the result of writing are what is written to it.
\<close>

definition TunFdAdapter_read ::
  "libc \<Rightarrow> fd_adapter \<Rightarrow> bytes \<Rightarrow> (fd_adapter \<times> tcp_segment option) outcome" where
  "TunFdAdapter_read lc ad packet =
     obind (IPv4Datagram_parse IPv4Datagram_default (Buffer_new packet)) (\<lambda>(ip_dgram, res).
       if res \<noteq> NoError then Inr (ad, None) else unwrap_tcp_in_ip lc ad ip_dgram)"

definition TunFdAdapter_write :: "libc \<Rightarrow> fd_adapter \<Rightarrow> tcp_segment \<Rightarrow> (tcp_segment \<times> bytes) outcome" where
  "TunFdAdapter_write lc ad seg =
     obind (wrap_tcp_in_ip lc ad seg) (\<lambda>(seg, ip_dgram).
     obind (IPv4Datagram_serialize ip_dgram) (\<lambda>bl. Inr (seg, BufferList_concatenate bl)))"

section \<open>TCP in UDP\<close>

text \<open>\<open>source_address\<close> and \<open>payload\<close> are the datagram that the socket received.\<close>

definition UDPSocketAdapter_read ::
  "fd_adapter \<Rightarrow> address \<Rightarrow> bytes \<Rightarrow> (fd_adapter \<times> tcp_segment option) outcome" where
  "UDPSocketAdapter_read ad source_address payload =
     (if \<not> listening ad \<and> \<not> Address_eq source_address (fa_destination (FdAdapter_config ad))
      then Inr (ad, None)
      else obind (TCPSegment_parse TCPSegment_default (Buffer_new payload) 0) (\<lambda>(seg, res).
        if res \<noteq> NoError then Inr (ad, None)
        else if listening ad then
          if th_syn (ts_header seg) \<and> \<not> th_rst (ts_header seg)
          then Inr (set_listening (ad\<lparr>fb_cfg := (fb_cfg ad)\<lparr>fa_destination := source_address\<rparr>\<rparr>) False,
                    Some seg)
          else Inr (ad, None)
        else Inr (ad, Some seg)))"

text \<open>The result is the segment with its ports, and the destination and payload handed to the socket.\<close>

definition UDPSocketAdapter_write ::
  "libc \<Rightarrow> fd_adapter \<Rightarrow> tcp_segment \<Rightarrow> (tcp_segment \<times> address \<times> bytes) outcome" where
  "UDPSocketAdapter_write lc ad seg =
     (let cfg = FdAdapter_config ad
      in obind (Address_port lc (fa_source cfg)) (\<lambda>sport.
         obind (Address_port lc (fa_destination cfg)) (\<lambda>dport.
         let seg = seg\<lparr>ts_header := (ts_header seg)\<lparr>th_sport := sport, th_dport := dport\<rparr>\<rparr>
         in obind (TCPSegment_serialize seg 0) (\<lambda>bl.
              Inr (seg, fa_destination cfg, BufferList_concatenate bl)))))"

section \<open>Random loss\<close>

text \<open>\<open>draw\<close> is the number that the random number generator gives; it is only drawn when there is loss.\<close>

definition should_drop :: "fd_adapter_config \<Rightarrow> bool \<Rightarrow> u32 \<Rightarrow> bool" where
  "should_drop cfg uplink draw =
     (let loss = (if uplink then fa_loss_rate_up cfg else fa_loss_rate_dn cfg)
      in loss \<noteq> 0 \<and> (ucast draw :: u16) < loss)"

text \<open>
  The lossy adapter over an adapter with state \<open>'a\<close>, whose configuration, read and write are
  arguments.
\<close>

definition LossyFdAdapter_read ::
  "('a \<Rightarrow> fd_adapter_config) \<Rightarrow> ('a \<Rightarrow> ('a \<times> tcp_segment option) outcome) \<Rightarrow> 'a \<Rightarrow> u32 \<Rightarrow>
     ('a \<times> tcp_segment option) outcome" where
  "LossyFdAdapter_read config read_op ad draw =
     obind (read_op ad) (\<lambda>(ad, ret).
       if should_drop (config ad) False draw then Inr (ad, None) else Inr (ad, ret))"

definition LossyFdAdapter_write ::
  "('a \<Rightarrow> fd_adapter_config) \<Rightarrow> ('a \<Rightarrow> tcp_segment \<Rightarrow> (tcp_segment \<times> 'w) outcome) \<Rightarrow> 'a \<Rightarrow>
     tcp_segment \<Rightarrow> u32 \<Rightarrow> (tcp_segment \<times> 'w option) outcome" where
  "LossyFdAdapter_write config write_op ad seg draw =
     (if should_drop (config ad) True draw then Inr (seg, None)
      else obind (write_op ad seg) (\<lambda>(seg, w). Inr (seg, Some w)))"

text \<open>Without loss the lossy adapter is the adapter that it wraps, whatever is drawn.\<close>

lemma LossyFdAdapter_lossless:
  assumes "\<And>ad. fa_loss_rate_dn (config ad) = 0" "\<And>ad. fa_loss_rate_up (config ad) = 0"
  shows "LossyFdAdapter_read config read_op ad draw = read_op ad"
    and "LossyFdAdapter_write config write_op ad seg draw
      = obind (write_op ad seg) (\<lambda>(seg, w). Inr (seg, Some w))"
  using assms
  by (simp_all add: LossyFdAdapter_read_def LossyFdAdapter_write_def should_drop_def obind_def
      split: sum.split)

section \<open>From one end to the other\<close>

lemma unat_add_le: "unat (a + b) \<le> unat a + unat (b :: 'a::len word)"
  by (simp add: unat_word_ariths)

lemma half_words_le:
  fixes x :: u32
  shows "unat (drop_bit 16 x + (x AND 0xffff)) \<le> 2 * 65535"
proof -
  have "unat (drop_bit 16 x) = unat x div 2 ^ 16"
    by (simp only: unat_drop_bit_eq) (simp add: drop_bit_eq_div)
  then have "unat (drop_bit 16 x) \<le> 65535" using unat_u32_less [of x] by simp
  moreover have "x AND 0xffff \<le> 0xffff" by (rule word_and_le1)
  then have "unat (x AND 0xffff) \<le> 65535" by (simp add: word_le_nat_alt)
  ultimately show ?thesis using unat_add_le [of "drop_bit 16 x" "x AND 0xffff"] by simp
qed

lemma pseudo_cksum_le: "unat (IPv4Header_pseudo_cksum h) \<le> 5 * 65535 + 255"
proof -
  let ?s = "drop_bit 16 (ih_src h) + (ih_src h AND 0xffff)"
  let ?d = "drop_bit 16 (ih_dst h) + (ih_dst h AND 0xffff)"
  have "unat (ucast (ih_proto h) :: u32) \<le> 255" "unat (ucast (IPv4Header_payload_length h) :: u32) \<le> 65535"
    using unsigned_less [of "ih_proto h", where 'a = nat] unat_u16_less [of "IPv4Header_payload_length h"]
    by (simp_all add: unat_ucast_up)
  moreover have "unat (?s + ?d) \<le> 4 * 65535"
    using half_words_le [of "ih_src h"] half_words_le [of "ih_dst h"] unat_add_le [of ?s ?d] by simp
  ultimately show ?thesis
    using unat_add_le [of "?s + ?d" "ucast (ih_proto h)"]
      unat_add_le [of "?s + ?d + ucast (ih_proto h)" "ucast (IPv4Header_payload_length h)"]
    by (simp add: IPv4Header_pseudo_cksum_def Let_def)
qed

lemma pseudo_cksum_update [simp]:
  "IPv4Header_pseudo_cksum (h\<lparr>ih_cksum := c\<rparr>) = IPv4Header_pseudo_cksum h"
  by (simp add: IPv4Header_pseudo_cksum_def IPv4Header_payload_length_def)

lemma IPv4Datagram_parse_single:
  "IPv4Datagram_parse this b = Inr (d, res) \<Longrightarrow> \<exists>buf. id_payload d = [buf]"
  by (auto simp: IPv4Datagram_parse_def obind_Inr_iff Let_def BufferList_of_Buffer_def split: if_splits)

text \<open>The adapter that sends from the first address to the second one.\<close>

definition sends_to :: "fd_adapter \<Rightarrow> u32 \<Rightarrow> u16 \<Rightarrow> u32 \<Rightarrow> u16 \<Rightarrow> bool" where
  "sends_to ad ip port ip' port' \<longleftrightarrow> fa_source (fb_cfg ad) = inet_address ip port \<and>
     fa_destination (fb_cfg ad) = inet_address ip' port'"

text \<open>A segment with a legal header that fits into an IPv4 datagram.\<close>

definition fits_datagram :: "tcp_segment \<Rightarrow> bool" where
  "fits_datagram seg \<longleftrightarrow> 5 \<le> th_doff (ts_header seg) \<and> th_doff (ts_header seg) < 16 \<and>
     20 + 4 * unat (th_doff (ts_header seg)) + Buffer_size (ts_payload seg) < 2 ^ 16"

definition with_ports :: "u16 \<Rightarrow> u16 \<Rightarrow> tcp_segment \<Rightarrow> tcp_segment" where
  "with_ports sport dport seg =
     seg\<lparr>ts_header := (ts_header seg)\<lparr>th_sport := sport, th_dport := dport\<rparr>\<rparr>"

lemma with_ports_simps [simp]:
  "th_doff (ts_header (with_ports p q seg)) = th_doff (ts_header seg)"
  "ts_payload (with_ports p q seg) = ts_payload seg"
  by (simp_all add: with_ports_def)

lemma tcp_wire_length:
  "5 \<le> th_doff (ts_header seg) \<Longrightarrow>
     length (tcp_wire seg ck) = 4 * unat (th_doff (ts_header seg)) + Buffer_size (ts_payload seg)"
  by (simp add: tcp_wire_def tcp_options_def Buffer_size_def word_le_nat_alt)

text \<open>The datagram that the sending adapter makes of a segment.\<close>

lemma wrap_tcp_in_ip_datagram:
  assumes lc: "numeric_libc lc" and to: "sends_to ad ip p ip' p'" and fits: "fits_datagram seg"
  shows "\<exists>d. wrap_tcp_in_ip lc ad seg = Inr (with_ports p p' seg, d) \<and> ip_dgram_legal d \<and>
    ih_src (id_header d) = ip \<and> ih_dst (id_header d) = ip' \<and> ih_proto (id_header d) = PROTO_TCP \<and>
    BufferList_concatenate (id_payload d) = tcp_wire (with_ports p p' seg)
      (tcp_cksum (with_ports p p' seg) (IPv4Header_pseudo_cksum (id_header d)))"
proof -
  let ?seg = "with_ports p p' seg"
  define n where "n = 20 + unat (th_doff (ts_header seg)) * 4 + Buffer_size (ts_payload seg)"
  define h where "h = IPv4Header_default\<lparr>ih_src := ip, ih_dst := ip', ih_len := word_of_nat n\<rparr>"
  have "n < 2 ^ 16" using fits by (simp add: fits_datagram_def n_def)
  then have n: "unat (word_of_nat n :: u16) = n" by (simp add: unat_of_nat)
  have doff: "5 \<le> th_doff (ts_header ?seg)" using fits by (simp add: fits_datagram_def)
  obtain bl where bl: "TCPSegment_serialize ?seg (IPv4Header_pseudo_cksum h) = Inr bl"
    "BufferList_concatenate bl = tcp_wire ?seg (tcp_cksum ?seg (IPv4Header_pseudo_cksum h))"
    using TCPSegment_serialize_wire [OF doff] by blast
  have "wrap_tcp_in_ip lc ad seg = Inr (?seg, \<lparr>id_header = h, id_payload = bl\<rparr>)"
    using to lc bl(1)
    by (simp add: wrap_tcp_in_ip_def Let_def FdAdapter_config_def sends_to_def inet_address_port
        IPv4Datagram_default_def IPv4Header_default_def IPv4Header_LENGTH_def h_def n_def with_ports_def)
  moreover have "BufferList_size bl = 4 * unat (th_doff (ts_header seg)) + Buffer_size (ts_payload seg)"
    using tcp_wire_length [OF doff] bl(2) by (simp add: BufferList_size_simp flip: BufferList_concatenate_simp)
  then have "ip_dgram_legal \<lparr>id_header = h, id_payload = bl\<rparr>"
    using n by (simp add: ip_dgram_legal_def ip_legal_def h_def IPv4Header_default_def
        IPv4Header_LENGTH_def) (simp add: n_def)
  ultimately show ?thesis
    using bl(2) by (simp add: h_def IPv4Header_default_def)
qed

text \<open>What the receiving adapter makes of such a datagram.\<close>

lemma unwrap_delivers:
  assumes lc: "numeric_libc lc" and proto: "ih_proto (id_header d) = PROTO_TCP"
    and src: "ih_src (id_header d) = ip" and dst: "ih_dst (id_header d) = ip'"
    and payload: "BufferList_to_Buffer (id_payload d) = Inr b"
    and parse: "TCPSegment_parse TCPSegment_default b (IPv4Header_pseudo_cksum (id_header d)) = Inr (seg, NoError)"
    and ports: "th_sport (ts_header seg) = p" "th_dport (ts_header seg) = p'"
  shows "\<not> listening ad \<Longrightarrow> sends_to ad ip' p' ip p \<Longrightarrow> unwrap_tcp_in_ip lc ad d = Inr (ad, Some seg)"
    and "listening ad \<Longrightarrow> Address_port lc (fa_source (fb_cfg ad)) = Inr p' \<Longrightarrow>
      th_syn (ts_header seg) \<Longrightarrow> \<not> th_rst (ts_header seg) \<Longrightarrow>
      unwrap_tcp_in_ip lc ad d = Inr (ad\<lparr>fb_cfg := (fb_cfg ad)\<lparr>fa_source := inet_address ip' p',
        fa_destination := inet_address ip p\<rparr>, fb_listen := False\<rparr>, Some seg)"
  using assms
  by (simp_all add: unwrap_tcp_in_ip_def Let_def FdAdapter_config_def sends_to_def inet_address_port
      Address_of_ip_inet set_listening_def)

lemma tun_datagram:
  assumes lc: "numeric_libc lc" and to: "sends_to ad ip p ip' p'" and fits: "fits_datagram seg"
  shows "\<exists>packet d b seg'. TunFdAdapter_write lc ad seg = Inr (with_ports p p' seg, packet) \<and>
    IPv4Datagram_parse IPv4Datagram_default (Buffer_new packet) = Inr (d, NoError) \<and>
    ih_src (id_header d) = ip \<and> ih_dst (id_header d) = ip' \<and> ih_proto (id_header d) = PROTO_TCP \<and>
    BufferList_to_Buffer (id_payload d) = Inr b \<and>
    TCPSegment_parse TCPSegment_default b (IPv4Header_pseudo_cksum (id_header d)) = Inr (seg', NoError) \<and>
    ts_header seg' = (ts_header (with_ports p p' seg))\<lparr>th_cksum := th_cksum (ts_header seg')\<rparr> \<and>
    Buffer_copy (ts_payload seg') = Buffer_copy (ts_payload seg)"
proof -
  let ?seg = "with_ports p p' seg"
  obtain d where d: "wrap_tcp_in_ip lc ad seg = Inr (?seg, d)" "ip_dgram_legal d"
    "ih_src (id_header d) = ip" "ih_dst (id_header d) = ip'" "ih_proto (id_header d) = PROTO_TCP"
    "BufferList_concatenate (id_payload d) = tcp_wire ?seg (tcp_cksum ?seg (IPv4Header_pseudo_cksum (id_header d)))"
    using wrap_tcp_in_ip_datagram [OF assms] by blast
  obtain bl where bl: "IPv4Datagram_serialize d = Inr bl" "BufferList_concatenate bl = ip_wire d"
    using IPv4Datagram_serialize_wire [OF d(2)] by blast
  obtain d' where d': "IPv4Datagram_parse IPv4Datagram_default (Buffer_new (ip_wire d)) = Inr (d', NoError)"
    "id_header d' = (id_header d)\<lparr>ih_cksum := ip_cksum (id_header d)\<rparr>"
    "BufferList_concatenate (id_payload d') = BufferList_concatenate (id_payload d)"
    using IPv4Datagram_parse_wire [OF d(2)] Buffer_str_new by blast
  obtain b where b: "id_payload d' = [b]" using IPv4Datagram_parse_single [OF d'(1)] by blast
  have doff: "5 \<le> th_doff (ts_header ?seg)" "th_doff (ts_header ?seg) < 16"
    using fits by (simp_all add: fits_datagram_def)
  have "unat (IPv4Header_pseudo_cksum (id_header d')) + 65280 * length (tcp_wire ?seg 0) < 2 ^ 32"
    using fits pseudo_cksum_le [of "id_header d'"] tcp_wire_length [OF doff(1), of 0]
    by (simp add: fits_datagram_def)
  moreover have "Buffer_str b = tcp_wire ?seg (tcp_cksum ?seg (IPv4Header_pseudo_cksum (id_header d')))"
    using d(6) d'(2,3) b by (simp add: BufferList_concatenate_simp)
  ultimately obtain seg' where
    "TCPSegment_parse TCPSegment_default b (IPv4Header_pseudo_cksum (id_header d')) = Inr (seg', NoError)"
    "ts_header seg' = (ts_header ?seg)\<lparr>th_cksum := tcp_cksum ?seg (IPv4Header_pseudo_cksum (id_header d'))\<rparr>"
    "Buffer_str (ts_payload seg') = Buffer_str (ts_payload ?seg)"
    using TCPSegment_parse_wire [OF doff] by blast
  moreover have "TunFdAdapter_write lc ad seg = Inr (?seg, ip_wire d)"
    by (simp add: TunFdAdapter_write_def d(1) bl)
  ultimately show ?thesis
    using d'(1,2) d(3-5) b by (auto simp: BufferList_to_Buffer_def Buffer_copy_def)
qed

section \<open>A link between two adapters\<close>

text \<open>Two segments that differ at most in ports, checksum and the storage of the payload.\<close>

definition same_tcp :: "tcp_segment \<Rightarrow> tcp_segment \<Rightarrow> bool" where
  "same_tcp seg seg' \<longleftrightarrow>
     (ts_header seg')\<lparr>th_sport := 0, th_dport := 0, th_cksum := 0\<rparr>
       = (ts_header seg)\<lparr>th_sport := 0, th_dport := 0, th_cksum := 0\<rparr> \<and>
     Buffer_copy (ts_payload seg') = Buffer_copy (ts_payload seg)"

text \<open>
  What a pair of adapters promises the connections that use it: between linked adapters a segment
  that fits arrives as the same segment, and the receiving adapter stays as it is.
\<close>

locale segment_link =
  fixes send :: "'a \<Rightarrow> tcp_segment \<Rightarrow> (tcp_segment \<times> 'w) outcome"
    and receive :: "'b \<Rightarrow> 'w \<Rightarrow> ('b \<times> tcp_segment option) outcome"
    and linked :: "'a \<Rightarrow> 'b \<Rightarrow> bool" and fits :: "tcp_segment \<Rightarrow> bool"
  assumes delivers: "linked a b \<Longrightarrow> fits seg \<Longrightarrow>
    \<exists>seg1 w seg2. send a seg = Inr (seg1, w) \<and> receive b w = Inr (b, Some seg2) \<and> same_tcp seg seg2"
begin

lemma delivers_all:
  assumes "linked a b" "list_all fits segs"
  shows "\<exists>ws segs'. list_all2 (\<lambda>seg w. \<exists>seg1. send a seg = Inr (seg1, w)) segs ws \<and>
    list_all2 (\<lambda>w seg2. receive b w = Inr (b, Some seg2)) ws segs' \<and> list_all2 same_tcp segs segs'"
  using assms(2)
proof (induction segs)
  case Nil
  then show ?case by (intro exI [of _ "[]"]) simp
next
  case (Cons seg segs)
  obtain seg1 w seg2 where "send a seg = Inr (seg1, w)" "receive b w = Inr (b, Some seg2)" "same_tcp seg seg2"
    using delivers [OF assms(1), of seg] Cons(2) by (auto simp only: list.pred_inject(2))
  moreover obtain ws segs' where "list_all2 (\<lambda>seg w. \<exists>seg1. send a seg = Inr (seg1, w)) segs ws"
    "list_all2 (\<lambda>w seg2. receive b w = Inr (b, Some seg2)) ws segs'" "list_all2 same_tcp segs segs'"
    using Cons by (auto simp only: list.pred_inject(2))
  ultimately show ?case
    by (intro exI [of _ "w # ws"] exI [of _ "seg2 # segs'"] conjI list.rel_intros(2)) blast+
qed

end

text \<open>The two ends of a link over TUN devices, and over UDP sockets.\<close>

definition tun_linked :: "libc \<Rightarrow> fd_adapter \<Rightarrow> fd_adapter \<Rightarrow> bool" where
  "tun_linked lc a b \<longleftrightarrow> numeric_libc lc \<and> \<not> listening b \<and>
     (\<exists>ip p ip' p'. sends_to a ip p ip' p' \<and> sends_to b ip' p' ip p)"

lemma tun_delivers:
  assumes "tun_linked lc a b" "fits_datagram seg"
  shows "\<exists>seg1 w seg2. TunFdAdapter_write lc a seg = Inr (seg1, w) \<and>
    TunFdAdapter_read lc b w = Inr (b, Some seg2) \<and> same_tcp seg seg2"
proof -
  obtain ip p ip' p' where lc: "numeric_libc lc" and b: "\<not> listening b"
    and to: "sends_to a ip p ip' p'" "sends_to b ip' p' ip p"
    using assms(1) by (auto simp: tun_linked_def)
  obtain packet d buf seg' where w: "TunFdAdapter_write lc a seg = Inr (with_ports p p' seg, packet)"
    "IPv4Datagram_parse IPv4Datagram_default (Buffer_new packet) = Inr (d, NoError)"
    "ih_src (id_header d) = ip" "ih_dst (id_header d) = ip'" "ih_proto (id_header d) = PROTO_TCP"
    "BufferList_to_Buffer (id_payload d) = Inr buf"
    "TCPSegment_parse TCPSegment_default buf (IPv4Header_pseudo_cksum (id_header d)) = Inr (seg', NoError)"
    "ts_header seg' = (ts_header (with_ports p p' seg))\<lparr>th_cksum := th_cksum (ts_header seg')\<rparr>"
    "Buffer_copy (ts_payload seg') = Buffer_copy (ts_payload seg)"
    using tun_datagram [OF lc to(1) assms(2)] by blast
  obtain ck where "ts_header seg' = (ts_header (with_ports p p' seg))\<lparr>th_cksum := ck\<rparr>" using w(8) by blast
  then have "th_sport (ts_header seg') = p" "th_dport (ts_header seg') = p'" "same_tcp seg seg'"
    using w(9) by (simp_all add: with_ports_def same_tcp_def)
  moreover from this have "unwrap_tcp_in_ip lc b d = Inr (b, Some seg')"
    using unwrap_delivers(1) [OF lc w(5,3,4,6,7) _ _ b to(2)] by simp
  then have "TunFdAdapter_read lc b packet = Inr (b, Some seg')" by (simp add: TunFdAdapter_read_def w(2))
  ultimately show ?thesis using w(1) by blast
qed

interpretation tun: segment_link "TunFdAdapter_write lc" "TunFdAdapter_read lc" "tun_linked lc" fits_datagram
  for lc
  by unfold_locales (rule tun_delivers)

text \<open>
  A UDP datagram carries the address of its sender; here that is the source address that the
  sending adapter is configured with.
\<close>

definition udp_send :: "libc \<Rightarrow> fd_adapter \<Rightarrow> tcp_segment \<Rightarrow> (tcp_segment \<times> address \<times> bytes) outcome" where
  "udp_send lc ad seg =
     obind (UDPSocketAdapter_write lc ad seg) (\<lambda>(seg, _, payload). Inr (seg, fa_source (fb_cfg ad), payload))"

definition udp_receive :: "fd_adapter \<Rightarrow> address \<times> bytes \<Rightarrow> (fd_adapter \<times> tcp_segment option) outcome" where
  "udp_receive ad datagram = UDPSocketAdapter_read ad (fst datagram) (snd datagram)"

lemma udp_delivers:
  assumes "tun_linked lc a b" "fits_datagram seg"
  shows "\<exists>seg1 w seg2. udp_send lc a seg = Inr (seg1, w) \<and>
    udp_receive b w = Inr (b, Some seg2) \<and> same_tcp seg seg2"
proof -
  obtain ip p ip' p' where lc: "numeric_libc lc" and b: "\<not> listening b"
    and to: "sends_to a ip p ip' p'" "sends_to b ip' p' ip p"
    using assms(1) by (auto simp: tun_linked_def)
  let ?seg = "with_ports p p' seg"
  have doff: "5 \<le> th_doff (ts_header ?seg)" "th_doff (ts_header ?seg) < 16"
    using assms(2) by (simp_all add: fits_datagram_def)
  obtain bl where bl: "TCPSegment_serialize ?seg 0 = Inr bl"
    "BufferList_concatenate bl = tcp_wire ?seg (tcp_cksum ?seg 0)"
    using TCPSegment_serialize_wire [OF doff(1)] by blast
  have "unat (0 :: u32) + 65280 * length (tcp_wire ?seg 0) < 2 ^ 32"
    using assms(2) tcp_wire_length [OF doff(1), of 0] by (simp add: fits_datagram_def)
  then obtain seg' where seg': "TCPSegment_parse TCPSegment_default
      (Buffer_new (BufferList_concatenate bl)) 0 = Inr (seg', NoError)"
    "ts_header seg' = (ts_header ?seg)\<lparr>th_cksum := tcp_cksum ?seg 0\<rparr>"
    "Buffer_str (ts_payload seg') = Buffer_str (ts_payload ?seg)"
    using TCPSegment_parse_wire [OF doff] by (metis bl(2) Buffer_str_new)
  have "udp_send lc a seg = Inr (?seg, inet_address ip p, BufferList_concatenate bl)"
    using lc to(1) bl(1)
    by (simp add: udp_send_def UDPSocketAdapter_write_def Let_def FdAdapter_config_def sends_to_def
        inet_address_port with_ports_def)
  moreover have "udp_receive b (inet_address ip p, BufferList_concatenate bl) = Inr (b, Some seg')"
    using b to(2) seg'(1)
    by (simp add: udp_receive_def UDPSocketAdapter_read_def FdAdapter_config_def sends_to_def
        Address_eq_inet)
  moreover have "same_tcp seg seg'" using seg'(2,3) by (simp add: same_tcp_def with_ports_def Buffer_copy_def)
  ultimately show ?thesis by blast
qed

interpretation udp: segment_link "udp_send lc" udp_receive "tun_linked lc" fits_datagram for lc
  by unfold_locales (rule udp_delivers)

section \<open>What is filtered\<close>

lemma unwrap_connected:
  assumes "unwrap_tcp_in_ip lc ad d = Inr (ad', Some seg)" "\<not> listening ad"
  shows "ad' = ad \<and> Address_ipv4_numeric (fa_source (fb_cfg ad)) = Inr (ih_dst (id_header d)) \<and>
    Address_ipv4_numeric (fa_destination (fb_cfg ad)) = Inr (ih_src (id_header d)) \<and>
    ih_proto (id_header d) = PROTO_TCP \<and>
    Address_port lc (fa_source (fb_cfg ad)) = Inr (th_dport (ts_header seg)) \<and>
    Address_port lc (fa_destination (fb_cfg ad)) = Inr (th_sport (ts_header seg)) \<and>
    (\<exists>buf. BufferList_to_Buffer (id_payload d) = Inr buf \<and>
      TCPSegment_parse TCPSegment_default buf (IPv4Header_pseudo_cksum (id_header d)) = Inr (seg, NoError))"
  using assms
  by (clarsimp simp: unwrap_tcp_in_ip_def obind_Inr_iff Let_def FdAdapter_config_def split: if_splits)

lemma unwrap_listening:
  assumes "unwrap_tcp_in_ip lc ad d = Inr (ad', Some seg)" "listening ad"
  shows "\<not> listening ad' \<and> th_syn (ts_header seg) \<and> \<not> th_rst (ts_header seg) \<and>
    ih_proto (id_header d) = PROTO_TCP \<and>
    Address_port lc (fa_source (fb_cfg ad)) = Inr (th_dport (ts_header seg)) \<and>
    Address_port lc (fa_destination (fb_cfg ad')) = Inr (th_sport (ts_header seg)) \<and>
    (\<exists>buf. BufferList_to_Buffer (id_payload d) = Inr buf \<and>
      TCPSegment_parse TCPSegment_default buf (IPv4Header_pseudo_cksum (id_header d)) = Inr (seg, NoError))"
  using assms
  by (clarsimp simp: unwrap_tcp_in_ip_def obind_Inr_iff Let_def FdAdapter_config_def set_listening_def
      listening_def split: if_splits option.splits)

section \<open>Properties\<close>

text \<open>
  C16: Segments cross a TUN link unharmed and in order: between two adapters whose addresses mirror
  each other, every segment of a list that fits a datagram is written without an error, and the
  reading adapter hands over, packet by packet, the same segments.
\<close>

theorem TunFdAdapter_link:
  assumes "tun_linked lc a b" "list_all fits_datagram segs"
  shows "\<exists>packets segs'.
    list_all2 (\<lambda>seg packet. \<exists>seg'. TunFdAdapter_write lc a seg = Inr (seg', packet)) segs packets \<and>
    list_all2 (\<lambda>packet seg. TunFdAdapter_read lc b packet = Inr (b, Some seg)) packets segs' \<and>
    list_all2 same_tcp segs segs'"
  using tun.delivers_all [OF assms] .

text \<open>Adapters of two hosts, the segment sent between them, and a server that waits for it.\<close>

definition host_adapter :: "u32 \<Rightarrow> u16 \<Rightarrow> u32 \<Rightarrow> u16 \<Rightarrow> fd_adapter" where
  "host_adapter ip p ip' p' = \<lparr>fb_cfg = \<lparr>fa_source = inet_address ip p, fa_destination = inet_address ip' p',
     fa_loss_rate_dn = 0, fa_loss_rate_up = 0\<rparr>, fb_listen = False\<rparr>"

definition syn_to_send :: tcp_segment where
  "syn_to_send = TCPSegment_default\<lparr>ts_header := TCPHeader_default\<lparr>th_syn := True, th_seqno := WrappingInt32 5\<rparr>\<rparr>"

lemma syn_fits: "fits_datagram syn_to_send"
  by (simp add: fits_datagram_def syn_to_send_def TCPSegment_default_def TCPHeader_default_def
      TCPHeader_LENGTH_def Buffer_size_def buffer_simps)

theorem TunFdAdapter_link_witness:
  "\<exists>packet seg seg'. TunFdAdapter_write plain_libc (host_adapter 1 2 3 4) syn_to_send = Inr (seg', packet) \<and>
     TunFdAdapter_read plain_libc (host_adapter 3 4 1 2) packet = Inr (host_adapter 3 4 1 2, Some seg) \<and>
     same_tcp syn_to_send seg"
proof -
  have "tun_linked plain_libc (host_adapter 1 2 3 4) (host_adapter 3 4 1 2)"
    by (auto simp: tun_linked_def plain_libc_numeric host_adapter_def listening_def sends_to_def)
  moreover have "list_all fits_datagram [syn_to_send]" by (simp add: syn_fits)
  ultimately show ?thesis
    using TunFdAdapter_link [of plain_libc _ _ "[syn_to_send]"] unfolding list_all2_Cons1 by blast
qed

text \<open>
  What a TUN adapter hands to the connection was meant for it. When reading gives a segment, the
  packet is an intact IPv4 datagram with a TCP segment that is intact too, addressed to the port of the
  adapter; the adapter afterwards does not listen and the segment comes from its destination port.
  An adapter that does not listen is not changed and has checked both addresses; one that listened
  has seen a SYN without RST.
\<close>

theorem TunFdAdapter_read_filters:
  assumes "TunFdAdapter_read lc ad packet = Inr (ad', Some seg)"
  shows "\<exists>d buf. IPv4Datagram_parse IPv4Datagram_default (Buffer_new packet) = Inr (d, NoError) \<and>
    ih_proto (id_header d) = PROTO_TCP \<and> BufferList_to_Buffer (id_payload d) = Inr buf \<and>
    TCPSegment_parse TCPSegment_default buf (IPv4Header_pseudo_cksum (id_header d)) = Inr (seg, NoError) \<and>
    Address_port lc (fa_source (fb_cfg ad)) = Inr (th_dport (ts_header seg)) \<and>
    Address_port lc (fa_destination (fb_cfg ad')) = Inr (th_sport (ts_header seg)) \<and>
    \<not> listening ad' \<and>
    (if listening ad then th_syn (ts_header seg) \<and> \<not> th_rst (ts_header seg)
     else ad' = ad \<and> Address_ipv4_numeric (fa_source (fb_cfg ad)) = Inr (ih_dst (id_header d)) \<and>
       Address_ipv4_numeric (fa_destination (fb_cfg ad)) = Inr (ih_src (id_header d)))"
proof -
  obtain d where d: "IPv4Datagram_parse IPv4Datagram_default (Buffer_new packet) = Inr (d, NoError)"
    "unwrap_tcp_in_ip lc ad d = Inr (ad', Some seg)"
    using assms by (auto simp: TunFdAdapter_read_def obind_Inr_iff split: if_splits)
  show ?thesis
  proof (cases "listening ad")
    case True
    then show ?thesis
      using unwrap_listening [OF d(2)] d(1) by auto
  next
    case False
    then show ?thesis
      using unwrap_connected [OF d(2)] d(1) by auto
  qed
qed

theorem TunFdAdapter_read_filters_witness:
  "\<exists>packet ad' seg. TunFdAdapter_read plain_libc (set_listening (host_adapter 3 4 0 0) True) packet
      = Inr (ad', Some seg) \<and> \<not> listening ad' \<and> th_syn (ts_header seg)"
proof -
  let ?ad = "set_listening (host_adapter 3 4 0 0) True"
  have "sends_to (host_adapter 1 2 3 4) 1 2 3 4" by (simp add: sends_to_def host_adapter_def)
  then obtain packet d b seg' where w:
    "IPv4Datagram_parse IPv4Datagram_default (Buffer_new packet) = Inr (d, NoError)"
    "ih_proto (id_header d) = PROTO_TCP" "BufferList_to_Buffer (id_payload d) = Inr b"
    "TCPSegment_parse TCPSegment_default b (IPv4Header_pseudo_cksum (id_header d)) = Inr (seg', NoError)"
    "ts_header seg' = (ts_header (with_ports 2 4 syn_to_send))\<lparr>th_cksum := th_cksum (ts_header seg')\<rparr>"
    using tun_datagram [OF plain_libc_numeric _ syn_fits] by blast
  obtain c where c: "ts_header seg' = (ts_header (with_ports 2 4 syn_to_send))\<lparr>th_cksum := c\<rparr>"
    using w(5) by blast
  have "Address_port plain_libc (fa_source (fb_cfg ?ad)) = Inr 4"
    by (simp add: set_listening_def host_adapter_def inet_address_port plain_libc_numeric)
  then have "\<exists>ad'. TunFdAdapter_read plain_libc ?ad packet = Inr (ad', Some seg')"
    using unwrap_delivers(2) [OF plain_libc_numeric w(2) refl refl w(3,4), of 2 4 ?ad] c
    by (simp add: TunFdAdapter_read_def w(1) with_ports_def syn_to_send_def TCPHeader_default_def
        listening_def set_listening_def)
  then obtain ad' where ad': "TunFdAdapter_read plain_libc ?ad packet = Inr (ad', Some seg')" by blast
  show ?thesis
    using ad' TunFdAdapter_read_filters [OF ad'] by (auto simp: listening_def set_listening_def)
qed

end
