(* ===== verification/File_Descriptor.thy ===== *)
theory File_Descriptor
  imports Buffers Addresses
begin

text \<open>
  Kernel file descriptors, \<^verbatim>\<open>libsponge/util/file_descriptor.{hh,cc}\<close>, and the error-checking
  wrapper for system calls of \<^verbatim>\<open>util.cc\<close>.  The kernel is a parameter: a record of functions on
  a kernel state of any type, each giving the return value and \<^verbatim>\<open>errno\<close> of the call.  A
  \<^verbatim>\<open>FileDescriptor\<close> is a handle on a shared \<^verbatim>\<open>FDWrapper\<close>; the wrappers live in the
  state of the program, which the components that use descriptors extend.
\<close>

section \<open>System calls\<close>

text \<open>The return value of a system call, and the value of \<^verbatim>\<open>errno\<close> after it.\<close>

type_synonym sysret = "int \<times> int"

record 'k kernel =
  k_read :: "'k \<Rightarrow> int \<Rightarrow> nat \<Rightarrow> sysret \<times> bytes \<times> 'k"
  k_writev :: "'k \<Rightarrow> int \<Rightarrow> (bytes \<times> nat) list \<Rightarrow> sysret \<times> 'k"
  k_close :: "'k \<Rightarrow> int \<Rightarrow> sysret \<times> 'k"
  k_getfl :: "'k \<Rightarrow> int \<Rightarrow> sysret \<times> 'k"
  k_setfl :: "'k \<Rightarrow> int \<Rightarrow> int \<Rightarrow> sysret \<times> 'k"

text \<open>The conversion of a 64-bit return value to the \<^verbatim>\<open>int\<close> argument.\<close>

definition int_arg :: "sysret \<Rightarrow> sysret" where
  "int_arg r = (signed_take_bit 31 (fst r), snd r)"

definition SystemCall :: "string \<Rightarrow> sysret \<Rightarrow> int \<Rightarrow> int outcome" where
  "SystemCall attempt r errno_mask =
     (if fst r \<ge> 0 \<or> snd r = errno_mask then Inr (fst r) else Inl (Tagged_error attempt (snd r)))"

section \<open>Descriptors\<close>

record fd_wrapper =
  fd_fd :: int
  fd_eof :: bool
  fd_closed :: bool
  fd_read_count :: u32
  fd_write_count :: u32

text \<open>The kernel, the wrappers by their handles, and the next free handle.\<close>

record 'k system =
  sy_kernel :: 'k
  sy_fds :: "nat \<Rightarrow> fd_wrapper"
  sy_next :: nat

definition FDWrapper_new :: "int \<Rightarrow> fd_wrapper outcome" where
  "FDWrapper_new fd =
     (if fd < 0 then Inl (Runtime_error (''invalid fd number:-'' @ string_of_nat (nat (- fd))))
      else Inr \<lparr>fd_fd = fd, fd_eof = False, fd_closed = False, fd_read_count = 0, fd_write_count = 0\<rparr>)"

definition FileDescriptor_new :: "int \<Rightarrow> ('k, 'a) system_scheme \<Rightarrow> (nat \<times> ('k, 'a) system_scheme) outcome" where
  "FileDescriptor_new fd s =
     obind (FDWrapper_new fd) (\<lambda>w.
       Inr (sy_next s, s\<lparr>sy_fds := (sy_fds s)(sy_next s := w), sy_next := Suc (sy_next s)\<rparr>))"

text \<open>A duplicate shares the wrapper.\<close>

definition FileDescriptor_duplicate :: "nat \<Rightarrow> nat" where
  "FileDescriptor_duplicate h = h"

definition update_fd :: "nat \<Rightarrow> (fd_wrapper \<Rightarrow> fd_wrapper) \<Rightarrow> ('k, 'a) system_scheme \<Rightarrow> ('k, 'a) system_scheme" where
  "update_fd h f s = s\<lparr>sy_fds := (sy_fds s)(h := f (sy_fds s h))\<rparr>"

definition register_read :: "nat \<Rightarrow> ('k, 'a) system_scheme \<Rightarrow> ('k, 'a) system_scheme" where
  "register_read h = update_fd h (\<lambda>w. w\<lparr>fd_read_count := fd_read_count w + 1\<rparr>)"

definition register_write :: "nat \<Rightarrow> ('k, 'a) system_scheme \<Rightarrow> ('k, 'a) system_scheme" where
  "register_write h = update_fd h (\<lambda>w. w\<lparr>fd_write_count := fd_write_count w + 1\<rparr>)"

definition fd_num :: "('k, 'a) system_scheme \<Rightarrow> nat \<Rightarrow> int" where
  "fd_num s h = fd_fd (sy_fds s h)"

definition FileDescriptor_eof :: "('k, 'a) system_scheme \<Rightarrow> nat \<Rightarrow> bool" where
  "FileDescriptor_eof s h = fd_eof (sy_fds s h)"

definition FileDescriptor_closed :: "('k, 'a) system_scheme \<Rightarrow> nat \<Rightarrow> bool" where
  "FileDescriptor_closed s h = fd_closed (sy_fds s h)"

definition FileDescriptor_read_count :: "('k, 'a) system_scheme \<Rightarrow> nat \<Rightarrow> u32" where
  "FileDescriptor_read_count s h = fd_read_count (sy_fds s h)"

definition FileDescriptor_write_count :: "('k, 'a) system_scheme \<Rightarrow> nat \<Rightarrow> u32" where
  "FileDescriptor_write_count s h = fd_write_count (sy_fds s h)"

definition FileDescriptor_close ::
  "('k, 'b) kernel_scheme \<Rightarrow> nat \<Rightarrow> ('k, 'a) system_scheme \<Rightarrow> ('k, 'a) system_scheme outcome" where
  "FileDescriptor_close sys h s =
     (case k_close sys (sy_kernel s) (fd_num s h) of (r, k) \<Rightarrow>
        obind (SystemCall ''close'' r 0) (\<lambda>_.
          Inr (update_fd h (\<lambda>w. w\<lparr>fd_eof := True, fd_closed := True\<rparr>) (s\<lparr>sy_kernel := k\<rparr>))))"

text \<open>The destructor of a wrapper reports a failing close and goes on.\<close>

definition FDWrapper_destroy ::
  "('k, 'b) kernel_scheme \<Rightarrow> nat \<Rightarrow> ('k, 'a) system_scheme \<Rightarrow> ('k, 'a) system_scheme" where
  "FDWrapper_destroy sys h s =
     (if FileDescriptor_closed s h then s
      else case FileDescriptor_close sys h s of
             Inr s' \<Rightarrow> s'
           | Inl _ \<Rightarrow> s\<lparr>sy_kernel := snd (k_close sys (sy_kernel s) (fd_num s h))\<rparr>)"

definition BUFFER_SIZE :: nat where
  "BUFFER_SIZE = 1024 * 1024"

text \<open>
  The string is resized to the size of the read before the call, which makes it zeroes, and to the
  number of bytes read after it.
\<close>

definition FileDescriptor_read ::
  "('k, 'b) kernel_scheme \<Rightarrow> nat \<Rightarrow> nat \<Rightarrow> ('k, 'a) system_scheme \<Rightarrow>
     (bytes \<times> ('k, 'a) system_scheme) outcome" where
  "FileDescriptor_read sys h limit s =
     (let size_to_read = min BUFFER_SIZE limit
      in case k_read sys (sy_kernel s) (fd_num s h) size_to_read of (r, stored, k) \<Rightarrow>
        obind (SystemCall ''read'' (int_arg r) 0) (\<lambda>bytes_read.
          let s = s\<lparr>sy_kernel := k\<rparr>;
              s = (if limit > 0 \<and> bytes_read = 0 then update_fd h (\<lambda>w. w\<lparr>fd_eof := True\<rparr>) s else s)
          in if bytes_read > int size_to_read then Inl (Runtime_error ''read() read more than requested'')
             else if bytes_read < 0 then Inl Length_error
             else Inr (take (nat bytes_read) (stored @ replicate (nat bytes_read) 0), register_read h s)))"

text \<open>
  The loop of \<^verbatim>\<open>write\<close>; the result is the number of bytes written.  A negative number of bytes
  would be converted to \<^verbatim>\<open>size_t\<close> for \<^verbatim>\<open>remove_prefix\<close>.
\<close>

lemma size_arg_0:
  assumes "nat (signed_take_bit 31 (n :: int) mod 2 ^ 64) = 0"
  shows "signed_take_bit 31 n = 0"
proof -
  define m where "m = signed_take_bit 31 n"
  have "- (2 ^ 31) \<le> m" "m < 2 ^ 31"
    unfolding m_def
    by (rule signed_take_bit_int_greater_eq_minus_exp, rule signed_take_bit_int_less_exp)
  moreover have "m mod 2 ^ 64 = 0"
    using assms pos_mod_sign [of "2 ^ 64 :: int" m] unfolding m_def [symmetric] by simp
  ultimately show ?thesis 
    unfolding m_def [symmetric] using zdvd_not_zless [of "abs m" "2 ^ 64"] by (auto simp: dvd_eq_mod_eq_0 abs_if)
qed

lemma remove_prefix_shrinks:
  assumes "BufferViewList_remove_prefix buffer n = Inr buffer'" "BufferViewList_size buffer' \<noteq> 0" "n \<noteq> 0"
  shows "BufferViewList_size buffer' < BufferViewList_size buffer"
proof -
  have "n \<le> length (concat buffer)" "concat buffer' = drop n (concat buffer)"
    using BufferViewList_remove_prefix_str [OF assms(1)] by auto
  with assms(3) show ?thesis by (simp add: BufferViewList_size_simp del: length_concat)
qed

function FileDescriptor_write_loop ::
  "('k, 'b) kernel_scheme \<Rightarrow> nat \<Rightarrow> bool \<Rightarrow> buffer_view_list \<Rightarrow> nat \<Rightarrow> ('k, 'a) system_scheme \<Rightarrow>
     (nat \<times> ('k, 'a) system_scheme) outcome" where
  "FileDescriptor_write_loop sys h write_all buffer total_bytes_written s =
     (case k_writev sys (sy_kernel s) (fd_num s h) (BufferViewList_as_iovecs buffer) of (r, k) \<Rightarrow>
        obind (SystemCall ''writev'' (int_arg r) 0) (\<lambda>bytes_written.
          if bytes_written = 0 \<and> BufferViewList_size buffer \<noteq> 0
          then Inl (Runtime_error ''write returned 0 given non-empty input buffer'')
          else if bytes_written > int (BufferViewList_size buffer)
          then Inl (Runtime_error ''write wrote more than length of input buffer'')
          else let s = register_write h (s\<lparr>sy_kernel := k\<rparr>); n = nat (bytes_written mod 2 ^ 64)
               in obind (BufferViewList_remove_prefix buffer n) (\<lambda>buffer'.
                    if write_all \<and> BufferViewList_size buffer' \<noteq> 0
                    then FileDescriptor_write_loop sys h write_all buffer' (total_bytes_written + n) s
                    else Inr (total_bytes_written + n, s))))"
  by pat_completeness auto
termination
proof (relation "measure (\<lambda>(sys, h, write_all, buffer, total, s). BufferViewList_size buffer)", goal_cases)
  case (2 sys h write_all buffer total s r k bytes_written s' n buffer')
  then have "bytes_written \<noteq> 0"
    using BufferViewList_remove_prefix_str by (fastforce simp: BufferViewList_size_simp)
  then have "n \<noteq> 0"
    using 2 size_arg_0 by (auto simp: SystemCall_def int_arg_def split: if_splits)
  then show ?case using remove_prefix_shrinks 2 by auto
qed simp

declare FileDescriptor_write_loop.simps [simp del]

definition FileDescriptor_write ::
  "('k, 'b) kernel_scheme \<Rightarrow> nat \<Rightarrow> buffer_view_list \<Rightarrow> bool \<Rightarrow> ('k, 'a) system_scheme \<Rightarrow>
     (nat \<times> ('k, 'a) system_scheme) outcome" where
  "FileDescriptor_write sys h buffer write_all s = FileDescriptor_write_loop sys h write_all buffer 0 s"

definition O_NONBLOCK :: int where
  "O_NONBLOCK = 2048"

definition FileDescriptor_set_blocking ::
  "('k, 'b) kernel_scheme \<Rightarrow> nat \<Rightarrow> bool \<Rightarrow> ('k, 'a) system_scheme \<Rightarrow> ('k, 'a) system_scheme outcome" where
  "FileDescriptor_set_blocking sys h blocking_state s =
     (case k_getfl sys (sy_kernel s) (fd_num s h) of (r, k) \<Rightarrow>
        obind (SystemCall ''fcntl'' r 0) (\<lambda>flags.
          let flags = (if blocking_state then xor flags (flags AND O_NONBLOCK) else flags OR O_NONBLOCK)
          in case k_setfl sys k (fd_num s h) flags of (r, k) \<Rightarrow>
               obind (SystemCall ''fcntl'' r 0) (\<lambda>_. Inr (s\<lparr>sy_kernel := k\<rparr>))))"

section \<open>What the kernel promises\<close>

definition iov_bytes :: "(bytes \<times> nat) list \<Rightarrow> bytes" where
  "iov_bytes iov = concat (map (\<lambda>(b, n). take n b) iov)"

text \<open>
  The documented behaviour of the calls on a descriptor, over two histories of the kernel state: the
  bytes that reads on a descriptor number have delivered, and those that writes on it have accepted.
  A read or a write transfers at most what it is asked to, and at most \<^verbatim>\<open>0x7ffff000\<close> bytes; a
  failing call sets \<^verbatim>\<open>errno\<close> and transfers nothing.
\<close>

definition stream_kernel ::
  "('k, 'b) kernel_scheme \<Rightarrow> ('k \<Rightarrow> int \<Rightarrow> bytes) \<Rightarrow> ('k \<Rightarrow> int \<Rightarrow> bytes) \<Rightarrow> bool" where
  "stream_kernel sys got sent \<longleftrightarrow>
     (\<forall>k fd n rv e stored k'. k_read sys k fd n = ((rv, e), stored, k') \<longrightarrow>
        rv \<le> int n \<and> rv \<le> 0x7ffff000 \<and> (rv < 0 \<longrightarrow> rv = - 1 \<and> e \<noteq> 0) \<and>
        (rv \<ge> 0 \<longrightarrow> length stored = nat rv) \<and>
        got k' = (if rv < 0 then got k else (got k)(fd := got k fd @ stored)) \<and> sent k' = sent k) \<and>
     (\<forall>k fd iov rv e k'. k_writev sys k fd iov = ((rv, e), k') \<longrightarrow>
        rv \<le> int (length (iov_bytes iov)) \<and> rv \<le> 0x7ffff000 \<and> (rv < 0 \<longrightarrow> rv = - 1 \<and> e \<noteq> 0) \<and>
        sent k' = (if rv < 0 then sent k else (sent k)(fd := sent k fd @ take (nat rv) (iov_bytes iov))) \<and>
        got k' = got k) \<and>
     (\<forall>k fd r k'. k_close sys k fd = (r, k') \<longrightarrow> got k' = got k \<and> sent k' = sent k) \<and>
     (\<forall>k fd r k'. k_getfl sys k fd = (r, k') \<longrightarrow> got k' = got k \<and> sent k' = sent k) \<and>
     (\<forall>k fd fl r k'. k_setfl sys k fd fl = (r, k') \<longrightarrow> got k' = got k \<and> sent k' = sent k)"

lemma stream_kernel_read:
  assumes "stream_kernel sys got sent" "k_read sys k fd n = ((rv, e), stored, k')"
  shows "rv \<le> int n" "rv \<le> 0x7ffff000" "rv < 0 \<Longrightarrow> rv = - 1 \<and> e \<noteq> 0" "- 1 \<le> rv"
    "rv \<ge> 0 \<Longrightarrow> length stored = nat rv"
    "got k' = (if rv < 0 then got k else (got k)(fd := got k fd @ stored))" "sent k' = sent k"
proof -
  have *: "rv \<le> int n \<and> rv \<le> 0x7ffff000 \<and> (rv < 0 \<longrightarrow> rv = - 1 \<and> e \<noteq> 0) \<and>
    (rv \<ge> 0 \<longrightarrow> length stored = nat rv) \<and>
    got k' = (if rv < 0 then got k else (got k)(fd := got k fd @ stored)) \<and> sent k' = sent k"
    using assms(2) conjunct1 [OF assms(1) [unfolded stream_kernel_def]] by blast
  from * show "rv \<le> int n" "rv \<le> 0x7ffff000" "rv < 0 \<Longrightarrow> rv = - 1 \<and> e \<noteq> 0" "- 1 \<le> rv"
    "rv \<ge> 0 \<Longrightarrow> length stored = nat rv"
    "got k' = (if rv < 0 then got k else (got k)(fd := got k fd @ stored))" "sent k' = sent k"
    by linarith+
qed

lemma stream_kernel_writev:
  assumes "stream_kernel sys got sent" "k_writev sys k fd iov = ((rv, e), k')"
  shows "rv \<le> int (length (iov_bytes iov))" "rv \<le> 0x7ffff000" "rv < 0 \<Longrightarrow> rv = - 1 \<and> e \<noteq> 0" "- 1 \<le> rv"
    "sent k' = (if rv < 0 then sent k else (sent k)(fd := sent k fd @ take (nat rv) (iov_bytes iov)))"
    "got k' = got k"
proof -
  have *: "rv \<le> int (length (iov_bytes iov)) \<and> rv \<le> 0x7ffff000 \<and> (rv < 0 \<longrightarrow> rv = - 1 \<and> e \<noteq> 0) \<and>
    sent k' = (if rv < 0 then sent k else (sent k)(fd := sent k fd @ take (nat rv) (iov_bytes iov))) \<and>
    got k' = got k"
    using assms(2) conjunct1 [OF conjunct2 [OF assms(1) [unfolded stream_kernel_def]]] by blast
  from * show "rv \<le> int (length (iov_bytes iov))" "rv \<le> 0x7ffff000" "rv < 0 \<Longrightarrow> rv = - 1 \<and> e \<noteq> 0" "- 1 \<le> rv"
    "sent k' = (if rv < 0 then sent k else (sent k)(fd := sent k fd @ take (nat rv) (iov_bytes iov)))"
    "got k' = got k"
    by linarith+
qed

lemma stream_kernel_quiet:
  assumes "stream_kernel sys got sent"
  shows "k_close sys k fd = (r, k') \<Longrightarrow> got k' = got k \<and> sent k' = sent k"
    "k_getfl sys k fd = (r, k') \<Longrightarrow> got k' = got k \<and> sent k' = sent k"
    "k_setfl sys k fd fl = (r, k') \<Longrightarrow> got k' = got k \<and> sent k' = sent k"
  using conjunct2 [OF conjunct2 [OF assms [unfolded stream_kernel_def]]] by blast+

lemma iov_bytes_as_iovecs [simp]: "iov_bytes (BufferViewList_as_iovecs vl) = concat vl"
proof -
  have "fold (\<lambda>x ret. ret @ [(x, length x)]) vl acc = acc @ map (\<lambda>x. (x, length x)) vl" for acc
    by (induction vl arbitrary: acc) simp_all
  then show ?thesis by (simp add: BufferViewList_as_iovecs_def iov_bytes_def comp_def)
qed

lemma int_arg_small: "- 1 \<le> rv \<Longrightarrow> rv \<le> 0x7ffff000 \<Longrightarrow> int_arg (rv, e) = (rv, e)"
  by (simp add: int_arg_def signed_take_bit_int_eq_self)

text \<open>The effect of a read and of a write on the wrapper.\<close>

definition after_read :: "nat \<Rightarrow> bytes \<Rightarrow> fd_wrapper \<Rightarrow> fd_wrapper" where
  "after_read limit data w =
     w\<lparr>fd_eof := fd_eof w \<or> (limit > 0 \<and> data = []), fd_read_count := fd_read_count w + 1\<rparr>"

definition after_write :: "fd_wrapper \<Rightarrow> fd_wrapper" where
  "after_write w = w\<lparr>fd_write_count := fd_write_count w + 1\<rparr>"

lemma register_write_eq: "register_write h = update_fd h after_write"
  by (simp add: register_write_def after_write_def [abs_def])

lemma FileDescriptor_read_eq:
  assumes sys: "stream_kernel sys got sent"
    and call: "k_read sys (sy_kernel s) (fd_num s h) (min BUFFER_SIZE limit) = ((rv, e), stored, k')"
  shows "FileDescriptor_read sys h limit s =
    (if rv < 0 then Inl (Tagged_error ''read'' e)
     else Inr (stored, update_fd h (after_read limit stored) (s\<lparr>sy_kernel := k'\<rparr>)))"
proof -
  note rv = stream_kernel_read [OF sys call]
  have "int_arg (rv, e) = (rv, e)" using rv(4,2) by (rule int_arg_small)
  moreover have "w\<lparr>fd_eof := fd_eof w, fd_read_count := c\<rparr> = w\<lparr>fd_read_count := c\<rparr>" for w c
    by (cases w) simp
  moreover have "rv > 0 \<Longrightarrow> stored \<noteq> []" using rv(5) by auto
  ultimately show ?thesis
    using rv(1-5) by (auto simp: FileDescriptor_read_def call Let_def SystemCall_def register_read_def
        update_fd_def after_read_def)
qed

lemma FileDescriptor_write_once:
  assumes sys: "stream_kernel sys got sent"
    and call: "k_writev sys (sy_kernel s) (fd_num s h) (BufferViewList_as_iovecs buffer) = ((rv, e), k')"
  shows "FileDescriptor_write_loop sys h write_all buffer tot s =
    (if rv < 0 then Inl (Tagged_error ''writev'' e)
     else if rv = 0 \<and> concat buffer \<noteq> []
     then Inl (Runtime_error ''write returned 0 given non-empty input buffer'')
     else obind (BufferViewList_remove_prefix buffer (nat rv)) (\<lambda>buffer'.
       if write_all \<and> concat buffer' \<noteq> []
       then FileDescriptor_write_loop sys h write_all buffer' (tot + nat rv)
              (update_fd h after_write (s\<lparr>sy_kernel := k'\<rparr>))
       else Inr (tot + nat rv, update_fd h after_write (s\<lparr>sy_kernel := k'\<rparr>))))"
proof -
  note rv = stream_kernel_writev [OF sys call, unfolded iov_bytes_as_iovecs]
  have "int_arg (rv, e) = (rv, e)" using rv(4,2) by (rule int_arg_small)
  moreover have "rv \<ge> 0 \<Longrightarrow> rv mod 2 ^ 64 = rv" using rv(2) by (intro mod_pos_pos_trivial) simp_all
  moreover have "length (concat bs) \<noteq> 0 \<longleftrightarrow> concat bs \<noteq> []" for bs :: "bytes list" by (simp only: length_0_conv)
  ultimately show ?thesis
    using rv(1-4) unfolding FileDescriptor_write_loop.simps [of sys h write_all buffer]
    by (simp add: call SystemCall_def BufferViewList_size_simp register_write_eq Let_def del: length_concat concat_eq_Nil_conv)
qed

lemma FileDescriptor_read_spec:
  assumes sys: "stream_kernel sys got sent" and ok: "FileDescriptor_read sys h limit s = Inr (data, s')"
  shows "\<exists>k'. s' = update_fd h (after_read limit data) (s\<lparr>sy_kernel := k'\<rparr>) \<and> length data \<le> limit \<and>
    got k' = (got (sy_kernel s))(fd_num s h := got (sy_kernel s) (fd_num s h) @ data) \<and>
    sent k' = sent (sy_kernel s)"
proof -
  obtain rv e stored k' where call:
    "k_read sys (sy_kernel s) (fd_num s h) (min BUFFER_SIZE limit) = ((rv, e), stored, k')"
    by (metis prod.collapse)
  show ?thesis
    using ok stream_kernel_read [OF sys call] FileDescriptor_read_eq [OF sys call]
    by (auto split: if_splits)
qed

lemma FileDescriptor_write_some:
  assumes sys: "stream_kernel sys got sent" and ok: "FileDescriptor_write sys h [data] False s = Inr (n, s')"
  shows "\<exists>k'. s' = update_fd h after_write (s\<lparr>sy_kernel := k'\<rparr>) \<and> n \<le> length data \<and>
    (n = 0 \<longrightarrow> data = []) \<and> got k' = got (sy_kernel s) \<and>
    sent k' = (sent (sy_kernel s))(fd_num s h := sent (sy_kernel s) (fd_num s h) @ take n data)"
proof -
  obtain rv e k' where call:
    "k_writev sys (sy_kernel s) (fd_num s h) (BufferViewList_as_iovecs [data]) = ((rv, e), k')"
    by (metis prod.collapse)
  note rv = stream_kernel_writev [OF sys call, unfolded iov_bytes_as_iovecs]
  show ?thesis
    using ok rv FileDescriptor_write_once [OF sys call, of False 0]
    by (auto simp: FileDescriptor_write_def obind_Inr_iff split: if_splits)
qed

text \<open>Whatever the sizes of the single writes are, what is written is a prefix.\<close>

lemma FileDescriptor_write_loop_spec:
  assumes sys: "stream_kernel sys got sent"
    and ok: "FileDescriptor_write_loop sys h write_all buffer tot s = Inr (n, s')"
  shows "tot \<le> n \<and> n \<le> tot + length (concat buffer) \<and> (write_all \<longrightarrow> n = tot + length (concat buffer)) \<and>
    got (sy_kernel s') = got (sy_kernel s) \<and> fd_num s' h = fd_num s h \<and>
    sent (sy_kernel s') = (sent (sy_kernel s))
      (fd_num s h := sent (sy_kernel s) (fd_num s h) @ take (n - tot) (concat buffer))"
  using ok
proof (induction "length (concat buffer)" arbitrary: buffer tot s rule: less_induct)
  case less
  obtain rv e k' where call:
    "k_writev sys (sy_kernel s) (fd_num s h) (BufferViewList_as_iovecs buffer) = ((rv, e), k')"
    by (metis prod.collapse)
  note rv = stream_kernel_writev [OF sys call, unfolded iov_bytes_as_iovecs]
  let ?s = "update_fd h after_write (s\<lparr>sy_kernel := k'\<rparr>)"
  have b: "\<not> rv < 0" "\<not> (rv = 0 \<and> concat buffer \<noteq> [])"
    using less.prems unfolding FileDescriptor_write_once [OF sys call] by (auto split: if_splits)
  obtain buffer' where b': "BufferViewList_remove_prefix buffer (nat rv) = Inr buffer'"
    and r: "(if write_all \<and> concat buffer' \<noteq> []
      then FileDescriptor_write_loop sys h write_all buffer' (tot + nat rv) ?s
      else Inr (tot + nat rv, ?s)) = Inr (n, s')"
    using less.prems unfolding FileDescriptor_write_once [OF sys call] if_not_P [OF b(1)] if_not_P [OF b(2)]
      obind_Inr_iff by blast
  have drop: "concat buffer' = drop (nat rv) (concat buffer)" "nat rv \<le> length (concat buffer)"
    using BufferViewList_remove_prefix_str [OF b'] by auto
  have s: "fd_num ?s h = fd_num s h" "sy_kernel ?s = k'" by (simp_all add: update_fd_def fd_num_def after_write_def)
  have sent: "sent k' = (sent (sy_kernel s))(fd_num s h := sent (sy_kernel s) (fd_num s h) @ take (nat rv) (concat buffer))"
    using rv(5) b(1) by simp
  show ?case
  proof (cases "write_all \<and> concat buffer' \<noteq> []")
    case True
    then have "length (concat buffer') < length (concat buffer)"
      using drop b(1,2) by (cases "rv = 0") (auto simp del: length_concat)
    note IH = less.hyps [OF this, of "tot + nat rv" ?s]
    have n: "n = tot + nat rv + length (concat buffer')" using IH r True by simp
    then have "n = tot + length (concat buffer)" using drop by (simp del: length_concat)
    then show ?thesis
      using IH r True s sent rv(6) drop n by (auto simp del: length_concat)
  next
    case False
    then have "n = tot + nat rv" "s' = ?s" using r by (auto split: if_splits)
    moreover have "write_all \<Longrightarrow> nat rv = length (concat buffer)"
      using False drop by (auto simp del: length_concat)
    ultimately show ?thesis using s sent rv(6) drop by (simp del: length_concat)
  qed
qed

lemma FileDescriptor_write_loop_returns:
  assumes sys: "stream_kernel sys got sent"
    and accepts: "\<And>k iov. iov_bytes iov \<noteq> [] \<Longrightarrow> fst (fst (k_writev sys k fd iov)) > 0"
    and nonempty: "concat buffer \<noteq> []" "fd_num s h = fd"
  shows "\<exists>r. FileDescriptor_write_loop sys h write_all buffer tot s = Inr r"
  using nonempty
proof (induction "length (concat buffer)" arbitrary: buffer tot s rule: less_induct)
  case less
  obtain rv e k' where call:
    "k_writev sys (sy_kernel s) (fd_num s h) (BufferViewList_as_iovecs buffer) = ((rv, e), k')"
    by (metis prod.collapse)
  note rv = stream_kernel_writev [OF sys call, unfolded iov_bytes_as_iovecs]
  have "rv > 0" using accepts [of "BufferViewList_as_iovecs buffer"] call less.prems
    by (metis iov_bytes_as_iovecs fst_conv)
  moreover obtain buffer' where b: "BufferViewList_remove_prefix buffer (nat rv) = Inr buffer'"
    using BufferViewList_remove_prefix_ok rv(1) by (metis nat_le_iff)
  moreover from this have "length (concat buffer') < length (concat buffer)"
    using BufferViewList_remove_prefix_str [OF b] \<open>rv > 0\<close> less.prems by (auto simp del: length_concat)
  ultimately show ?case
    unfolding FileDescriptor_write_once [OF sys call] using less.hyps [of buffer'] less.prems(2)
    by (cases write_all) (simp_all add: fd_num_def update_fd_def after_write_def del: length_concat concat_eq_Nil_conv)
qed

section \<open>Properties\<close>

text \<open>
  C28: Writing everything ends and writes everything: with a kernel that takes at least one byte of
  every non-empty write to the descriptor, and otherwise any number of them, \<^verbatim>\<open>FileDescriptor::write\<close> with
  \<^verbatim>\<open>write_all\<close> returns the length of its non-empty buffer, and the descriptor has accepted exactly the
  bytes of the buffer, in order and once; no other descriptor has received anything.
\<close>

theorem FileDescriptor_write_all:
  assumes "stream_kernel sys got sent"
    and "\<forall>k iov. iov_bytes iov \<noteq> [] \<longrightarrow> fst (fst (k_writev sys k (fd_num s h) iov)) > 0"
    and "concat buffer \<noteq> []"
  shows "\<exists>s'. FileDescriptor_write sys h buffer True s = Inr (length (concat buffer), s') \<and>
    sent (sy_kernel s') = (sent (sy_kernel s))
      (fd_num s h := sent (sy_kernel s) (fd_num s h) @ concat buffer)"
proof -
  obtain n s' where r: "FileDescriptor_write_loop sys h True buffer 0 s = Inr (n, s')"
    using FileDescriptor_write_loop_returns [OF assms(1) _ assms(3) refl] assms(2) by (metis surj_pair)
  then show ?thesis
    using FileDescriptor_write_loop_spec [OF assms(1) r] by (simp add: FileDescriptor_write_def)
qed

text \<open>
  A kernel whose state is the two histories, which takes at most three bytes at a time and gives
  one byte to each read.
\<close>

type_synonym histories = "(int \<Rightarrow> bytes) \<times> (int \<Rightarrow> bytes)"

definition slow_kernel :: "histories kernel" where
  "slow_kernel = \<lparr>
     k_read = (\<lambda>(g, t) fd n. if n = 0 then ((- 1, 9), [], (g, t))
       else ((1, 0), [65], (g(fd := g fd @ [65]), t))),
     k_writev = (\<lambda>(g, t) fd iov. let n = min 3 (length (iov_bytes iov)) in
       ((int n, 0), (g, t(fd := t fd @ take n (iov_bytes iov))))),
     k_close = (\<lambda>k fd. ((0, 0), k)), k_getfl = (\<lambda>k fd. ((0, 0), k)), k_setfl = (\<lambda>k fd fl. ((0, 0), k))\<rparr>"

lemma slow_kernel_streams: "stream_kernel slow_kernel fst snd"
  by (auto simp: stream_kernel_def slow_kernel_def Let_def split: if_splits)

definition one_descriptor :: "histories system" where
  "one_descriptor = \<lparr>sy_kernel = (\<lambda>_. [], \<lambda>_. []),
     sy_fds = (\<lambda>_. \<lparr>fd_fd = 1, fd_eof = False, fd_closed = False, fd_read_count = 0, fd_write_count = 0\<rparr>),
     sy_next = 1\<rparr>"

theorem FileDescriptor_write_all_witness:
  "\<exists>s'. FileDescriptor_write slow_kernel 0 [[1, 2], [], [3, 4, 5, 6, 7]] True one_descriptor = Inr (7, s') \<and>
     snd (sy_kernel s') 1 = [1, 2, 3, 4, 5, 6, 7]"
  using FileDescriptor_write_all [OF slow_kernel_streams, of one_descriptor 0 "[[1, 2], [], [3, 4, 5, 6, 7]]"]
  by (auto simp: slow_kernel_def Let_def fd_num_def one_descriptor_def)

end
