(* ===== verification/Sockets.thy ===== *)
theory Sockets
  imports File_Descriptor Addresses
begin

text \<open>
  Sockets, \<^verbatim>\<open>libsponge/util/socket.{hh,cc}\<close>: the error-checked wrappers of the socket system
  calls.  The calls extend the kernel record; a socket is a descriptor handle.
\<close>

section \<open>Socket system calls\<close>

text \<open>
  Addresses go to the kernel as their storage and size, and come back in the same form; options and
  the datagram of a \<^verbatim>\<open>recvfrom\<close> come back with the length that the kernel stored.
\<close>

record 'k socket_kernel = "'k kernel" +
  k_socket :: "'k \<Rightarrow> int \<Rightarrow> int \<Rightarrow> sysret \<times> 'k"
  k_getsockopt :: "'k \<Rightarrow> int \<Rightarrow> int \<Rightarrow> int \<Rightarrow> sysret \<times> int \<times> nat \<times> 'k"
  k_setsockopt :: "'k \<Rightarrow> int \<Rightarrow> int \<Rightarrow> int \<Rightarrow> int \<Rightarrow> sysret \<times> 'k"
  k_getsockname :: "'k \<Rightarrow> int \<Rightarrow> sysret \<times> bytes \<times> nat \<times> 'k"
  k_getpeername :: "'k \<Rightarrow> int \<Rightarrow> sysret \<times> bytes \<times> nat \<times> 'k"
  k_bind :: "'k \<Rightarrow> int \<Rightarrow> bytes \<Rightarrow> u32 \<Rightarrow> sysret \<times> 'k"
  k_connect :: "'k \<Rightarrow> int \<Rightarrow> bytes \<Rightarrow> u32 \<Rightarrow> sysret \<times> 'k"
  k_shutdown :: "'k \<Rightarrow> int \<Rightarrow> int \<Rightarrow> sysret \<times> 'k"
  k_recvfrom :: "'k \<Rightarrow> int \<Rightarrow> nat \<Rightarrow> sysret \<times> bytes \<times> bytes \<times> nat \<times> 'k"
  k_sendmsg :: "'k \<Rightarrow> int \<Rightarrow> (bytes \<times> u32) option \<Rightarrow> (bytes \<times> nat) list \<Rightarrow> sysret \<times> 'k"
  k_listen :: "'k \<Rightarrow> int \<Rightarrow> int \<Rightarrow> sysret \<times> 'k"
  k_accept :: "'k \<Rightarrow> int \<Rightarrow> sysret \<times> 'k"
  k_socketpair :: "'k \<Rightarrow> int \<Rightarrow> int \<Rightarrow> sysret \<times> int \<times> int \<times> 'k"

definition AF_UNIX :: int where "AF_UNIX = 1"
definition SOCK_STREAM :: int where "SOCK_STREAM = 1"
definition SOCK_DGRAM :: int where "SOCK_DGRAM = 2"
definition SOL_SOCKET :: int where "SOL_SOCKET = 1"
definition SO_REUSEADDR :: int where "SO_REUSEADDR = 2"
definition SO_TYPE :: int where "SO_TYPE = 3"
definition SO_DOMAIN :: int where "SO_DOMAIN = 39"
definition SHUT_RD :: int where "SHUT_RD = 0"
definition SHUT_WR :: int where "SHUT_WR = 1"
definition SHUT_RDWR :: int where "SHUT_RDWR = 2"
definition sizeof_int :: nat where "sizeof_int = 4"

section \<open>Construction\<close>

definition Socket_new ::
  "('k, 'b) socket_kernel_scheme \<Rightarrow> int \<Rightarrow> int \<Rightarrow> ('k, 'a) system_scheme \<Rightarrow>
     (nat \<times> ('k, 'a) system_scheme) outcome" where
  "Socket_new sys domain type s =
     (case k_socket sys (sy_kernel s) domain type of (r, k) \<Rightarrow>
        obind (SystemCall ''socket'' r 0) (\<lambda>fd. FileDescriptor_new fd (s\<lparr>sy_kernel := k\<rparr>)))"

definition Socket_of_fd ::
  "('k, 'b) socket_kernel_scheme \<Rightarrow> nat \<Rightarrow> int \<Rightarrow> int \<Rightarrow> ('k, 'a) system_scheme \<Rightarrow>
     (nat \<times> ('k, 'a) system_scheme) outcome" where
  "Socket_of_fd sys h domain type s =
     (case k_getsockopt sys (sy_kernel s) (fd_num s h) SOL_SOCKET SO_DOMAIN of (r, actual_value, len, k) \<Rightarrow>
        obind (SystemCall ''getsockopt'' r 0) (\<lambda>_.
        if len \<noteq> sizeof_int \<or> actual_value \<noteq> domain then Inl (Runtime_error ''socket domain mismatch'')
        else case k_getsockopt sys k (fd_num s h) SOL_SOCKET SO_TYPE of (r, actual_value, len, k) \<Rightarrow>
          obind (SystemCall ''getsockopt'' r 0) (\<lambda>_.
          if len \<noteq> sizeof_int \<or> actual_value \<noteq> type then Inl (Runtime_error ''socket type mismatch'')
          else Inr (h, s\<lparr>sy_kernel := k\<rparr>))))"

definition LocalStreamSocket_of_fd ::
  "('k, 'b) socket_kernel_scheme \<Rightarrow> nat \<Rightarrow> ('k, 'a) system_scheme \<Rightarrow> (nat \<times> ('k, 'a) system_scheme) outcome" where
  "LocalStreamSocket_of_fd sys h = Socket_of_fd sys h AF_UNIX SOCK_STREAM"

definition UDPSocket_new ::
  "('k, 'b) socket_kernel_scheme \<Rightarrow> ('k, 'a) system_scheme \<Rightarrow> (nat \<times> ('k, 'a) system_scheme) outcome" where
  "UDPSocket_new sys = Socket_new sys AF_INET SOCK_DGRAM"

definition TCPSocket_new ::
  "('k, 'b) socket_kernel_scheme \<Rightarrow> ('k, 'a) system_scheme \<Rightarrow> (nat \<times> ('k, 'a) system_scheme) outcome" where
  "TCPSocket_new sys = Socket_new sys AF_INET SOCK_STREAM"

section \<open>Addresses and connections\<close>

definition get_address ::
  "string \<Rightarrow> ('k \<Rightarrow> int \<Rightarrow> sysret \<times> bytes \<times> nat \<times> 'k) \<Rightarrow> nat \<Rightarrow> ('k, 'a) system_scheme \<Rightarrow>
     (address \<times> ('k, 'a) system_scheme) outcome" where
  "get_address name_of_function f h s =
     (case f (sy_kernel s) (fd_num s h) of (r, addr, sz, k) \<Rightarrow>
        obind (SystemCall name_of_function r 0) (\<lambda>_.
        obind (Address_new addr sz) (\<lambda>a. Inr (a, s\<lparr>sy_kernel := k\<rparr>))))"

definition Socket_local_address ::
  "('k, 'b) socket_kernel_scheme \<Rightarrow> nat \<Rightarrow> ('k, 'a) system_scheme \<Rightarrow>
     (address \<times> ('k, 'a) system_scheme) outcome" where
  "Socket_local_address sys = get_address ''getsockname'' (k_getsockname sys)"

definition Socket_peer_address ::
  "('k, 'b) socket_kernel_scheme \<Rightarrow> nat \<Rightarrow> ('k, 'a) system_scheme \<Rightarrow>
     (address \<times> ('k, 'a) system_scheme) outcome" where
  "Socket_peer_address sys = get_address ''getpeername'' (k_getpeername sys)"

text \<open>Calls whose result is only checked.\<close>

definition checked :: "string \<Rightarrow> sysret \<times> 'k \<Rightarrow> ('k, 'a) system_scheme \<Rightarrow> ('k, 'a) system_scheme outcome" where
  "checked attempt reply s =
     obind (SystemCall attempt (fst reply) 0) (\<lambda>_. Inr (s\<lparr>sy_kernel := snd reply\<rparr>))"

definition Socket_bind ::
  "('k, 'b) socket_kernel_scheme \<Rightarrow> nat \<Rightarrow> address \<Rightarrow> ('k, 'a) system_scheme \<Rightarrow> ('k, 'a) system_scheme outcome" where
  "Socket_bind sys h a s = checked ''bind'' (k_bind sys (sy_kernel s) (fd_num s h) (ad_storage a) (ad_size a)) s"

definition Socket_connect ::
  "('k, 'b) socket_kernel_scheme \<Rightarrow> nat \<Rightarrow> address \<Rightarrow> ('k, 'a) system_scheme \<Rightarrow> ('k, 'a) system_scheme outcome" where
  "Socket_connect sys h a s =
     checked ''connect'' (k_connect sys (sy_kernel s) (fd_num s h) (ad_storage a) (ad_size a)) s"

definition Socket_shutdown ::
  "('k, 'b) socket_kernel_scheme \<Rightarrow> nat \<Rightarrow> int \<Rightarrow> ('k, 'a) system_scheme \<Rightarrow> ('k, 'a) system_scheme outcome" where
  "Socket_shutdown sys h how s =
     obind (checked ''shutdown'' (k_shutdown sys (sy_kernel s) (fd_num s h) how) s) (\<lambda>s.
       if how = SHUT_RD then Inr (register_read h s)
       else if how = SHUT_WR then Inr (register_write h s)
       else if how = SHUT_RDWR then Inr (register_write h (register_read h s))
       else Inl (Runtime_error ''Socket::shutdown() called with invalid `how`''))"

definition Socket_setsockopt ::
  "('k, 'b) socket_kernel_scheme \<Rightarrow> nat \<Rightarrow> int \<Rightarrow> int \<Rightarrow> int \<Rightarrow> ('k, 'a) system_scheme \<Rightarrow>
     ('k, 'a) system_scheme outcome" where
  "Socket_setsockopt sys h level opt option_value s =
     checked ''setsockopt'' (k_setsockopt sys (sy_kernel s) (fd_num s h) level opt option_value) s"

definition Socket_set_reuseaddr ::
  "('k, 'b) socket_kernel_scheme \<Rightarrow> nat \<Rightarrow> ('k, 'a) system_scheme \<Rightarrow> ('k, 'a) system_scheme outcome" where
  "Socket_set_reuseaddr sys h = Socket_setsockopt sys h SOL_SOCKET SO_REUSEADDR 1"

definition TCPSocket_listen ::
  "('k, 'b) socket_kernel_scheme \<Rightarrow> nat \<Rightarrow> int \<Rightarrow> ('k, 'a) system_scheme \<Rightarrow> ('k, 'a) system_scheme outcome" where
  "TCPSocket_listen sys h backlog s = checked ''listen'' (k_listen sys (sy_kernel s) (fd_num s h) backlog) s"

definition TCPSocket_accept ::
  "('k, 'b) socket_kernel_scheme \<Rightarrow> nat \<Rightarrow> ('k, 'a) system_scheme \<Rightarrow> (nat \<times> ('k, 'a) system_scheme) outcome" where
  "TCPSocket_accept sys h s =
     (let s = register_read h s
      in case k_accept sys (sy_kernel s) (fd_num s h) of (r, k) \<Rightarrow>
        obind (SystemCall ''accept'' r 0) (\<lambda>fd.
        obind (FileDescriptor_new fd (s\<lparr>sy_kernel := k\<rparr>)) (\<lambda>(h', s).
          Socket_of_fd sys h' AF_INET SOCK_STREAM s)))"

section \<open>Datagrams\<close>

definition UDPSocket_recv ::
  "('k, 'b) socket_kernel_scheme \<Rightarrow> nat \<Rightarrow> nat \<Rightarrow> ('k, 'a) system_scheme \<Rightarrow>
     ((address \<times> bytes) \<times> ('k, 'a) system_scheme) outcome" where
  "UDPSocket_recv sys h mtu s =
     (case k_recvfrom sys (sy_kernel s) (fd_num s h) mtu of (r, stored, from_addr, fromlen, k) \<Rightarrow>
        obind (SystemCall ''recvfrom'' (int_arg r) 0) (\<lambda>recv_len.
        if recv_len > int mtu then Inl (Runtime_error ''recvfrom (oversized datagram)'')
        else obind (Address_new from_addr fromlen) (\<lambda>source_address.
          if recv_len < 0 then Inl Length_error
          else Inr ((source_address, take (nat recv_len) (stored @ replicate (nat recv_len) 0)),
                    register_read h (s\<lparr>sy_kernel := k\<rparr>)))))"

definition sendmsg_helper ::
  "('k, 'b) socket_kernel_scheme \<Rightarrow> int \<Rightarrow> (bytes \<times> u32) option \<Rightarrow> buffer_view_list \<Rightarrow>
     ('k, 'a) system_scheme \<Rightarrow> ('k, 'a) system_scheme outcome" where
  "sendmsg_helper sys fd destination payload s =
     (case k_sendmsg sys (sy_kernel s) fd destination (BufferViewList_as_iovecs payload) of (r, k) \<Rightarrow>
        obind (SystemCall ''sendmsg'' (int_arg r) 0) (\<lambda>bytes_sent.
        if nat (bytes_sent mod 2 ^ 64) \<noteq> BufferViewList_size payload
        then Inl (Runtime_error ''datagram payload too big for sendmsg()'')
        else Inr (s\<lparr>sy_kernel := k\<rparr>)))"

definition UDPSocket_sendto ::
  "('k, 'b) socket_kernel_scheme \<Rightarrow> nat \<Rightarrow> address \<Rightarrow> buffer_view_list \<Rightarrow> ('k, 'a) system_scheme \<Rightarrow>
     ('k, 'a) system_scheme outcome" where
  "UDPSocket_sendto sys h destination payload s =
     obind (sendmsg_helper sys (fd_num s h) (Some (ad_storage destination, ad_size destination)) payload s)
       (\<lambda>s. Inr (register_write h s))"

definition UDPSocket_send ::
  "('k, 'b) socket_kernel_scheme \<Rightarrow> nat \<Rightarrow> buffer_view_list \<Rightarrow> ('k, 'a) system_scheme \<Rightarrow>
     ('k, 'a) system_scheme outcome" where
  "UDPSocket_send sys h payload s =
     obind (sendmsg_helper sys (fd_num s h) None payload s) (\<lambda>s. Inr (register_write h s))"

text \<open>
  With \<^verbatim>\<open>MSG_TRUNC\<close> the call returns the real length of the datagram \<open>d\<close> and stores as much of it
  as fits: a datagram is received whole or not at all.
\<close>

lemma UDPSocket_recv_whole:
  assumes "k_recvfrom sys (sy_kernel s) (fd_num s h) mtu = ((int (length d), e), take mtu d, st, len, k')"
    and "Address_new st len = Inr a" "length d < 2 ^ 31"
  shows "UDPSocket_recv sys h mtu s =
    (if length d \<le> mtu then Inr ((a, d), register_read h (s\<lparr>sy_kernel := k'\<rparr>))
     else Inl (Runtime_error ''recvfrom (oversized datagram)''))"
proof -
  have "int_arg (int (length d), e) = (int (length d), e)"
    using assms(3) by (simp add: int_arg_def signed_take_bit_int_eq_self)
  with assms show ?thesis by (simp add: UDPSocket_recv_def SystemCall_def)
qed

end
