(* ===== verification/Event_Loop.thy ===== *)
theory Event_Loop
  imports Sockets Byte_Stream "HOL-Library.Sublist"
begin

text \<open>
  The event loop, \<^verbatim>\<open>libsponge/util/eventloop.{hh,cc}\<close>: rules over descriptors, and
  \<^verbatim>\<open>wait_next_event\<close>, which polls the descriptors of the interested rules and runs their
  callbacks.  A callback is a function on the state of the program; the callbacks of the sources
  neither add nor remove rules.  The locale \<open>loop_rules\<close> is the contract of a set of rules.
\<close>

section \<open>Polling\<close>

definition POLLIN :: u16 where "POLLIN = 1"
definition POLLOUT :: u16 where "POLLOUT = 4"
definition POLLERR :: u16 where "POLLERR = 8"
definition POLLHUP :: u16 where "POLLHUP = 16"
definition POLLNVAL :: u16 where "POLLNVAL = 32"
definition EINTR :: int where "EINTR = 4"

record pollfd =
  pf_fd :: int
  pf_events :: u16
  pf_revents :: u16

text \<open>
  The call \<^verbatim>\<open>poll\<close>, which fills in the returned events, and the clock behind
  \<^verbatim>\<open>timestamp_ms\<close>.
\<close>

record 'k poll_kernel = "'k socket_kernel" +
  k_poll :: "'k \<Rightarrow> pollfd list \<Rightarrow> int \<Rightarrow> sysret \<times> pollfd list \<times> 'k"
  k_timestamp_ms :: "'k \<Rightarrow> u64 \<times> 'k"

section \<open>Rules\<close>

datatype direction = Direction_In | Direction_Out

fun direction_events :: "direction \<Rightarrow> u16" where
  "direction_events Direction_In = POLLIN"
| "direction_events Direction_Out = POLLOUT"

record 's rule =
  ru_fd :: nat
  ru_direction :: direction
  ru_callback :: "'s \<Rightarrow> 's outcome"
  ru_interest :: "'s \<Rightarrow> bool"
  ru_cancel :: "'s \<Rightarrow> 's outcome"

datatype loop_result = Result_Success | Result_Timeout | Result_Exit

definition Rule_service_count :: "('k, 'a) system_scheme \<Rightarrow> ('k, 'a) system_scheme rule \<Rightarrow> u32" where
  "Rule_service_count s r =
     (if ru_direction r = Direction_In then FileDescriptor_read_count s (ru_fd r)
      else FileDescriptor_write_count s (ru_fd r))"

definition add_rule ::
  "nat \<Rightarrow> direction \<Rightarrow> ('s \<Rightarrow> 's outcome) \<Rightarrow> ('s \<Rightarrow> bool) \<Rightarrow> ('s \<Rightarrow> 's outcome) \<Rightarrow> 's rule list \<Rightarrow> 's rule list" where
  "add_rule fd direction callback interest cancel rules =
     rules @ [\<lparr>ru_fd = FileDescriptor_duplicate fd, ru_direction = direction, ru_callback = callback,
               ru_interest = interest, ru_cancel = cancel\<rparr>]"

text \<open>The first loop: rules whose descriptor is used up are cancelled, the others get their \<^verbatim>\<open>pollfd\<close>.\<close>

fun setup_pollfds ::
  "('k, 'a) system_scheme rule list \<Rightarrow> ('k, 'a) system_scheme \<Rightarrow>
     (('k, 'a) system_scheme rule list \<times> pollfd list \<times> bool \<times> ('k, 'a) system_scheme) outcome" where
  "setup_pollfds [] s = Inr ([], [], False, s)"
| "setup_pollfds (r # rules) s =
     (if ru_direction r = Direction_In \<and> FileDescriptor_eof s (ru_fd r) then
        obind (ru_cancel r s) (setup_pollfds rules)
      else if FileDescriptor_closed s (ru_fd r) then
        obind (ru_cancel r s) (setup_pollfds rules)
      else
        let interested = ru_interest r s;
            pf = \<lparr>pf_fd = fd_num s (ru_fd r),
                  pf_events = (if interested then direction_events (ru_direction r) else 0), pf_revents = 0\<rparr>
        in obind (setup_pollfds rules s) (\<lambda>(rules, pollfds, something_to_poll, s).
             Inr (r # rules, pf # pollfds, interested \<or> something_to_poll, s)))"

definition polled_fault :: cpp_fault where
  "polled_fault = Runtime_error ''EventLoop: error on polled file descriptor''"

definition busy_wait :: cpp_fault where
  "busy_wait = Runtime_error
     ''EventLoop: busy wait detected: callback did not read/write fd and is still interested''"

text \<open>The second loop, over the rules and the poll results side by side.\<close>

fun handle_events ::
  "('k, 'a) system_scheme rule list \<Rightarrow> pollfd list \<Rightarrow> ('k, 'a) system_scheme \<Rightarrow>
     (('k, 'a) system_scheme rule list \<times> ('k, 'a) system_scheme) outcome" where
  "handle_events [] pollfds s = Inr ([], s)"
| "handle_events (r # rules) [] s = Inl Out_of_bounds_read"
| "handle_events (r # rules) (p # pollfds) s =
     (let poll_error = (pf_revents p AND (POLLERR OR POLLNVAL) \<noteq> 0);
          poll_ready = (pf_revents p AND pf_events p \<noteq> 0);
          poll_hup = (pf_revents p AND POLLHUP \<noteq> 0)
      in if poll_error then Inl polled_fault
         else if poll_hup \<and> pf_events p \<noteq> 0 \<and> \<not> poll_ready then
           obind (ru_cancel r s) (handle_events rules pollfds)
         else
           obind (if poll_ready then
                    let count_before = Rule_service_count s r
                    in obind (ru_callback r s) (\<lambda>s.
                         if count_before = Rule_service_count s r \<and> ru_interest r s
                         then Inl busy_wait else Inr s)
                  else Inr s) (\<lambda>s.
             obind (handle_events rules pollfds s) (\<lambda>(rules, s). Inr (r # rules, s))))"

text \<open>
  An error of \<^verbatim>\<open>poll\<close> other than an interruption is caught and dropped: the code goes on with the
  poll results as they are.
\<close>

definition wait_next_event ::
  "('k, 'b) poll_kernel_scheme \<Rightarrow> int \<Rightarrow> ('k, 'a) system_scheme rule list \<Rightarrow> ('k, 'a) system_scheme \<Rightarrow>
     (loop_result \<times> ('k, 'a) system_scheme rule list \<times> ('k, 'a) system_scheme) outcome" where
  "wait_next_event sys timeout_ms rules s =
     obind (setup_pollfds rules s) (\<lambda>(rules, pollfds, something_to_poll, s).
       if \<not> something_to_poll then Inr (Result_Exit, rules, s)
       else case k_poll sys (sy_kernel s) pollfds timeout_ms of (r, pollfds, k) \<Rightarrow>
         let s = s\<lparr>sy_kernel := k\<rparr>;
             go_on = obind (handle_events rules pollfds s) (\<lambda>(rules, s). Inr (Result_Success, rules, s))
         in case SystemCall ''poll'' r 0 of
              Inr n \<Rightarrow> if n = 0 then Inr (Result_Timeout, rules, s) else go_on
            | Inl (Tagged_error _ e) \<Rightarrow> if e = EINTR then Inr (Result_Exit, rules, s) else go_on
            | Inl _ \<Rightarrow> go_on)"

text \<open>\<^verbatim>\<open>timestamp_ms\<close> reads the clock.\<close>

definition timestamp_ms ::
  "('k, 'b) poll_kernel_scheme \<Rightarrow> ('k, 'a) system_scheme \<Rightarrow> u64 \<times> ('k, 'a) system_scheme" where
  "timestamp_ms sys s = (case k_timestamp_ms sys (sy_kernel s) of (t, k) \<Rightarrow> (t, s\<lparr>sy_kernel := k\<rparr>))"

text \<open>What repeated waiting reaches from a state and its rules.\<close>

inductive loop_reach ::
  "('k, 'b) poll_kernel_scheme \<Rightarrow> int \<Rightarrow> ('k, 'a) system_scheme rule list \<Rightarrow> ('k, 'a) system_scheme \<Rightarrow>
     ('k, 'a) system_scheme rule list \<Rightarrow> ('k, 'a) system_scheme \<Rightarrow> bool" for sys t rules s where
  start: "loop_reach sys t rules s rules s"
| wait: "loop_reach sys t rules s rules1 s1 \<Longrightarrow> wait_next_event sys t rules1 s1 = Inr (res, rules2, s2) \<Longrightarrow>
    loop_reach sys t rules s rules2 s2"

section \<open>The contract of a set of rules\<close>

text \<open>A rule whose poll result is a hangup and nothing that was asked for.\<close>

definition bare_hangup :: "pollfd \<Rightarrow> bool" where
  "bare_hangup p \<longleftrightarrow> pf_revents p AND POLLHUP \<noteq> 0 \<and> pf_events p \<noteq> 0 \<and> pf_revents p AND pf_events p = 0"

text \<open>
  The rules \<open>R\<close> keep an invariant \<open>I\<close> of the program: polling keeps it, every callback does, and
  every cancellation of a rule whose descriptor is used up, \<open>D\<close>.  A callback that returns has served
  its descriptor, or the rule is not interested any more.  \<open>E\<close> are faults that no callback and no
  cancellation ends with; the loop does not either.
\<close>

locale loop_rules =
  fixes sys :: "('k, 'b) poll_kernel_scheme"
    and I :: "('k, 'a) system_scheme \<Rightarrow> bool"
    and R :: "('k, 'a) system_scheme rule \<Rightarrow> bool"
    and D :: "('k, 'a) system_scheme rule \<Rightarrow> ('k, 'a) system_scheme \<Rightarrow> bool"
    and E :: "cpp_fault set"
  assumes polled: "I s \<Longrightarrow> k_poll sys (sy_kernel s) pfs t = (x, pfs', k) \<Longrightarrow> I (s\<lparr>sy_kernel := k\<rparr>)"
    and hangup: "I s \<Longrightarrow> R r \<Longrightarrow> k_poll sys (sy_kernel s) pfs t = (x, pfs', k) \<Longrightarrow> i < length pfs' \<Longrightarrow>
      i < length pfs \<Longrightarrow> pf_fd (pfs ! i) = fd_num s (ru_fd r) \<Longrightarrow>
      pf_events (pfs ! i) \<in> {0, direction_events (ru_direction r)} \<Longrightarrow>
      bare_hangup (pfs' ! i) \<Longrightarrow> D r (s\<lparr>sy_kernel := k\<rparr>)"
    and used_up: "I s \<Longrightarrow> R r \<Longrightarrow>
      ru_direction r = Direction_In \<and> FileDescriptor_eof s (ru_fd r) \<or> FileDescriptor_closed s (ru_fd r) \<Longrightarrow> D r s"
    and callback: "I s \<Longrightarrow> R r \<Longrightarrow> ru_callback r s = Inr s' \<Longrightarrow>
      I s' \<and> (Rule_service_count s' r \<noteq> Rule_service_count s r \<or> \<not> ru_interest r s')"
    and cancel: "I s \<Longrightarrow> R r \<Longrightarrow> D r s \<Longrightarrow> ru_cancel r s = Inr s' \<Longrightarrow> I s'"
    and same_fds: "I s \<Longrightarrow> R r \<Longrightarrow> R r' \<Longrightarrow> ru_callback r s = Inr s' \<or> ru_cancel r s = Inr s' \<Longrightarrow>
      fd_num s' (ru_fd r') = fd_num s (ru_fd r')"
    and stable: "I s \<Longrightarrow> R r \<Longrightarrow> R r' \<Longrightarrow> ru_callback r s = Inr s' \<or> ru_cancel r s = Inr s' \<Longrightarrow>
      D r' s \<Longrightarrow> D r' s'"
    and no_fault: "I s \<Longrightarrow> R r \<Longrightarrow> e \<in> E \<Longrightarrow> ru_callback r s \<noteq> Inl e \<and> ru_cancel r s \<noteq> Inl e"
    and loop_faults: "polled_fault \<notin> E" "Out_of_bounds_read \<notin> E"
begin

lemma subseq_list_all: "subseq xs ys \<Longrightarrow> list_all P ys \<Longrightarrow> list_all P xs"
  by (auto simp: list_all_iff dest: list_emb_set)

lemma setup_keeps:
  "I s \<Longrightarrow> list_all R rules \<Longrightarrow> setup_pollfds rules s = Inr (rules', pfs, go, s') \<Longrightarrow>
     I s' \<and> subseq rules' rules \<and> length pfs = length rules' \<and>
     (\<forall>r. R r \<longrightarrow> fd_num s' (ru_fd r) = fd_num s (ru_fd r)) \<and>
     (\<forall>i < length pfs. pf_fd (pfs ! i) = fd_num s (ru_fd (rules' ! i)) \<and>
        pf_events (pfs ! i) \<in> {0, direction_events (ru_direction (rules' ! i))})"
proof (induction rules arbitrary: s rules' pfs go s')
  case (Cons r rules)
  consider (gone) "ru_direction r = Direction_In \<and> FileDescriptor_eof s (ru_fd r) \<or> FileDescriptor_closed s (ru_fd r)"
    | (stays) "\<not> (ru_direction r = Direction_In \<and> FileDescriptor_eof s (ru_fd r))" "\<not> FileDescriptor_closed s (ru_fd r)"
    by blast
  then show ?case
  proof cases
    case gone
    then obtain t where t: "ru_cancel r s = Inr t" "setup_pollfds rules t = Inr (rules', pfs, go, s')"
      using Cons.prems(3) by (auto simp: obind_Inr_iff split: if_splits)
    have "I t" using Cons.prems gone t(1) used_up cancel by auto
    moreover have "R r' \<Longrightarrow> fd_num t (ru_fd r') = fd_num s (ru_fd r')" for r'
      using Cons.prems t(1) same_fds by auto
    moreover have "list_all R rules" using Cons.prems(2) by simp
    moreover note IH = Cons.IH [OF \<open>I t\<close> this t(2)]
    moreover have "i < length pfs \<Longrightarrow> R (rules' ! i)" for i
      using IH \<open>list_all R rules\<close> subseq_list_all [of rules' rules R] by (simp add: list_all_length)
    ultimately show ?thesis by (auto intro: subseq_Cons')
  next
    case stays
    obtain x where x: "setup_pollfds rules s = Inr x"
      using Cons.prems(3) stays by (auto simp: obind_Inr_iff Let_def)
    obtain rules1 pfs1 go1 s1 where "x = (rules1, pfs1, go1, s1)" by (cases x)
    with x have t: "setup_pollfds rules s = Inr (rules1, pfs1, go1, s')"
      "rules' = r # rules1"
      "pfs = \<lparr>pf_fd = fd_num s (ru_fd r),
         pf_events = (if ru_interest r s then direction_events (ru_direction r) else 0), pf_revents = 0\<rparr> # pfs1"
      using Cons.prems(3) stays by (simp_all add: Let_def)
    show ?thesis using Cons.IH [OF Cons.prems(1) _ t(1)] Cons.prems(2) t(2,3)
      by (auto simp: nth_Cons split: nat.split)
  qed
qed simp

lemma setup_no_fault: "I s \<Longrightarrow> list_all R rules \<Longrightarrow> e \<in> E \<Longrightarrow> setup_pollfds rules s \<noteq> Inl e"
proof (induction rules arbitrary: s)
  case (Cons r rules)
  have R: "R r" "list_all R rules" using Cons.prems(2) by auto
  have cancelled: "obind (ru_cancel r s) (setup_pollfds rules) \<noteq> Inl e" if "D r s"
    using cancel [OF Cons.prems(1) R(1) that] no_fault [OF Cons.prems(1) R(1) Cons.prems(3)] Cons.IH R(2) Cons.prems(3)
    by (cases "ru_cancel r s") auto
  have "setup_pollfds rules s \<noteq> Inl e" using Cons.IH Cons.prems(1) R(2) Cons.prems(3) .
  then show ?case
    using used_up [OF Cons.prems(1) R(1)] cancelled
    by (cases "setup_pollfds rules s") (auto simp: Let_def)
qed simp

lemma obind_busy: "obind m (\<lambda>(a, b). Inr (f a b)) = Inl e \<longleftrightarrow> m = Inl e"
  by (cases m) auto

text \<open>One rule of the second loop, and that it keeps what the contract says.\<close>

lemma callback_keeps:
  assumes "I s" "R r"
    and "obind (ru_callback r s) (\<lambda>t. if Rule_service_count s r = Rule_service_count t r \<and> ru_interest r t
      then Inl busy_wait else Inr t) = x"
  shows "(\<forall>e \<in> E. x \<noteq> Inl e) \<and> (\<forall>t. x = Inr t \<longrightarrow> I t \<and> ru_callback r s = Inr t)"
  using assms callback [OF assms(1,2)] no_fault [OF assms(1,2)]
  by (cases "ru_callback r s") auto

lemma handle_one_keeps:
  assumes inv: "I s" "R r" and hup: "bare_hangup p \<Longrightarrow> D r s"
    and later: "\<And>t. I t \<Longrightarrow> t = s \<or> ru_callback r s = Inr t \<or> ru_cancel r s = Inr t \<Longrightarrow>
      (\<forall>e \<in> E. handle_events rules ps t \<noteq> Inl e) \<and>
      (\<forall>rules' s'. handle_events rules ps t = Inr (rules', s') \<longrightarrow> I s' \<and> subseq rules' rules)"
  shows "(\<forall>e \<in> E. handle_events (r # rules) (p # ps) s \<noteq> Inl e) \<and>
    (\<forall>rules' s'. handle_events (r # rules) (p # ps) s = Inr (rules', s') \<longrightarrow> I s' \<and> subseq rules' (r # rules))"
proof -
  consider (err) "pf_revents p AND (POLLERR OR POLLNVAL) \<noteq> 0"
    | (hup) "\<not> pf_revents p AND (POLLERR OR POLLNVAL) \<noteq> 0" "bare_hangup p"
    | (ready) "\<not> pf_revents p AND (POLLERR OR POLLNVAL) \<noteq> 0" "pf_revents p AND pf_events p \<noteq> 0"
    | (idle) "\<not> pf_revents p AND (POLLERR OR POLLNVAL) \<noteq> 0" "\<not> bare_hangup p" "pf_revents p AND pf_events p = 0"
    by (auto simp: bare_hangup_def)
  then show ?thesis
  proof cases
    case err
    then show ?thesis using loop_faults(1) by auto
  next
    case hup
    have eq: "handle_events (r # rules) (p # ps) s = obind (ru_cancel r s) (handle_events rules ps)"
      using hup by (simp add: bare_hangup_def)
    show ?thesis
      unfolding eq using no_fault [OF inv] cancel [OF inv assms(3) [OF hup(2)]] later
      by (cases "ru_cancel r s") (auto intro: subseq_Cons')
  next
    case ready
    define x where "x = obind (ru_callback r s) (\<lambda>t.
      if Rule_service_count s r = Rule_service_count t r \<and> ru_interest r t then Inl busy_wait else Inr t)"
    have eq: "handle_events (r # rules) (p # ps) s
      = obind x (\<lambda>t. obind (handle_events rules ps t) (\<lambda>(rules, s). Inr (r # rules, s)))"
      using ready by (simp add: x_def Let_def)
    show ?thesis
      unfolding eq using callback_keeps [OF inv x_def [symmetric]] later
      by (cases x) (auto simp: obind_Inr_iff obind_busy)
  next
    case idle
    have eq: "handle_events (r # rules) (p # ps) s
      = obind (handle_events rules ps s) (\<lambda>(rules, s). Inr (r # rules, s))"
      using idle by (auto simp: bare_hangup_def Let_def)
    show ?thesis
      unfolding eq using later [OF inv(1)] by (auto simp: obind_Inr_iff obind_busy)
  qed
qed

lemma handle_keeps:
  "I s \<Longrightarrow> list_all R rules \<Longrightarrow>
     (\<And>i. i < length rules \<Longrightarrow> i < length pfs \<Longrightarrow> bare_hangup (pfs ! i) \<Longrightarrow> D (rules ! i) s) \<Longrightarrow>
     (\<forall>e \<in> E. handle_events rules pfs s \<noteq> Inl e) \<and>
     (\<forall>rules' s'. handle_events rules pfs s = Inr (rules', s') \<longrightarrow> I s' \<and> subseq rules' rules)"
proof (induction rules arbitrary: pfs s)
  case (Cons r rules)
  have R: "R r" "list_all R rules" using Cons.prems(2) by auto
  show ?case
  proof (cases pfs)
    case (Cons p ps)
    show ?thesis
      unfolding Cons
    proof (rule handle_one_keeps [OF Cons.prems(1) R(1)])
      show "D r s" if "bare_hangup p" using Cons.prems(3) [of 0] Cons that by simp
    next
      fix t assume t: "I t" "t = s \<or> ru_callback r s = Inr t \<or> ru_cancel r s = Inr t"
      show "(\<forall>e \<in> E. handle_events rules ps t \<noteq> Inl e) \<and>
        (\<forall>rules' s'. handle_events rules ps t = Inr (rules', s') \<longrightarrow> I s' \<and> subseq rules' rules)"
      proof (rule Cons.IH [OF t(1) R(2)])
        fix i assume i: "i < length rules" "i < length ps" "bare_hangup (ps ! i)"
        then have "D (rules ! i) s" using Cons.prems(3) [of "Suc i"] Cons by simp
        moreover have "R (rules ! i)" using R(2) i(1) by (simp add: list_all_length)
        ultimately show "D (rules ! i) t" using t(2) stable [OF Cons.prems(1) R(1)] by blast
      qed
    qed
  qed (use loop_faults(2) in auto)
qed simp

lemma wait_keeps:
  assumes "I s" "list_all R rules"
  shows "e \<in> E \<Longrightarrow> wait_next_event sys t rules s \<noteq> Inl e"
    and "wait_next_event sys t rules s = Inr (res, rules', s') \<Longrightarrow> I s' \<and> subseq rules' rules"
proof -
  have "(\<forall>e \<in> E. wait_next_event sys t rules s \<noteq> Inl e) \<and>
    (\<forall>res rules' s'. wait_next_event sys t rules s = Inr (res, rules', s') \<longrightarrow> I s' \<and> subseq rules' rules)"
  proof (cases "setup_pollfds rules s")
    case (Inl e)
    then show ?thesis using setup_no_fault [OF assms] by (simp add: wait_next_event_def)
  next
    case (Inr x)
    obtain rules1 pfs go s1 where "x = (rules1, pfs, go, s1)" by (cases x)
    with Inr have su: "setup_pollfds rules s = Inr (rules1, pfs, go, s1)" by simp
    note keeps = setup_keeps [OF assms su]
    obtain r pfs' k where call: "k_poll sys (sy_kernel s1) pfs t = (r, pfs', k)" by (metis prod.collapse)
    let ?s = "s1\<lparr>sy_kernel := k\<rparr>"
    have R: "list_all R rules1" using keeps assms(2) subseq_list_all by blast
    have I: "I ?s" using polled [OF _ call] keeps by blast
    have D: "D (rules1 ! i) ?s" if i: "i < length rules1" "i < length pfs'" "bare_hangup (pfs' ! i)" for i
    proof -
      have "R (rules1 ! i)" using R i(1) by (simp add: list_all_length)
      with keeps i show ?thesis by (intro hangup [OF _ _ call i(2)]) auto
    qed
    have "\<forall>e \<in> E. handle_events rules1 pfs' ?s \<noteq> Inl e"
      and "handle_events rules1 pfs' ?s = Inr (rules2, s2) \<Longrightarrow> I s2 \<and> subseq rules2 rules" for rules2 s2
      using handle_keeps [OF I R, of pfs'] D keeps by (blast dest: subseq_order.trans)+
    then show ?thesis
      using keeps I by (auto simp: wait_next_event_def su call Let_def obind_Inr_iff obind_busy
          split: sum.splits cpp_fault.splits if_splits)
  qed
  then show "e \<in> E \<Longrightarrow> wait_next_event sys t rules s \<noteq> Inl e"
    and "wait_next_event sys t rules s = Inr (res, rules', s') \<Longrightarrow> I s' \<and> subseq rules' rules" by blast+
qed

lemma reach_keeps:
  assumes "loop_reach sys t rules s rules' s'" "I s" "list_all R rules"
  shows "I s' \<and> subseq rules' rules \<and> (\<forall>e \<in> E. wait_next_event sys t rules' s' \<noteq> Inl e)"
  using assms
proof (induction rule: loop_reach.induct)
  case start
  then show ?case using wait_keeps(1) by blast
next
  case (wait rules1 s1 res rules2 s2)
  then have "list_all R rules1" using subseq_list_all by blast
  with wait have "I s2" "subseq rules2 rules1" using wait_keeps(2) by blast+
  moreover from this have "list_all R rules2" using \<open>list_all R rules1\<close> subseq_list_all by blast
  ultimately show ?case using wait wait_keeps(1) subseq_order.trans by blast
qed

end

section \<open>Callbacks that read and write\<close>

text \<open>
  The other calls of a loop transfer no stream bytes, and \<^verbatim>\<open>poll\<close> only fills in the returned
  events.
\<close>

definition loop_kernel ::
  "('k, 'b) poll_kernel_scheme \<Rightarrow> ('k \<Rightarrow> int \<Rightarrow> bytes) \<Rightarrow> ('k \<Rightarrow> int \<Rightarrow> bytes) \<Rightarrow> bool" where
  "loop_kernel sys got sent \<longleftrightarrow> stream_kernel sys got sent \<and>
     (\<forall>k fd how r k'. k_shutdown sys k fd how = (r, k') \<longrightarrow> got k' = got k \<and> sent k' = sent k) \<and>
     (\<forall>k fd n r d a m k'. k_recvfrom sys k fd n = (r, d, a, m, k') \<longrightarrow> got k' = got k \<and> sent k' = sent k) \<and>
     (\<forall>k fd a iov r k'. k_sendmsg sys k fd a iov = (r, k') \<longrightarrow> got k' = got k \<and> sent k' = sent k) \<and>
     (\<forall>k t k'. k_timestamp_ms sys k = (t, k') \<longrightarrow> got k' = got k \<and> sent k' = sent k) \<and>
     (\<forall>k pfs t r pfs' k'. k_poll sys k pfs t = (r, pfs', k') \<longrightarrow> got k' = got k \<and> sent k' = sent k \<and>
        map pf_fd pfs' = map pf_fd pfs \<and> map pf_events pfs' = map pf_events pfs)"

lemma loop_kernel_laws:
  assumes "loop_kernel sys got sent"
  shows "stream_kernel sys got sent"
    and "k_shutdown sys k fd how = (r, k') \<Longrightarrow> got k' = got k \<and> sent k' = sent k"
    and "k_recvfrom sys k fd n = (r, d, a, m, k') \<Longrightarrow> got k' = got k \<and> sent k' = sent k"
    and "k_sendmsg sys k fd ad iov = (r, k') \<Longrightarrow> got k' = got k \<and> sent k' = sent k"
    and "k_timestamp_ms sys k = (now, k') \<Longrightarrow> got k' = got k \<and> sent k' = sent k"
    and "k_poll sys k pfs t = (r, pfs', k') \<Longrightarrow> got k' = got k \<and> sent k' = sent k \<and>
      map pf_fd pfs' = map pf_fd pfs \<and> map pf_events pfs' = map pf_events pfs"
  using assms unfolding loop_kernel_def by meson+

lemma read_not_busy: "FileDescriptor_read sys h limit s \<noteq> Inl busy_wait"
  by (auto simp: FileDescriptor_read_def Let_def SystemCall_def busy_wait_def obind_def
      split: prod.splits sum.splits if_splits)

lemma remove_prefix_not_busy: "BufferViewList_remove_prefix vl n \<noteq> Inl busy_wait"
  by (induction vl n rule: BufferViewList_remove_prefix.induct) (auto simp: busy_wait_def)

lemma write_not_busy: "FileDescriptor_write sys h vl False s \<noteq> Inl busy_wait"
  unfolding FileDescriptor_write_def
  by (subst FileDescriptor_write_loop.simps)
    (use remove_prefix_not_busy in \<open>auto simp: SystemCall_def busy_wait_def obind_def Let_def
      split: prod.splits sum.splits if_splits\<close>)

lemma close_not_busy: "FileDescriptor_close sys h s \<noteq> Inl busy_wait"
  by (auto simp: FileDescriptor_close_def SystemCall_def busy_wait_def obind_def
      split: prod.splits sum.splits if_splits)

lemma shutdown_not_busy: "Socket_shutdown sys h how s \<noteq> Inl busy_wait"
  by (auto simp: Socket_shutdown_def checked_def SystemCall_def busy_wait_def obind_def
      split: prod.splits sum.splits if_splits)

lemmas not_busy = read_not_busy write_not_busy close_not_busy shutdown_not_busy

lemma update_fd_simps [simp]:
  "sy_kernel (update_fd h f s) = sy_kernel s"
  "sy_fds (update_fd h f s) = (sy_fds s)(h := f (sy_fds s h))"
  by (simp_all add: update_fd_def)

lemma fd_num_after [simp]:
  "fd_num (update_fd h (after_read limit data) s) h' = fd_num s h'"
  "fd_num (update_fd h after_write s) h' = fd_num s h'"
  "fd_num (s\<lparr>sy_kernel := k\<rparr>) h' = fd_num s h'"
  by (simp_all add: fd_num_def after_read_def after_write_def)

lemma Socket_shutdown_spec:
  assumes "loop_kernel sys got sent" "Socket_shutdown sys h SHUT_WR s = Inr s'"
  shows "\<exists>k'. s' = update_fd h after_write (s\<lparr>sy_kernel := k'\<rparr>) \<and>
    got k' = got (sy_kernel s) \<and> sent k' = sent (sy_kernel s)"
proof -
  obtain r k' where call: "k_shutdown sys (sy_kernel s) (fd_num s h) SHUT_WR = (r, k')" by fastforce
  then have "got k' = got (sy_kernel s)" "sent k' = sent (sy_kernel s)"
    using loop_kernel_laws(2) [OF assms(1) call] by simp_all
  moreover have "SHUT_WR \<noteq> SHUT_RD" by (simp add: SHUT_WR_def SHUT_RD_def)
  ultimately show ?thesis
    using assms(2) by (auto simp: Socket_shutdown_def checked_def call obind_Inr_iff register_write_eq)
qed

lemma FileDescriptor_close_spec:
  assumes "stream_kernel sys got sent" "FileDescriptor_close sys h s = Inr s'"
  shows "\<exists>k'. s' = update_fd h (\<lambda>w. w\<lparr>fd_eof := True, fd_closed := True\<rparr>) (s\<lparr>sy_kernel := k'\<rparr>) \<and>
    got k' = got (sy_kernel s) \<and> sent k' = sent (sy_kernel s)"
  using assms(2) stream_kernel_quiet(1) [OF assms(1)]
  by (fastforce simp: FileDescriptor_close_def obind_Inr_iff split: prod.splits)

text \<open>Reading into a stream what fits, and writing from a stream, popping what was written.\<close>

lemma read_into_stream:
  assumes sys: "stream_kernel sys got sent" and b: "bs_wf b"
    and r: "FileDescriptor_read sys h (unat (ByteStream_remaining_capacity b)) s = Inr (data, s')"
  shows "\<exists>k'. s' = update_fd h (after_read (unat (ByteStream_remaining_capacity b)) data) (s\<lparr>sy_kernel := k'\<rparr>) \<and>
    got k' = (got (sy_kernel s))(fd_num s h := got (sy_kernel s) (fd_num s h) @ data) \<and>
    sent k' = sent (sy_kernel s) \<and> bs_wf (fst (ByteStream_write b data)) \<and>
    bs_buffer (fst (ByteStream_write b data)) = bs_buffer b @ data \<and>
    unat (snd (ByteStream_write b data)) = length data"
  using FileDescriptor_read_spec [OF sys r] b
  by (auto simp: stream_simps wf_intros bs_room_def)

lemma write_from_stream:
  assumes sys: "stream_kernel sys got sent" and b: "bs_wf b"
    and w: "FileDescriptor_write sys h (BufferViewList_of_string
      (ByteStream_peek_output b (min m (ByteStream_buffer_size b)))) False s = Inr (n, s')"
  shows "\<exists>k'. s' = update_fd h after_write (s\<lparr>sy_kernel := k'\<rparr>) \<and> got k' = got (sy_kernel s) \<and>
    sent k' = (sent (sy_kernel s))
      (fd_num s h := sent (sy_kernel s) (fd_num s h) @ take n (bs_buffer b)) \<and>
    bs_wf (ByteStream_pop_output b (word_of_nat n)) \<and> n \<le> length (bs_buffer b) \<and>
    bs_buffer (ByteStream_pop_output b (word_of_nat n)) = drop n (bs_buffer b)"
proof -
  let ?data = "ByteStream_peek_output b (min m (ByteStream_buffer_size b))"
  obtain k' where k': "s' = update_fd h after_write (s\<lparr>sy_kernel := k'\<rparr>)" "n \<le> length ?data"
    "got k' = got (sy_kernel s)"
    "sent k' = (sent (sy_kernel s))(fd_num s h := sent (sy_kernel s) (fd_num s h) @ take n ?data)"
    using FileDescriptor_write_some [OF sys w [unfolded BufferViewList_of_string_def]] by blast
  define j where "j = unat (min m (ByteStream_buffer_size b))"
  have data: "?data = take j (bs_buffer b)"
    by (simp add: ByteStream_peek_buffer [OF b] j_def)
  have "length (bs_buffer b) < 2 ^ 64"
    using bs_wf_length [OF b] unat_u64_less [of "bs_capacity b"] by simp
  then have n: "unat (word_of_nat n :: u64) = n" "n \<le> length (bs_buffer b)" "take n ?data = take n (bs_buffer b)"
    using k'(2) unfolding data by (simp_all add: unat_of_nat min_absorb1)
  then show ?thesis using k' b by (auto simp: stream_simps wf_intros)
qed

section \<open>Properties\<close>

lemma setup_quiet:
  "setup_pollfds rules s = Inr (rules', pfs, go, s') \<Longrightarrow>
     length pfs = length rules' \<and> list_all (\<lambda>p. pf_revents p = 0) pfs"
  by (induction rules arbitrary: s rules' pfs go s')
    (auto simp: obind_Inr_iff Let_def split: if_splits)

lemma handle_quiet:
  "length pfs = length rules \<Longrightarrow> list_all (\<lambda>p. pf_revents p = 0) pfs \<Longrightarrow>
     handle_events rules pfs s = Inr (rules, s)"
  by (induction rules pfs rule: list_induct2') auto

text \<open>
  C40: An error of \<^verbatim>\<open>poll\<close> is not reported: when the call fails for another reason than an
  interruption, and so leaves the events unset, \<^verbatim>\<open>wait_next_event\<close> returns success although no
  callback has run and the state is the one before the call; the documentation announces an exception.
\<close>

theorem wait_next_event_drops_poll_error:
  assumes "setup_pollfds rules s = Inr (rules', pfs, True, s')"
    and "k_poll sys (sy_kernel s') pfs t = ((- 1, e), pfs, k)" "e \<noteq> EINTR"
  shows "wait_next_event sys t rules s = Inr (Result_Success, rules', s'\<lparr>sy_kernel := k\<rparr>)"
  using assms setup_quiet [OF assms(1)]
  by (simp add: wait_next_event_def SystemCall_def handle_quiet)

text \<open>A kernel in which every call fails, and one rule that waits for input.\<close>

definition failing_poll_kernel :: "histories poll_kernel" where
  "failing_poll_kernel = \<lparr>
     k_read = (\<lambda>k fd n. ((- 1, 9), [], k)), k_writev = (\<lambda>k fd iov. ((- 1, 9), k)),
     k_close = (\<lambda>k fd. ((- 1, 9), k)), k_getfl = (\<lambda>k fd. ((- 1, 9), k)), k_setfl = (\<lambda>k fd fl. ((- 1, 9), k)),
     k_socket = (\<lambda>k d y. ((- 1, 9), k)), k_getsockopt = (\<lambda>k fd l p. ((- 1, 9), 0, 0, k)),
     k_setsockopt = (\<lambda>k fd l p v. ((- 1, 9), k)), k_getsockname = (\<lambda>k fd. ((- 1, 9), [], 0, k)),
     k_getpeername = (\<lambda>k fd. ((- 1, 9), [], 0, k)), k_bind = (\<lambda>k fd a n. ((- 1, 9), k)),
     k_connect = (\<lambda>k fd a n. ((- 1, 9), k)), k_shutdown = (\<lambda>k fd how. ((- 1, 9), k)),
     k_recvfrom = (\<lambda>k fd n. ((- 1, 9), [], [], 0, k)), k_sendmsg = (\<lambda>k fd a iov. ((- 1, 9), k)),
     k_listen = (\<lambda>k fd n. ((- 1, 9), k)), k_accept = (\<lambda>k fd. ((- 1, 9), k)),
     k_socketpair = (\<lambda>k d y. ((- 1, 9), 0, 0, k)),
     k_poll = (\<lambda>k pfs t. ((- 1, 12), pfs, k)), k_timestamp_ms = (\<lambda>k. (0, k))\<rparr>"

theorem wait_next_event_drops_poll_error_witness:
  "wait_next_event failing_poll_kernel 10 (add_rule 0 Direction_In Inr (\<lambda>_. True) Inr []) one_descriptor
     = Inr (Result_Success, add_rule 0 Direction_In Inr (\<lambda>_. True) Inr [], one_descriptor)"
proof -
  let ?pf = "\<lparr>pf_fd = 1, pf_events = POLLIN, pf_revents = 0\<rparr>"
  have "setup_pollfds (add_rule 0 Direction_In Inr (\<lambda>_. True) Inr []) one_descriptor
    = Inr (add_rule 0 Direction_In Inr (\<lambda>_. True) Inr [], [?pf], True, one_descriptor)"
    by (simp add: add_rule_def one_descriptor_def FileDescriptor_eof_def FileDescriptor_closed_def
        fd_num_def FileDescriptor_duplicate_def)
  from wait_next_event_drops_poll_error [OF this, of failing_poll_kernel 10 12 "sy_kernel one_descriptor"]
  show ?thesis by (simp add: failing_poll_kernel_def EINTR_def)
qed

end
