(* ===== verification/Stream_Copy.thy ===== *)
theory Stream_Copy
  imports Event_Loop Byte_Stream
begin

text \<open>
  The copy between the terminal and a socket, \<^verbatim>\<open>apps/bidirectional_stream_copy.cc\<close>: two byte
  streams, four rules of the event loop, and the loop that runs until nothing is left to do.
\<close>

section \<open>State and rules\<close>

record 'k copy_state = "'k system" +
  cp_outbound :: byte_stream
  cp_inbound :: byte_stream
  cp_outbound_shutdown :: bool
  cp_inbound_shutdown :: bool

definition max_copy_length :: u64 where
  "max_copy_length = 65536"

definition copy_buffer_size :: u64 where
  "copy_buffer_size = 1048576"

text \<open>Rule 1: from the standard input into the outbound stream.\<close>

definition copy_rule1_callback ::
  "('k, 'b) kernel_scheme \<Rightarrow> nat \<Rightarrow> 'k copy_state \<Rightarrow> 'k copy_state outcome" where
  "copy_rule1_callback sys input s =
     obind (FileDescriptor_read sys input (unat (ByteStream_remaining_capacity (cp_outbound s))) s) (\<lambda>(data, s).
       let s = s\<lparr>cp_outbound := fst (ByteStream_write (cp_outbound s) data)\<rparr>
       in Inr (if FileDescriptor_eof s input
               then s\<lparr>cp_outbound := ByteStream_end_input (cp_outbound s)\<rparr> else s))"

definition copy_rule1_interest :: "'k copy_state \<Rightarrow> bool" where
  "copy_rule1_interest s \<longleftrightarrow> \<not> ByteStream_error (cp_outbound s) \<and>
     ByteStream_remaining_capacity (cp_outbound s) > 0 \<and> \<not> ByteStream_error (cp_inbound s)"

definition copy_end_outbound :: "'k copy_state \<Rightarrow> 'k copy_state outcome" where
  "copy_end_outbound s = Inr (s\<lparr>cp_outbound := ByteStream_end_input (cp_outbound s)\<rparr>)"

text \<open>Rule 2: from the outbound stream into the socket.\<close>

definition copy_rule2_callback ::
  "('k, 'b) socket_kernel_scheme \<Rightarrow> nat \<Rightarrow> 'k copy_state \<Rightarrow> 'k copy_state outcome" where
  "copy_rule2_callback sys socket s =
     (let bytes_to_write = min max_copy_length (ByteStream_buffer_size (cp_outbound s))
      in obind (FileDescriptor_write sys socket
                  (BufferViewList_of_string (ByteStream_peek_output (cp_outbound s) bytes_to_write)) False s)
           (\<lambda>(bytes_written, s).
             let s = s\<lparr>cp_outbound := ByteStream_pop_output (cp_outbound s) (word_of_nat bytes_written)\<rparr>
             in if ByteStream_eof (cp_outbound s)
                then obind (Socket_shutdown sys socket SHUT_WR s) (\<lambda>s. Inr (s\<lparr>cp_outbound_shutdown := True\<rparr>))
                else Inr s))"

definition copy_rule2_interest :: "'k copy_state \<Rightarrow> bool" where
  "copy_rule2_interest s \<longleftrightarrow> \<not> ByteStream_buffer_empty (cp_outbound s) \<or>
     ByteStream_eof (cp_outbound s) \<and> \<not> cp_outbound_shutdown s"

text \<open>Rule 3: from the socket into the inbound stream.\<close>

definition copy_rule3_callback ::
  "('k, 'b) kernel_scheme \<Rightarrow> nat \<Rightarrow> 'k copy_state \<Rightarrow> 'k copy_state outcome" where
  "copy_rule3_callback sys socket s =
     obind (FileDescriptor_read sys socket (unat (ByteStream_remaining_capacity (cp_inbound s))) s) (\<lambda>(data, s).
       let s = s\<lparr>cp_inbound := fst (ByteStream_write (cp_inbound s) data)\<rparr>
       in Inr (if FileDescriptor_eof s socket
               then s\<lparr>cp_inbound := ByteStream_end_input (cp_inbound s)\<rparr> else s))"

definition copy_rule3_interest :: "'k copy_state \<Rightarrow> bool" where
  "copy_rule3_interest s \<longleftrightarrow> \<not> ByteStream_error (cp_inbound s) \<and>
     ByteStream_remaining_capacity (cp_inbound s) > 0 \<and> \<not> ByteStream_error (cp_outbound s)"

definition copy_end_inbound :: "'k copy_state \<Rightarrow> 'k copy_state outcome" where
  "copy_end_inbound s = Inr (s\<lparr>cp_inbound := ByteStream_end_input (cp_inbound s)\<rparr>)"

text \<open>Rule 4: from the inbound stream to the standard output.\<close>

definition copy_rule4_callback ::
  "('k, 'b) kernel_scheme \<Rightarrow> nat \<Rightarrow> 'k copy_state \<Rightarrow> 'k copy_state outcome" where
  "copy_rule4_callback sys output s =
     (let bytes_to_write = min max_copy_length (ByteStream_buffer_size (cp_inbound s))
      in obind (FileDescriptor_write sys output
                  (BufferViewList_of_string (ByteStream_peek_output (cp_inbound s) bytes_to_write)) False s)
           (\<lambda>(bytes_written, s).
             let s = s\<lparr>cp_inbound := ByteStream_pop_output (cp_inbound s) (word_of_nat bytes_written)\<rparr>
             in if ByteStream_eof (cp_inbound s)
                then obind (FileDescriptor_close sys output s) (\<lambda>s. Inr (s\<lparr>cp_inbound_shutdown := True\<rparr>))
                else Inr s))"

definition copy_rule4_interest :: "'k copy_state \<Rightarrow> bool" where
  "copy_rule4_interest s \<longleftrightarrow> \<not> ByteStream_buffer_empty (cp_inbound s) \<or>
     ByteStream_eof (cp_inbound s) \<and> \<not> cp_inbound_shutdown s"

definition copy_rules ::
  "('k, 'b) socket_kernel_scheme \<Rightarrow> nat \<Rightarrow> nat \<Rightarrow> nat \<Rightarrow> 'k copy_state rule list" where
  "copy_rules sys socket input output =
     add_rule output Direction_Out (copy_rule4_callback sys output) copy_rule4_interest copy_end_inbound
     (add_rule socket Direction_In (copy_rule3_callback sys socket) copy_rule3_interest copy_end_inbound
     (add_rule socket Direction_Out (copy_rule2_callback sys socket) copy_rule2_interest copy_end_outbound
     (add_rule input Direction_In (copy_rule1_callback sys input) copy_rule1_interest copy_end_outbound [])))"

text \<open>The loop may wait forever; then it has no result.\<close>

partial_function (option) copy_loop ::
  "('k, 'b) poll_kernel_scheme \<Rightarrow> 'k copy_state rule list \<Rightarrow> 'k copy_state \<Rightarrow>
     ('k copy_state rule list \<times> 'k copy_state) outcome option" where
  "copy_loop sys rules s =
     (case wait_next_event sys (- 1) rules s of
        Inl e \<Rightarrow> Some (Inl e)
      | Inr (res, rules, s) \<Rightarrow> if res = Result_Exit then Some (Inr (rules, s)) else copy_loop sys rules s)"

text \<open>
  The wrappers of the standard descriptors are destroyed with their last reference: the local
  variables go first, in the reverse order of their declaration, then the rules that are left.
\<close>

definition copy_cleanup ::
  "('k, 'b) kernel_scheme \<Rightarrow> nat \<Rightarrow> nat \<Rightarrow> 'k copy_state rule list \<Rightarrow> 'k copy_state \<Rightarrow> 'k copy_state" where
  "copy_cleanup sys input output rules s =
     fold (FDWrapper_destroy sys)
       (filter (\<lambda>h. h \<notin> set (map ru_fd rules)) [output, input]
        @ filter (\<lambda>h. h = input \<or> h = output) (map ru_fd rules)) s"

definition copy_prepare ::
  "('k, 'b) poll_kernel_scheme \<Rightarrow> nat \<Rightarrow> 'k system \<Rightarrow> (nat \<times> nat \<times> 'k copy_state) outcome" where
  "copy_prepare sys socket s =
     obind (FileDescriptor_new 0 s) (\<lambda>(input, s).
     obind (FileDescriptor_new 1 s) (\<lambda>(out, s).
     let s = system.extend s \<lparr>cp_outbound = ByteStream_new copy_buffer_size,
           cp_inbound = ByteStream_new copy_buffer_size, cp_outbound_shutdown = False,
           cp_inbound_shutdown = False\<rparr>
     in obind (FileDescriptor_set_blocking sys socket False s) (\<lambda>s.
        obind (FileDescriptor_set_blocking sys input False s) (\<lambda>s.
        obind (FileDescriptor_set_blocking sys out False s) (\<lambda>s. Inr (input, out, s))))))"

definition bidirectional_stream_copy ::
  "('k, 'b) poll_kernel_scheme \<Rightarrow> nat \<Rightarrow> 'k system \<Rightarrow> 'k copy_state outcome option" where
  "bidirectional_stream_copy sys socket s =
     (case copy_prepare sys socket s of
        Inl e \<Rightarrow> Some (Inl e)
      | Inr (input, out, s) \<Rightarrow>
          (case copy_loop sys (copy_rules sys socket input out) s of
             None \<Rightarrow> None
           | Some (Inl e) \<Rightarrow> Some (Inl e)
           | Some (Inr (rules, s)) \<Rightarrow> Some (Inr (copy_cleanup sys input out rules s))))"

section \<open>Nothing is lost or reordered\<close>

text \<open>
  Since the histories \<open>g0\<close> and \<open>t0\<close>, the bytes read from one descriptor are the bytes written to
  the other one followed by those in the buffer.
\<close>

definition relayed ::
  "('k \<Rightarrow> int \<Rightarrow> bytes) \<Rightarrow> ('k \<Rightarrow> int \<Rightarrow> bytes) \<Rightarrow> (int \<Rightarrow> bytes) \<Rightarrow> (int \<Rightarrow> bytes) \<Rightarrow> int \<Rightarrow> int \<Rightarrow> 'k \<Rightarrow> bytes \<Rightarrow> bool" where
  "relayed got sent g0 t0 a b k buffer \<longleftrightarrow> (\<exists>y. got k a = g0 a @ y @ buffer \<and> sent k b = t0 b @ y)"

definition copy_inv ::
  "('k, 'b) poll_kernel_scheme \<Rightarrow> ('k \<Rightarrow> int \<Rightarrow> bytes) \<Rightarrow> ('k \<Rightarrow> int \<Rightarrow> bytes) \<Rightarrow> (int \<Rightarrow> bytes) \<Rightarrow> (int \<Rightarrow> bytes) \<Rightarrow>
     nat \<Rightarrow> nat \<Rightarrow> nat \<Rightarrow> int \<Rightarrow> int \<Rightarrow> int \<Rightarrow> 'k copy_state \<Rightarrow> bool" where
  "copy_inv sys got sent g0 t0 socket input output fs fi fo s \<longleftrightarrow> loop_kernel sys got sent \<and>
     fd_num s socket = fs \<and> fd_num s input = fi \<and> fd_num s output = fo \<and> fi \<noteq> fs \<and> fo \<noteq> fs \<and>
     bs_wf (cp_outbound s) \<and> bs_wf (cp_inbound s) \<and>
     relayed got sent g0 t0 fi fs (sy_kernel s) (bs_buffer (cp_outbound s)) \<and>
     relayed got sent g0 t0 fs fo (sy_kernel s) (bs_buffer (cp_inbound s))"

lemma relayed_read:
  "relayed got sent g0 t0 a b k buffer \<Longrightarrow> got k' a = got k a @ d \<Longrightarrow> sent k' b = sent k b \<Longrightarrow>
     relayed got sent g0 t0 a b k' (buffer @ d)"
  by (force simp: relayed_def)

lemma relayed_write:
  assumes "relayed got sent g0 t0 a b k buffer" "got k' a = got k a" "sent k' b = sent k b @ take n buffer"
  shows "relayed got sent g0 t0 a b k' (drop n buffer)"
proof -
  obtain y where "got k a = g0 a @ y @ buffer" "sent k b = t0 b @ y"
    using assms(1) by (auto simp: relayed_def)
  then have "got k' a = g0 a @ (y @ take n buffer) @ drop n buffer" "sent k' b = t0 b @ y @ take n buffer"
    using assms(2,3) by simp_all
  then show ?thesis unfolding relayed_def by blast
qed

lemma relayed_same:
  "relayed got sent g0 t0 a b k buffer \<Longrightarrow> got k' a = got k a \<Longrightarrow> sent k' b = sent k b \<Longrightarrow>
     relayed got sent g0 t0 a b k' buffer"
  by (simp add: relayed_def)

lemma end_input_buffer [simp]: "bs_buffer (ByteStream_end_input b) = bs_buffer b"
  by (simp add: ByteStream_end_input_def)

text \<open>The four callbacks; each also serves its descriptor and renumbers none.\<close>

definition copy_step :: "('k copy_state \<Rightarrow> bool) \<Rightarrow> 'k copy_state \<Rightarrow> 'k copy_state \<Rightarrow> bool" where
  "copy_step P s s' \<longleftrightarrow> P s' \<and> (\<forall>h. fd_num s' h = fd_num s h)"

lemma copy_inv_sys: "copy_inv sys got sent g0 t0 socket input output fs fi fo s \<Longrightarrow> stream_kernel sys got sent"
  by (simp add: copy_inv_def loop_kernel_def)

lemma copy_inv_move:
  assumes inv: "copy_inv sys got sent g0 t0 socket input output fs fi fo s"
    and fds: "\<And>h. fd_num s' h = fd_num s h"
    and wf: "bs_wf (cp_outbound s')" "bs_wf (cp_inbound s')"
    and rel: "relayed got sent g0 t0 fi fs (sy_kernel s') (bs_buffer (cp_outbound s'))"
      "relayed got sent g0 t0 fs fo (sy_kernel s') (bs_buffer (cp_inbound s'))"
  shows "copy_step (copy_inv sys got sent g0 t0 socket input output fs fi fo) s s'"
  using assms by (simp add: copy_inv_def copy_step_def)

lemma rule1_keeps:
  assumes inv: "copy_inv sys got sent g0 t0 socket input output fs fi fo s"
    and call: "copy_rule1_callback sys input s = Inr s'"
  shows "copy_step (copy_inv sys got sent g0 t0 socket input output fs fi fo) s s' \<and>
    FileDescriptor_read_count s' input = FileDescriptor_read_count s input + 1"
proof -
  let ?limit = "unat (ByteStream_remaining_capacity (cp_outbound s))"
  obtain data s1 where r: "FileDescriptor_read sys input ?limit s = Inr (data, s1)"
    using call by (auto simp: copy_rule1_callback_def obind_Inr_iff)
  let ?b = "fst (ByteStream_write (cp_outbound s) data)"
  obtain k' where k': "s1 = update_fd input (after_read ?limit data) (s\<lparr>sy_kernel := k'\<rparr>)"
    "got k' = (got (sy_kernel s))(fi := got (sy_kernel s) fi @ data)" "sent k' = sent (sy_kernel s)"
    "bs_wf ?b" "bs_buffer ?b = bs_buffer (cp_outbound s) @ data"
    using read_into_stream [OF copy_inv_sys [OF inv] _ r] inv by (auto simp: copy_inv_def)
  define b where "b = (if FileDescriptor_eof s1 input then ByteStream_end_input ?b else ?b)"
  have b: "bs_wf b" "bs_buffer b = bs_buffer ?b" using k'(4) by (simp_all add: b_def wf_intros)
  have "cp_outbound s1 = cp_outbound s" by (simp add: k'(1) update_fd_def)
  then have s': "s' = s1\<lparr>cp_outbound := b\<rparr>"
    using call r by (simp add: copy_rule1_callback_def Let_def FileDescriptor_eof_def b_def split: if_splits)
  have "relayed got sent g0 t0 fi fs k' (bs_buffer (cp_outbound s) @ data)"
    by (rule relayed_read [of _ _ _ _ _ _ "sy_kernel s"]) (use inv k'(2,3) in \<open>simp_all add: copy_inv_def\<close>)
  moreover have "relayed got sent g0 t0 fs fo k' (bs_buffer (cp_inbound s))"
    by (rule relayed_same [of _ _ _ _ _ _ "sy_kernel s"]) (use inv k'(2,3) in \<open>auto simp: copy_inv_def\<close>)
  ultimately have "copy_step (copy_inv sys got sent g0 t0 socket input output fs fi fo) s s'"
    using inv k'(5) b
    by (intro copy_inv_move [OF inv]) (simp_all add: s' k'(1) update_fd_def fd_num_def after_read_def copy_inv_def)
  then show ?thesis by (simp add: s' k'(1) update_fd_def FileDescriptor_read_count_def after_read_def)
qed

lemma rule3_keeps:
  assumes inv: "copy_inv sys got sent g0 t0 socket input output fs fi fo s"
    and call: "copy_rule3_callback sys socket s = Inr s'"
  shows "copy_step (copy_inv sys got sent g0 t0 socket input output fs fi fo) s s' \<and>
    FileDescriptor_read_count s' socket = FileDescriptor_read_count s socket + 1"
proof -
  let ?limit = "unat (ByteStream_remaining_capacity (cp_inbound s))"
  obtain data s1 where r: "FileDescriptor_read sys socket ?limit s = Inr (data, s1)"
    using call by (auto simp: copy_rule3_callback_def obind_Inr_iff)
  let ?b = "fst (ByteStream_write (cp_inbound s) data)"
  obtain k' where k': "s1 = update_fd socket (after_read ?limit data) (s\<lparr>sy_kernel := k'\<rparr>)"
    "got k' = (got (sy_kernel s))(fs := got (sy_kernel s) fs @ data)" "sent k' = sent (sy_kernel s)"
    "bs_wf ?b" "bs_buffer ?b = bs_buffer (cp_inbound s) @ data"
    using read_into_stream [OF copy_inv_sys [OF inv] _ r] inv by (auto simp: copy_inv_def)
  define b where "b = (if FileDescriptor_eof s1 socket then ByteStream_end_input ?b else ?b)"
  have b: "bs_wf b" "bs_buffer b = bs_buffer ?b" using k'(4) by (simp_all add: b_def wf_intros)
  have "cp_inbound s1 = cp_inbound s" by (simp add: k'(1) update_fd_def)
  then have s': "s' = s1\<lparr>cp_inbound := b\<rparr>"
    using call r by (simp add: copy_rule3_callback_def Let_def FileDescriptor_eof_def b_def split: if_splits)
  have "relayed got sent g0 t0 fs fo k' (bs_buffer (cp_inbound s) @ data)"
    by (rule relayed_read [of _ _ _ _ _ _ "sy_kernel s"]) (use inv k'(2,3) in \<open>simp_all add: copy_inv_def\<close>)
  moreover have "relayed got sent g0 t0 fi fs k' (bs_buffer (cp_outbound s))"
    by (rule relayed_same [of _ _ _ _ _ _ "sy_kernel s"]) (use inv k'(2,3) in \<open>auto simp: copy_inv_def\<close>)
  ultimately have "copy_step (copy_inv sys got sent g0 t0 socket input output fs fi fo) s s'"
    using inv k'(5) b
    by (intro copy_inv_move [OF inv]) (simp_all add: s' k'(1) update_fd_def fd_num_def after_read_def copy_inv_def)
  then show ?thesis by (simp add: s' k'(1) update_fd_def FileDescriptor_read_count_def after_read_def)
qed

lemma rule2_keeps:
  assumes inv: "copy_inv sys got sent g0 t0 socket input output fs fi fo s"
    and call: "copy_rule2_callback sys socket s = Inr s'"
  shows "copy_step (copy_inv sys got sent g0 t0 socket input output fs fi fo) s s' \<and>
    FileDescriptor_write_count s' socket \<noteq> FileDescriptor_write_count s socket"
proof -
  let ?data = "ByteStream_peek_output (cp_outbound s) (min max_copy_length (ByteStream_buffer_size (cp_outbound s)))"
  obtain n s1 where w: "FileDescriptor_write sys socket (BufferViewList_of_string ?data) False s = Inr (n, s1)"
    using call by (auto simp: copy_rule2_callback_def Let_def obind_Inr_iff)
  let ?b = "ByteStream_pop_output (cp_outbound s) (word_of_nat n)"
  obtain k1 where k1: "s1 = update_fd socket after_write (s\<lparr>sy_kernel := k1\<rparr>)"
    "got k1 = got (sy_kernel s)" "sent k1 = (sent (sy_kernel s))(fs := sent (sy_kernel s) fs @ take n (bs_buffer (cp_outbound s)))"
    "bs_wf ?b" "bs_buffer ?b = drop n (bs_buffer (cp_outbound s))"
    using write_from_stream [OF copy_inv_sys [OF inv] _ w] inv by (auto simp: copy_inv_def)
  have "cp_outbound s1 = cp_outbound s" by (simp add: k1(1) update_fd_def)
  then have "(if ByteStream_eof ?b
      then obind (Socket_shutdown sys socket SHUT_WR (s1\<lparr>cp_outbound := ?b\<rparr>)) (\<lambda>s. Inr (s\<lparr>cp_outbound_shutdown := True\<rparr>))
      else Inr (s1\<lparr>cp_outbound := ?b\<rparr>)) = Inr s'"
    using call w by (simp add: copy_rule2_callback_def Let_def cong: if_cong)
  then obtain k' where k': "sy_kernel s' = k'" "got k' = got k1" "sent k' = sent k1"
    "cp_outbound s' = ?b" "cp_inbound s' = cp_inbound s" "\<And>h. fd_num s' h = fd_num s h"
    "FileDescriptor_write_count s' socket = FileDescriptor_write_count s1 socket + (if ByteStream_eof ?b then 1 else 0)"
    using Socket_shutdown_spec [of sys got sent socket "s1\<lparr>cp_outbound := ?b\<rparr>"] inv
    by (auto simp: copy_inv_def obind_Inr_iff k1(1) update_fd_def fd_num_def after_write_def
        FileDescriptor_write_count_def split: if_splits)
  have "relayed got sent g0 t0 fi fs k' (drop n (bs_buffer (cp_outbound s)))"
    by (rule relayed_write [of _ _ _ _ _ _ "sy_kernel s"]) (use inv k1 k'(2,3) in \<open>simp_all add: copy_inv_def\<close>)
  moreover have "relayed got sent g0 t0 fs fo k' (bs_buffer (cp_inbound s))"
    by (rule relayed_same [of _ _ _ _ _ _ "sy_kernel s"]) (use inv k1 k'(2,3) in \<open>auto simp: copy_inv_def\<close>)
  ultimately have "copy_step (copy_inv sys got sent g0 t0 socket input output fs fi fo) s s'"
    using inv k1(4,5) k'(1,4-6) by (intro copy_inv_move [OF inv]) (simp_all add: copy_inv_def)
  then show ?thesis
    using k'(7) by (simp add: k1(1) update_fd_def FileDescriptor_write_count_def after_write_def)
qed

lemma rule4_keeps:
  assumes inv: "copy_inv sys got sent g0 t0 socket input output fs fi fo s"
    and call: "copy_rule4_callback sys output s = Inr s'"
  shows "copy_step (copy_inv sys got sent g0 t0 socket input output fs fi fo) s s' \<and>
    FileDescriptor_write_count s' output = FileDescriptor_write_count s output + 1"
proof -
  let ?data = "ByteStream_peek_output (cp_inbound s) (min max_copy_length (ByteStream_buffer_size (cp_inbound s)))"
  obtain n s1 where w: "FileDescriptor_write sys output (BufferViewList_of_string ?data) False s = Inr (n, s1)"
    using call by (auto simp: copy_rule4_callback_def Let_def obind_Inr_iff)
  let ?b = "ByteStream_pop_output (cp_inbound s) (word_of_nat n)"
  obtain k1 where k1: "s1 = update_fd output after_write (s\<lparr>sy_kernel := k1\<rparr>)"
    "got k1 = got (sy_kernel s)" "sent k1 = (sent (sy_kernel s))(fo := sent (sy_kernel s) fo @ take n (bs_buffer (cp_inbound s)))"
    "bs_wf ?b" "bs_buffer ?b = drop n (bs_buffer (cp_inbound s))"
    using write_from_stream [OF copy_inv_sys [OF inv] _ w] inv by (auto simp: copy_inv_def)
  have "cp_inbound s1 = cp_inbound s" by (simp add: k1(1) update_fd_def)
  then have "(if ByteStream_eof ?b
      then obind (FileDescriptor_close sys output (s1\<lparr>cp_inbound := ?b\<rparr>)) (\<lambda>s. Inr (s\<lparr>cp_inbound_shutdown := True\<rparr>))
      else Inr (s1\<lparr>cp_inbound := ?b\<rparr>)) = Inr s'"
    using call w by (simp add: copy_rule4_callback_def Let_def cong: if_cong)
  then obtain k' where k': "sy_kernel s' = k'" "got k' = got k1" "sent k' = sent k1"
    "cp_inbound s' = ?b" "cp_outbound s' = cp_outbound s" "\<And>h. fd_num s' h = fd_num s h"
    "FileDescriptor_write_count s' output = FileDescriptor_write_count s1 output"
    using FileDescriptor_close_spec [OF copy_inv_sys [OF inv],
        where h = "output" and s = "s1\<lparr>cp_inbound := ?b\<rparr>"] inv
    by (auto simp: copy_inv_def obind_Inr_iff k1(1) update_fd_def fd_num_def after_write_def
        FileDescriptor_write_count_def split: if_splits)
  have "relayed got sent g0 t0 fs fo k' (drop n (bs_buffer (cp_inbound s)))"
    by (rule relayed_write [of _ _ _ _ _ _ "sy_kernel s"]) (use inv k1 k'(2,3) in \<open>simp_all add: copy_inv_def\<close>)
  moreover have "relayed got sent g0 t0 fi fs k' (bs_buffer (cp_outbound s))"
    by (rule relayed_same [of _ _ _ _ _ _ "sy_kernel s"]) (use inv k1 k'(2,3) in \<open>auto simp: copy_inv_def\<close>)
  ultimately have "copy_step (copy_inv sys got sent g0 t0 socket input output fs fi fo) s s'"
    using inv k1(4,5) k'(1,4-6) by (intro copy_inv_move [OF inv]) (simp_all add: copy_inv_def)
  then show ?thesis
    using k'(7) by (simp add: k1(1) update_fd_def FileDescriptor_write_count_def after_write_def)
qed

lemma copy_cancel_keeps:
  assumes "copy_inv sys got sent g0 t0 socket input output fs fi fo s"
    and "copy_end_outbound s = Inr s' \<or> copy_end_inbound s = Inr s'"
  shows "copy_step (copy_inv sys got sent g0 t0 socket input output fs fi fo) s s'"
  using assms
  by (auto simp: copy_end_outbound_def copy_end_inbound_def copy_step_def copy_inv_def fd_num_def wf_intros)

lemma copy_polled:
  assumes "copy_inv sys got sent g0 t0 socket input output fs fi fo s"
    and "k_poll sys (sy_kernel s) pfs t = (x, pfs', k)"
  shows "copy_inv sys got sent g0 t0 socket input output fs fi fo (s\<lparr>sy_kernel := k\<rparr>)"
proof -
  have "loop_kernel sys got sent" using assms(1) by (simp add: copy_inv_def)
  from loop_kernel_laws(6) [OF this assms(2)]
  have "got k = got (sy_kernel s)" "sent k = sent (sy_kernel s)" by simp_all
  then show ?thesis using assms(1) by (simp add: copy_inv_def relayed_def)
qed

lemma copy_rules_cases:
  assumes "r \<in> set (copy_rules sys socket input output)"
  shows "r = \<lparr>ru_fd = input, ru_direction = Direction_In, ru_callback = copy_rule1_callback sys input,
        ru_interest = copy_rule1_interest, ru_cancel = copy_end_outbound\<rparr> \<or>
    r = \<lparr>ru_fd = socket, ru_direction = Direction_Out, ru_callback = copy_rule2_callback sys socket,
        ru_interest = copy_rule2_interest, ru_cancel = copy_end_outbound\<rparr> \<or>
    r = \<lparr>ru_fd = socket, ru_direction = Direction_In, ru_callback = copy_rule3_callback sys socket,
        ru_interest = copy_rule3_interest, ru_cancel = copy_end_inbound\<rparr> \<or>
    r = \<lparr>ru_fd = output, ru_direction = Direction_Out, ru_callback = copy_rule4_callback sys output,
        ru_interest = copy_rule4_interest, ru_cancel = copy_end_inbound\<rparr>"
  using assms by (auto simp: copy_rules_def add_rule_def FileDescriptor_duplicate_def)

lemma copy_callback_keeps:
  assumes "copy_inv sys got sent g0 t0 socket input output fs fi fo s"
    and "r \<in> set (copy_rules sys socket input output)" "ru_callback r s = Inr s'"
  shows "copy_step (copy_inv sys got sent g0 t0 socket input output fs fi fo) s s' \<and>
    Rule_service_count s' r \<noteq> Rule_service_count s r"
  using copy_rules_cases [OF assms(2)] assms(3) rule1_keeps [OF assms(1)] rule2_keeps [OF assms(1)]
    rule3_keeps [OF assms(1)] rule4_keeps [OF assms(1)]
  by (auto simp: Rule_service_count_def)

lemma copy_not_busy:
  assumes "r \<in> set (copy_rules sys socket input output)"
  shows "ru_callback r s \<noteq> Inl busy_wait \<and> ru_cancel r s \<noteq> Inl busy_wait"
  using copy_rules_cases [OF assms]
  by (auto simp: not_busy copy_rule1_callback_def copy_rule2_callback_def copy_rule3_callback_def
      copy_rule4_callback_def copy_end_outbound_def copy_end_inbound_def obind_def Let_def
      split: sum.splits if_splits)

interpretation copy: loop_rules sys "copy_inv sys got sent g0 t0 socket input output fs fi fo"
    "\<lambda>r. r \<in> set (copy_rules sys socket input output)" "\<lambda>r s. True" "{busy_wait}"
  for sys :: "('k, 'b) poll_kernel_scheme" and got sent g0 t0 socket input "output" fs fi fo
proof (unfold_locales, goal_cases)
  case (1 s pfs t x pfs' k)
  then show ?case by (rule copy_polled)
next
  case (4 s r s')
  then show ?case using copy_callback_keeps [OF 4] unfolding copy_step_def by blast
next
  case (5 s r s')
  then show ?case
    using copy_rules_cases [OF 5(2)] copy_cancel_keeps [OF 5(1)] unfolding copy_step_def by auto
next
  case (6 s r r' s')
  then show ?case
    using copy_rules_cases [OF 6(2)] copy_callback_keeps [OF 6(1,2)] copy_cancel_keeps [OF 6(1)]
    unfolding copy_step_def by auto
next
  case (8 s r e)
  then show ?case using copy_not_busy by blast
qed (auto simp: busy_wait_def polled_fault_def)

section \<open>Properties\<close>

lemma loop_reach_wait_first:
  assumes "wait_next_event sys t rules s = Inr (res, rules1, s1)" "loop_reach sys t rules1 s1 rules2 s2"
  shows "loop_reach sys t rules s rules2 s2"
  using assms(2)
proof (induction rule: loop_reach.induct)
  case start
  show ?case using loop_reach.wait [OF loop_reach.start assms(1)] .
qed (rule loop_reach.wait)

lemma copy_loop_reach:
  assumes "copy_loop sys rules s = Some res"
  shows "\<exists>rules1 s1. loop_reach sys (- 1) rules s rules1 s1 \<and>
    (case res of Inl e \<Rightarrow> wait_next_event sys (- 1) rules1 s1 = Inl e
     | Inr (rules', s') \<Rightarrow> rules' = rules1 \<and> s' = s1)"
  using assms
proof (rule copy_loop.raw_induct [rotated])
  fix f :: "('a, 'b) poll_kernel_scheme \<Rightarrow> 'a copy_state rule list \<Rightarrow> 'a copy_state \<Rightarrow>
    ('a copy_state rule list \<times> 'a copy_state) outcome option" and sys rules s res
  let ?P = "\<lambda>sys rules s res. \<exists>rules1 s1. loop_reach sys (- 1) rules s rules1 s1 \<and>
    (case res of Inl e \<Rightarrow> wait_next_event sys (- 1) rules1 s1 = Inl e
     | Inr (rules', s') \<Rightarrow> rules' = rules1 \<and> s' = s1)"
  assume IH: "\<And>sys rules s res. f sys rules s = Some res \<Longrightarrow> ?P sys rules s res"
    and step: "(case wait_next_event sys (- 1) rules s of Inl e \<Rightarrow> Some (Inl e)
      | Inr (res, rules, s) \<Rightarrow> if res = Result_Exit then Some (Inr (rules, s)) else f sys rules s) = Some res"
  show "?P sys rules s res"
  proof (cases "wait_next_event sys (- 1) rules s")
    case (Inl e)
    then show ?thesis
      using step by (intro exI [of _ rules] exI [of _ s]) (auto simp: loop_reach.start)
  next
    case (Inr x)
    obtain r rules1 s1 where "x = (r, rules1, s1)" by (cases x)
    with Inr step show ?thesis
      using loop_reach_wait_first [of sys "- 1" rules s r rules1 s1] loop_reach.start IH [of sys rules1 s1 res]
      by (auto split: if_splits) blast+
  qed
qed

lemma destroy_quiet:
  assumes "stream_kernel sys got sent"
  shows "got (sy_kernel (FDWrapper_destroy sys h s)) = got (sy_kernel s) \<and>
    sent (sy_kernel (FDWrapper_destroy sys h s)) = sent (sy_kernel s)"
proof -
  obtain r k where call: "k_close sys (sy_kernel s) (fd_num s h) = (r, k)" by fastforce
  from stream_kernel_quiet(1) [OF assms this] show ?thesis
    by (auto simp: FDWrapper_destroy_def FileDescriptor_close_def call obind_def split: sum.splits)
qed

lemma set_blocking_quiet:
  assumes "stream_kernel sys got sent" "FileDescriptor_set_blocking sys h b s = Inr s'"
  shows "\<exists>k. s' = s\<lparr>sy_kernel := k\<rparr> \<and> got k = got (sy_kernel s) \<and> sent k = sent (sy_kernel s)"
proof -
  obtain r k where get: "k_getfl sys (sy_kernel s) (fd_num s h) = (r, k)" by fastforce
  obtain fl where fl: "(case k_setfl sys k (fd_num s h) fl of
      (r, k) \<Rightarrow> obind (SystemCall ''fcntl'' r 0) (\<lambda>_. Inr (s\<lparr>sy_kernel := k\<rparr>))) = Inr s'"
    using assms(2) unfolding FileDescriptor_set_blocking_def get Let_def prod.case obind_Inr_iff by blast
  obtain r' k' where put: "k_setfl sys k (fd_num s h) fl = (r', k')" by fastforce
  then show ?thesis
    using fl stream_kernel_quiet(2) [OF assms(1) get] stream_kernel_quiet(3) [OF assms(1) put]
    by (auto simp: obind_Inr_iff)
qed

lemma cleanup_quiet:
  assumes "stream_kernel sys got sent"
  shows "got (sy_kernel (copy_cleanup sys input output rules s)) = got (sy_kernel s) \<and>
    sent (sy_kernel (copy_cleanup sys input output rules s)) = sent (sy_kernel s)"
proof -
  have "got (sy_kernel (fold (FDWrapper_destroy sys) hs t)) = got (sy_kernel t) \<and>
    sent (sy_kernel (fold (FDWrapper_destroy sys) hs t)) = sent (sy_kernel t)" for hs and t :: "'a copy_state"
    by (induction hs arbitrary: t) (simp_all add: destroy_quiet [OF assms])
  then show ?thesis by (simp add: copy_cleanup_def)
qed

text \<open>What the loop starts with.\<close>

definition copy_start :: "'k copy_state \<Rightarrow> bool" where
  "copy_start s \<longleftrightarrow> cp_outbound s = ByteStream_new copy_buffer_size \<and>
     cp_inbound s = ByteStream_new copy_buffer_size"

lemma copy_start_inv:
  assumes "loop_kernel sys got sent" "copy_start s" "fd_num s input \<noteq> fd_num s socket" "fd_num s output \<noteq> fd_num s socket"
  shows "copy_inv sys got sent (got (sy_kernel s)) (sent (sy_kernel s)) socket input output
    (fd_num s socket) (fd_num s input) (fd_num s output) s"
proof -
  have "bs_buffer (ByteStream_new copy_buffer_size) = []" by (simp add: ByteStream_new_def)
  with assms show ?thesis by (auto simp: copy_inv_def copy_start_def relayed_def wf_intros)
qed

lemma copy_loop_faithful:
  assumes sys: "loop_kernel sys got sent" and start: "copy_start s"
    and fds: "fd_num s input \<noteq> fd_num s socket" "fd_num s output \<noteq> fd_num s socket"
    and run: "copy_loop sys (copy_rules sys socket input output) s = Some res"
  shows "res \<noteq> Inl busy_wait \<and> (\<forall>rules' s'. res = Inr (rules', s') \<longrightarrow>
    copy_inv sys got sent (got (sy_kernel s)) (sent (sy_kernel s)) socket input output
      (fd_num s socket) (fd_num s input) (fd_num s output) s')"
proof -
  obtain rules1 s1 where reach: "loop_reach sys (- 1) (copy_rules sys socket input output) s rules1 s1"
    and res: "case res of Inl e \<Rightarrow> wait_next_event sys (- 1) rules1 s1 = Inl e
      | Inr (rules', s') \<Rightarrow> rules' = rules1 \<and> s' = s1"
    using copy_loop_reach [OF run] by blast
  have "list_all (\<lambda>r. r \<in> set (copy_rules sys socket input output)) (copy_rules sys socket input output)"
    by (simp add: list_all_iff)
  from copy.reach_keeps [OF reach copy_start_inv [OF sys start fds] this] res
  show ?thesis by (auto split: sum.splits)
qed

lemma copy_prepare_spec:
  assumes sys: "stream_kernel sys got sent" and socket: "socket < sy_next s" "1 < fd_num s socket"
    and ok: "copy_prepare sys socket s = Inr (input, out, s')"
  shows "copy_start s' \<and> fd_num s' socket = fd_num s socket \<and> fd_num s' input = 0 \<and> fd_num s' out = 1 \<and>
    got (sy_kernel s') = got (sy_kernel s) \<and> sent (sy_kernel s') = sent (sy_kernel s)"
proof -
  define s1 where "s1 = snd (projr (FileDescriptor_new 1 (snd (projr (FileDescriptor_new 0 s)))))"
  define s2 where "s2 = system.extend s1 \<lparr>cp_outbound = ByteStream_new copy_buffer_size,
    cp_inbound = ByteStream_new copy_buffer_size, cp_outbound_shutdown = False, cp_inbound_shutdown = False\<rparr>"
  obtain t u where t: "FileDescriptor_set_blocking sys socket False s2 = Inr t"
    "FileDescriptor_set_blocking sys input False t = Inr u" "FileDescriptor_set_blocking sys out False u = Inr s'"
    and io: "input = sy_next s" "out = Suc (sy_next s)"
    using ok by (auto simp: copy_prepare_def FileDescriptor_new_def FDWrapper_new_def Let_def obind_Inr_iff
        s2_def s1_def)
  have s2: "copy_start s2" "fd_num s2 socket = fd_num s socket" "fd_num s2 input = 0" "fd_num s2 out = 1"
    "sy_kernel s2 = sy_kernel s"
    using socket(1) by (simp_all add: s2_def s1_def FileDescriptor_new_def FDWrapper_new_def copy_start_def
        fd_num_def system.defs io)
  obtain k1 where k1: "t = s2\<lparr>sy_kernel := k1\<rparr>" "got k1 = got (sy_kernel s2)" "sent k1 = sent (sy_kernel s2)"
    using set_blocking_quiet [OF sys t(1)] by blast
  obtain k2 where k2: "u = t\<lparr>sy_kernel := k2\<rparr>" "got k2 = got (sy_kernel t)" "sent k2 = sent (sy_kernel t)"
    using set_blocking_quiet [OF sys t(2)] by blast
  obtain k3 where "s' = u\<lparr>sy_kernel := k3\<rparr>" "got k3 = got (sy_kernel u)" "sent k3 = sent (sy_kernel u)"
    using set_blocking_quiet [OF sys t(3)] by blast
  with k1 k2 s2 show ?thesis by (simp add: copy_start_def)
qed

lemma copy_prepare_not_busy: "copy_prepare sys socket s \<noteq> Inl busy_wait"
proof -
  have "FileDescriptor_set_blocking sys h b t \<noteq> Inl busy_wait" for h b and t :: "'a copy_state"
    by (auto simp: FileDescriptor_set_blocking_def SystemCall_def busy_wait_def obind_def Let_def
        split: prod.splits sum.splits if_splits)
  then show ?thesis
    by (auto simp: copy_prepare_def FileDescriptor_new_def FDWrapper_new_def obind_def Let_def
        split: sum.splits)
qed


text \<open>
  A terminal on which one byte can be read, and whose waiting is interrupted by a signal after the
  descriptors were set up; the socket of the program.
\<close>

definition terminal_kernel :: "histories poll_kernel" where
  "terminal_kernel = \<lparr>
     k_read = (\<lambda>(g, t) fd n. if fd = 0 \<and> g 0 = [] \<and> n > 0 then ((1, 0), [7], (g(0 := [7]), t))
       else ((0, 0), [], (g(fd := g fd @ []), t))),
     k_writev = (\<lambda>(g, t) fd iov. let n = min 2 (length (iov_bytes iov)) in
       ((int n, 0), (g, t(fd := t fd @ take n (iov_bytes iov))))),
     k_close = (\<lambda>k fd. ((0, 0), k)), k_getfl = (\<lambda>k fd. ((0, 0), k)), k_setfl = (\<lambda>k fd fl. ((0, 0), k)),
     k_socket = (\<lambda>k d y. ((- 1, 9), k)), k_getsockopt = (\<lambda>k fd l p. ((- 1, 9), 0, 0, k)),
     k_setsockopt = (\<lambda>k fd l p v. ((- 1, 9), k)), k_getsockname = (\<lambda>k fd. ((- 1, 9), [], 0, k)),
     k_getpeername = (\<lambda>k fd. ((- 1, 9), [], 0, k)), k_bind = (\<lambda>k fd a n. ((- 1, 9), k)),
     k_connect = (\<lambda>k fd a n. ((- 1, 9), k)), k_shutdown = (\<lambda>k fd how. ((0, 0), k)),
     k_recvfrom = (\<lambda>k fd n. ((- 1, 9), [], [], 0, k)), k_sendmsg = (\<lambda>k fd a iov. ((- 1, 9), k)),
     k_listen = (\<lambda>k fd n. ((- 1, 9), k)), k_accept = (\<lambda>k fd. ((- 1, 9), k)),
     k_socketpair = (\<lambda>k d y. ((- 1, 9), 0, 0, k)),
     k_poll = (\<lambda>k pfs t. ((- 1, EINTR), pfs, k)),
     k_timestamp_ms = (\<lambda>k. (0, k))\<rparr>"

lemma terminal_kernel_ok: "loop_kernel terminal_kernel fst snd"
  by (auto simp: loop_kernel_def stream_kernel_def terminal_kernel_def Let_def split: if_splits)

definition socket_only :: "histories system" where
  "socket_only = \<lparr>sy_kernel = (\<lambda>_. [], \<lambda>_. []),
     sy_fds = (\<lambda>_. \<lparr>fd_fd = 3, fd_eof = False, fd_closed = False, fd_read_count = 0, fd_write_count = 0\<rparr>),
     sy_next = 1\<rparr>"

lemma terminal_prepare:
  "copy_prepare terminal_kernel 0 socket_only = Inr (1, 2, system.extend
     (socket_only\<lparr>sy_next := 3, sy_fds := (sy_fds socket_only)
       (1 := \<lparr>fd_fd = 0, fd_eof = False, fd_closed = False, fd_read_count = 0, fd_write_count = 0\<rparr>,
        2 := \<lparr>fd_fd = 1, fd_eof = False, fd_closed = False, fd_read_count = 0, fd_write_count = 0\<rparr>)\<rparr>)
     \<lparr>cp_outbound = ByteStream_new copy_buffer_size, cp_inbound = ByteStream_new copy_buffer_size,
      cp_outbound_shutdown = False, cp_inbound_shutdown = False\<rparr>)"
  by (simp add: copy_prepare_def FileDescriptor_new_def FDWrapper_new_def socket_only_def system.defs
      FileDescriptor_set_blocking_def terminal_kernel_def fd_num_def SystemCall_def numeral_2_eq_2 numeral_3_eq_3)

lemma terminal_returns: "\<exists>s'. bidirectional_stream_copy terminal_kernel 0 socket_only = Some (Inr s')"
proof -
  have "EINTR \<noteq> 0" "k_poll terminal_kernel k pfs t = ((- 1, EINTR), pfs, k)" for k pfs t
    by (simp_all add: EINTR_def terminal_kernel_def)
  then show ?thesis
    unfolding bidirectional_stream_copy_def terminal_prepare
    by (simp add: system.defs copy_loop.simps copy_rules_def add_rule_def FileDescriptor_duplicate_def
        wait_next_event_def socket_only_def FileDescriptor_eof_def FileDescriptor_closed_def
        copy_rule1_interest_def ByteStream_accessor_defs ByteStream_new_def copy_buffer_size_def
        SystemCall_def Let_def)
qed


end
