(* ===== verification/Sponge_Socket.thy ===== *)
theory Sponge_Socket
  imports Event_Loop Datagram_Adapters Tcp_Connection
begin

text \<open>
  The socket that runs a connection, \<^verbatim>\<open>libsponge/tcp_helpers/tcp_sponge_socket.{hh,cc}\<close>: the four
  rules that join the connection, the datagram adapter and the owner's end of a local stream socket,
  the loop of the connection thread, and the operations of the owner.  The messages on the standard
  error stream are left out, but the texts of addresses in them are computed, as that may throw.
\<close>

section \<open>State\<close>

text \<open>
  The socket itself is the owner's end of the pair; \<open>sg_tcp_thread\<close> tells whether the thread can be
  joined.
\<close>

record 'k sponge = "'k system" +
  sg_owner :: nat
  sg_thread_data :: nat
  sg_adapter_fd :: nat
  sg_adapter :: fd_adapter
  sg_tcp :: "tcp_connection option"
  sg_tcp_thread :: bool
  sg_abort :: bool
  sg_inbound_shutdown :: bool
  sg_outbound_shutdown :: bool
  sg_fully_acked :: bool

text \<open>Access to the connection, which faults when there is none.\<close>

definition with_tcp :: "'k sponge \<Rightarrow> (tcp_connection \<Rightarrow> 'r outcome) \<Rightarrow> 'r outcome" where
  "with_tcp s f = (case sg_tcp s of None \<Rightarrow> Inl Bad_optional_access | Some c \<Rightarrow> f c)"

section \<open>Adapters over descriptors\<close>

text \<open>The reading and writing operations of an adapter, which is a parameter of the socket class.\<close>

record 'k adapter_ops =
  ao_read :: "'k sponge \<Rightarrow> (tcp_segment option \<times> 'k sponge) outcome"
  ao_write :: "tcp_segment \<Rightarrow> 'k sponge \<Rightarrow> 'k sponge outcome"

definition read_limit :: nat where
  "read_limit = 2 ^ 64 - 1"

definition tun_ops :: "('k, 'b) kernel_scheme \<Rightarrow> libc \<Rightarrow> 'k adapter_ops" where
  "tun_ops sys lc = \<lparr>
     ao_read = (\<lambda>s. obind (FileDescriptor_read sys (sg_adapter_fd s) read_limit s) (\<lambda>(packet, s).
       obind (TunFdAdapter_read lc (sg_adapter s) packet) (\<lambda>(ad, seg). Inr (seg, s\<lparr>sg_adapter := ad\<rparr>)))),
     ao_write = (\<lambda>seg s. obind (wrap_tcp_in_ip lc (sg_adapter s) seg) (\<lambda>(_, ip_dgram).
       obind (IPv4Datagram_serialize ip_dgram) (\<lambda>bl.
       obind (FileDescriptor_write sys (sg_adapter_fd s) (BufferViewList_of_BufferList bl) True s)
         (\<lambda>(_, s). Inr s))))\<rparr>"

definition udp_mtu :: nat where
  "udp_mtu = 65536"

definition udp_ops :: "('k, 'b) socket_kernel_scheme \<Rightarrow> libc \<Rightarrow> 'k adapter_ops" where
  "udp_ops sys lc = \<lparr>
     ao_read = (\<lambda>s. obind (UDPSocket_recv sys (sg_adapter_fd s) udp_mtu s) (\<lambda>((source, payload), s).
       obind (UDPSocketAdapter_read (sg_adapter s) source payload) (\<lambda>(ad, seg). Inr (seg, s\<lparr>sg_adapter := ad\<rparr>)))),
     ao_write = (\<lambda>seg s. let cfg = FdAdapter_config (sg_adapter s)
       in obind (Address_port lc (fa_source cfg)) (\<lambda>sport.
          obind (Address_port lc (fa_destination cfg)) (\<lambda>dport.
          let seg = seg\<lparr>ts_header := (ts_header seg)\<lparr>th_sport := sport, th_dport := dport\<rparr>\<rparr>
          in obind (TCPSegment_serialize seg 0) (\<lambda>bl.
             UDPSocket_sendto sys (sg_adapter_fd s) (fa_destination cfg) (BufferViewList_of_BufferList bl) s))))\<rparr>"

text \<open>The random numbers of the lossy adapter come from \<open>rnd\<close>, and only when there is loss.\<close>

definition draw_loss :: "('k \<Rightarrow> u32 \<times> 'k) \<Rightarrow> bool \<Rightarrow> 'k sponge \<Rightarrow> bool \<times> 'k sponge" where
  "draw_loss rnd uplink s =
     (let cfg = FdAdapter_config (sg_adapter s)
      in if (if uplink then fa_loss_rate_up cfg else fa_loss_rate_dn cfg) = 0 then (False, s)
         else case rnd (sy_kernel s) of (r, k) \<Rightarrow> (should_drop cfg uplink r, s\<lparr>sy_kernel := k\<rparr>))"

definition lossy_ops :: "('k \<Rightarrow> u32 \<times> 'k) \<Rightarrow> 'k adapter_ops \<Rightarrow> 'k adapter_ops" where
  "lossy_ops rnd ops = \<lparr>
     ao_read = (\<lambda>s. obind (ao_read ops s) (\<lambda>(ret, s).
       case draw_loss rnd False s of (dropped, s) \<Rightarrow> Inr (if dropped then None else ret, s))),
     ao_write = (\<lambda>seg s. case draw_loss rnd True s of (dropped, s) \<Rightarrow>
       if dropped then Inr s else ao_write ops seg s)\<rparr>"

section \<open>The rules of the event loop\<close>

definition destination_text :: "libc \<Rightarrow> 'k sponge \<Rightarrow> string outcome" where
  "destination_text lc s = Address_to_string lc (fa_destination (FdAdapter_config (sg_adapter s)))"

text \<open>Rule 1: from the adapter into the connection.\<close>

definition socket_rule1_callback ::
  "libc \<Rightarrow> 'k adapter_ops \<Rightarrow> WrappingInt32 \<Rightarrow> 'k sponge \<Rightarrow> 'k sponge outcome" where
  "socket_rule1_callback lc ops stale s =
     obind (ao_read ops s) (\<lambda>(seg, s).
     obind (case seg of
              None \<Rightarrow> Inr s
            | Some seg \<Rightarrow> with_tcp s (\<lambda>c.
                obind (TCPConnection_segment_received stale c seg) (\<lambda>c. Inr (s\<lparr>sg_tcp := Some c\<rparr>)))) (\<lambda>s.
     if FileDescriptor_eof s (sg_thread_data s) then
       with_tcp s (\<lambda>c.
         if TCPConnection_bytes_in_flight c = 0 \<and> \<not> sg_fully_acked s then
           obind (destination_text lc s) (\<lambda>_. Inr (s\<lparr>sg_fully_acked := True\<rparr>))
         else Inr s)
     else Inr s))"

definition socket_rule1_interest :: "'k sponge \<Rightarrow> bool" where
  "socket_rule1_interest s = (case sg_tcp s of None \<Rightarrow> False | Some c \<Rightarrow> TCPConnection_active c)"

text \<open>Rule 2: from the owner into the connection.\<close>

definition short_write :: cpp_fault where
  "short_write = Runtime_error ''TCPConnection::write() accepted less than advertised length''"

definition socket_rule2_callback ::
  "('k, 'b) kernel_scheme \<Rightarrow> libc \<Rightarrow> 'k sponge \<Rightarrow> 'k sponge outcome" where
  "socket_rule2_callback sys lc s =
     with_tcp s (\<lambda>c.
     obind (FileDescriptor_read sys (sg_thread_data s) (unat (TCPConnection_remaining_outbound_capacity c)) s)
       (\<lambda>(data, s).
       let (c, amount_written) = TCPConnection_write c data
       in if amount_written \<noteq> size_u64 data then Inl short_write
          else if FileDescriptor_eof s (sg_thread_data s) then
            obind (destination_text lc s) (\<lambda>_.
              Inr (s\<lparr>sg_tcp := Some (TCPConnection_end_input_stream c), sg_outbound_shutdown := True\<rparr>))
          else Inr (s\<lparr>sg_tcp := Some c\<rparr>)))"

definition socket_rule2_interest :: "'k sponge \<Rightarrow> bool" where
  "socket_rule2_interest s =
     (case sg_tcp s of None \<Rightarrow> False
      | Some c \<Rightarrow> TCPConnection_active c \<and> \<not> sg_outbound_shutdown s \<and>
          TCPConnection_remaining_outbound_capacity c > 0)"

definition socket_rule2_cancel :: "'k sponge \<Rightarrow> 'k sponge outcome" where
  "socket_rule2_cancel s =
     with_tcp s (\<lambda>c. Inr (s\<lparr>sg_tcp := Some (TCPConnection_end_input_stream c), sg_outbound_shutdown := True\<rparr>))"

text \<open>Rule 3: from the connection to the owner; only what was written is popped.\<close>

definition TCPConnection_pop_inbound :: "tcp_connection \<Rightarrow> u64 \<Rightarrow> tcp_connection" where
  "TCPConnection_pop_inbound c len =
     (let re = tr_reassembler (cn_receiver c)
      in c\<lparr>cn_receiver := (cn_receiver c)
             \<lparr>tr_reassembler := re\<lparr>sr_output := ByteStream_pop_output (sr_output re) len\<rparr>\<rparr>\<rparr>)"

definition socket_rule3_callback ::
  "('k, 'b) socket_kernel_scheme \<Rightarrow> libc \<Rightarrow> 'k sponge \<Rightarrow> 'k sponge outcome" where
  "socket_rule3_callback sys lc s =
     with_tcp s (\<lambda>c.
     let inbound = TCPConnection_inbound_stream c;
         amount_to_write = min 65536 (ByteStream_buffer_size inbound);
         buffer = ByteStream_peek_output inbound amount_to_write
     in obind (FileDescriptor_write sys (sg_thread_data s) (BufferViewList_of_string buffer) False s)
          (\<lambda>(bytes_written, s).
          let c = TCPConnection_pop_inbound c (word_of_nat bytes_written);
              s = s\<lparr>sg_tcp := Some c\<rparr>;
              inbound = TCPConnection_inbound_stream c
          in if ByteStream_eof inbound \<or> ByteStream_error inbound then
               obind (Socket_shutdown sys (sg_thread_data s) SHUT_WR s) (\<lambda>s.
               obind (destination_text lc s) (\<lambda>_. Inr (s\<lparr>sg_inbound_shutdown := True\<rparr>)))
             else Inr s))"

definition socket_rule3_interest :: "'k sponge \<Rightarrow> bool" where
  "socket_rule3_interest s =
     (case sg_tcp s of None \<Rightarrow> False
      | Some c \<Rightarrow> let inbound = TCPConnection_inbound_stream c
          in \<not> ByteStream_buffer_empty inbound \<or>
             (ByteStream_eof inbound \<or> ByteStream_error inbound) \<and> \<not> sg_inbound_shutdown s)"

text \<open>Rule 4: all outgoing segments of the connection to the adapter.\<close>

fun flush_segments :: "'k adapter_ops \<Rightarrow> tcp_segment list \<Rightarrow> 'k sponge \<Rightarrow> 'k sponge outcome" where
  "flush_segments ops [] s = Inr s"
| "flush_segments ops (seg # rest) s =
     obind (ao_write ops seg s) (\<lambda>s. flush_segments ops rest
       (s\<lparr>sg_tcp := map_option (\<lambda>c. c\<lparr>cn_segments_out := rest\<rparr>) (sg_tcp s)\<rparr>))"

definition socket_rule4_callback :: "'k adapter_ops \<Rightarrow> 'k sponge \<Rightarrow> 'k sponge outcome" where
  "socket_rule4_callback ops s = with_tcp s (\<lambda>c. flush_segments ops (cn_segments_out c) s)"

definition socket_rule4_interest :: "'k sponge \<Rightarrow> bool" where
  "socket_rule4_interest s = (case sg_tcp s of None \<Rightarrow> False | Some c \<Rightarrow> cn_segments_out c \<noteq> [])"

definition socket_rules ::
  "('k, 'b) socket_kernel_scheme \<Rightarrow> libc \<Rightarrow> 'k adapter_ops \<Rightarrow> WrappingInt32 \<Rightarrow> 'k sponge \<Rightarrow> 'k sponge rule list" where
  "socket_rules sys lc ops stale s =
     add_rule (sg_adapter_fd s) Direction_Out (socket_rule4_callback ops) socket_rule4_interest Inr
     (add_rule (sg_thread_data s) Direction_Out (socket_rule3_callback sys lc) socket_rule3_interest Inr
     (add_rule (sg_thread_data s) Direction_In (socket_rule2_callback sys lc) socket_rule2_interest socket_rule2_cancel
     (add_rule (sg_adapter_fd s) Direction_In (socket_rule1_callback lc ops stale) socket_rule1_interest Inr [])))"

definition initialize_TCP ::
  "('k, 'b) socket_kernel_scheme \<Rightarrow> libc \<Rightarrow> 'k adapter_ops \<Rightarrow> WrappingInt32 \<Rightarrow> tcp_config \<Rightarrow> WrappingInt32 \<Rightarrow>
     'k sponge \<Rightarrow> 'k sponge rule list \<times> 'k sponge" where
  "initialize_TCP sys lc ops stale config random_isn s =
     (socket_rules sys lc ops stale s, s\<lparr>sg_tcp := Some (TCPConnection_new config random_isn)\<rparr>)"

section \<open>The connection thread\<close>

definition TCP_TICK_MS :: int where
  "TCP_TICK_MS = 10"

text \<open>Time passes for an active connection; the result holds the new base time.\<close>

definition tcp_loop_tick ::
  "('k, 'b) poll_kernel_scheme \<Rightarrow> u64 \<Rightarrow> 'k sponge \<Rightarrow> (u64 \<times> 'k sponge) outcome" where
  "tcp_loop_tick sys base_time s =
     with_tcp s (\<lambda>c.
       if TCPConnection_active c then
         case timestamp_ms sys s of (next_time, s) \<Rightarrow>
           obind (TCPConnection_tick c (next_time - base_time)) (\<lambda>c.
             Inr (next_time, s\<lparr>sg_tcp := Some c, sg_adapter := FdAdapter_tick (sg_adapter s) (next_time - base_time)\<rparr>))
       else Inr (base_time, s))"

partial_function (option) tcp_loop_from ::
  "('k, 'b) poll_kernel_scheme \<Rightarrow> ('k sponge \<Rightarrow> bool) \<Rightarrow> u64 \<Rightarrow> 'k sponge rule list \<Rightarrow> 'k sponge \<Rightarrow>
     ('k sponge rule list \<times> 'k sponge) outcome option" where
  "tcp_loop_from sys condition base_time rules s =
     (if \<not> condition s then Some (Inr (rules, s))
      else case wait_next_event sys TCP_TICK_MS rules s of
        Inl e \<Rightarrow> Some (Inl e)
      | Inr (ret, rules, s) \<Rightarrow>
          if ret = Result_Exit \<or> sg_abort s then Some (Inr (rules, s))
          else (case tcp_loop_tick sys base_time s of
                  Inl e \<Rightarrow> Some (Inl e)
                | Inr (base_time, s) \<Rightarrow> tcp_loop_from sys condition base_time rules s))"

definition tcp_loop ::
  "('k, 'b) poll_kernel_scheme \<Rightarrow> ('k sponge \<Rightarrow> bool) \<Rightarrow> 'k sponge rule list \<Rightarrow> 'k sponge \<Rightarrow>
     ('k sponge rule list \<times> 'k sponge) outcome option" where
  "tcp_loop sys condition rules s =
     (case timestamp_ms sys s of (base_time, s) \<Rightarrow> tcp_loop_from sys condition base_time rules s)"

definition tcp_state_is :: "official_state \<Rightarrow> 'k sponge \<Rightarrow> bool" where
  "tcp_state_is state s =
     (case sg_tcp s of None \<Rightarrow> False
      | Some c \<Rightarrow> TCPState_eq (TCPConnection_state c) (TCPState_of_official state))"

text \<open>
  The main function of the thread.  Resetting the optional runs the destructor of the connection,
  whose segments are lost with it.
\<close>

definition tcp_main ::
  "('k, 'b) poll_kernel_scheme \<Rightarrow> 'k sponge rule list \<Rightarrow> 'k sponge \<Rightarrow>
     ('k sponge rule list \<times> 'k sponge) outcome option" where
  "tcp_main sys rules s =
     (if sg_tcp s = None then Some (Inl (Runtime_error ''no TCP''))
      else case tcp_loop sys (\<lambda>_. True) rules s of
        None \<Rightarrow> None
      | Some (Inl e) \<Rightarrow> Some (Inl e)
      | Some (Inr (rules, s)) \<Rightarrow>
          Some (obind (Socket_shutdown sys (sg_owner s) SHUT_RDWR s) (\<lambda>s.
                with_tcp s (\<lambda>c. obind (TCPConnection_destroy c) (\<lambda>_. Inr (rules, s\<lparr>sg_tcp := None\<rparr>))))))"

section \<open>The operations of the owner\<close>

definition socket_pair_helper ::
  "('k, 'b) socket_kernel_scheme \<Rightarrow> int \<Rightarrow> ('k, 'a) system_scheme \<Rightarrow>
     ((nat \<times> nat) \<times> ('k, 'a) system_scheme) outcome" where
  "socket_pair_helper sys type s =
     (case k_socketpair sys (sy_kernel s) AF_UNIX type of (r, fd0, fd1, k) \<Rightarrow>
        obind (SystemCall ''socketpair'' r 0) (\<lambda>_.
        obind (FileDescriptor_new fd0 (s\<lparr>sy_kernel := k\<rparr>)) (\<lambda>(h0, s).
        obind (FileDescriptor_new fd1 s) (\<lambda>(h1, s). Inr ((h0, h1), s)))))"

text \<open>The constructor, from the descriptor and the state of the adapter.\<close>

definition TCPSpongeSocket_new ::
  "('k, 'b) socket_kernel_scheme \<Rightarrow> nat \<Rightarrow> fd_adapter \<Rightarrow> 'k system \<Rightarrow> 'k sponge outcome" where
  "TCPSpongeSocket_new sys adapter_fd adapter s =
     obind (socket_pair_helper sys SOCK_STREAM s) (\<lambda>((first, second), s).
     obind (LocalStreamSocket_of_fd sys first s) (\<lambda>(owner, s).
     obind (LocalStreamSocket_of_fd sys second s) (\<lambda>(thread_data, s).
       FileDescriptor_set_blocking sys thread_data False
         (system.extend s \<lparr>sg_owner = owner, sg_thread_data = thread_data, sg_adapter_fd = adapter_fd,
            sg_adapter = adapter, sg_tcp = None, sg_tcp_thread = False, sg_abort = False,
            sg_inbound_shutdown = False, sg_outbound_shutdown = False, sg_fully_acked = False\<rparr>))))"

text \<open>Waiting for the thread runs it to its end; an exception that leaves it ends the program.\<close>

definition join_thread ::
  "('k, 'b) poll_kernel_scheme \<Rightarrow> 'k sponge rule list \<Rightarrow> 'k sponge \<Rightarrow>
     ('k sponge rule list \<times> 'k sponge) outcome option" where
  "join_thread sys rules s =
     (case tcp_main sys rules s of
        None \<Rightarrow> None
      | Some (Inl e) \<Rightarrow> Some (Inl e)
      | Some (Inr (rules, s)) \<Rightarrow> Some (Inr (rules, s\<lparr>sg_tcp_thread := False\<rparr>)))"

text \<open>
  The destructor; after its body the members go in the reverse order of their declaration, and with
  them the last references to the descriptors.
\<close>

definition TCPSpongeSocket_destroy ::
  "('k, 'b) poll_kernel_scheme \<Rightarrow> 'k sponge rule list \<Rightarrow> 'k sponge \<Rightarrow> 'k sponge outcome option" where
  "TCPSpongeSocket_destroy sys rules s =
     (let close_all = (\<lambda>s. fold (FDWrapper_destroy sys) [sg_adapter_fd s, sg_thread_data s, sg_owner s] s)
      in if sg_tcp_thread s then
           (case join_thread sys rules (s\<lparr>sg_abort := True\<rparr>) of
              None \<Rightarrow> None
            | Some (Inl e) \<Rightarrow> Some (Inl e)
            | Some (Inr (rules, s)) \<Rightarrow> Some (Inr (close_all s)))
         else Some (Inr (close_all s)))"

definition wait_until_closed ::
  "('k, 'b) poll_kernel_scheme \<Rightarrow> 'k sponge rule list \<Rightarrow> 'k sponge \<Rightarrow>
     ('k sponge rule list \<times> 'k sponge) outcome option" where
  "wait_until_closed sys rules s =
     (case Socket_shutdown sys (sg_owner s) SHUT_RDWR s of
        Inl e \<Rightarrow> Some (Inl e)
      | Inr s \<Rightarrow> if sg_tcp_thread s then join_thread sys rules s else Some (Inr (rules, s)))"

definition set_adapter_config :: "fd_adapter_config \<Rightarrow> 'k sponge \<Rightarrow> 'k sponge" where
  "set_adapter_config c_ad s = s\<lparr>sg_adapter := (sg_adapter s)\<lparr>fb_cfg := c_ad\<rparr>\<rparr>"

text \<open>The parts of \<^verbatim>\<open>connect\<close> and \<^verbatim>\<open>listen_and_accept\<close> before their loops.\<close>

definition connect_begin ::
  "('k, 'b) socket_kernel_scheme \<Rightarrow> libc \<Rightarrow> 'k adapter_ops \<Rightarrow> WrappingInt32 \<Rightarrow> tcp_config \<Rightarrow> fd_adapter_config \<Rightarrow>
     WrappingInt32 \<Rightarrow> 'k sponge \<Rightarrow> ('k sponge rule list \<times> 'k sponge) outcome" where
  "connect_begin sys lc ops stale c_tcp c_ad random_isn s =
     (if sg_tcp s \<noteq> None then Inl (Runtime_error ''connect() with TCPConnection already initialized'')
      else let (rules, s) = initialize_TCP sys lc ops stale c_tcp random_isn s;
               s = set_adapter_config c_ad s
           in obind (Address_to_string lc (fa_destination c_ad)) (\<lambda>_.
              with_tcp s (\<lambda>c.
              let c = TCPConnection_connect c; s = s\<lparr>sg_tcp := Some c\<rparr>
              in if tcp_state_is SYN_SENT s then Inr (rules, s)
                 else Inl (Runtime_error (''After TCPConnection::connect(), state was ''
                   @ TCPState_name (TCPConnection_state c) @ '' but expected ''
                   @ TCPState_name (TCPState_of_official SYN_SENT))))))"

definition TCPSpongeSocket_connect ::
  "('k, 'b) poll_kernel_scheme \<Rightarrow> libc \<Rightarrow> 'k adapter_ops \<Rightarrow> WrappingInt32 \<Rightarrow> tcp_config \<Rightarrow> fd_adapter_config \<Rightarrow>
     WrappingInt32 \<Rightarrow> 'k sponge \<Rightarrow> ('k sponge rule list \<times> 'k sponge) outcome option" where
  "TCPSpongeSocket_connect sys lc ops stale c_tcp c_ad random_isn s =
     (case connect_begin sys lc ops stale c_tcp c_ad random_isn s of
        Inl e \<Rightarrow> Some (Inl e)
      | Inr (rules, s) \<Rightarrow>
          (case tcp_loop sys (tcp_state_is SYN_SENT) rules s of
             None \<Rightarrow> None
           | Some (Inl e) \<Rightarrow> Some (Inl e)
           | Some (Inr (rules, s)) \<Rightarrow> Some (Inr (rules, s\<lparr>sg_tcp_thread := True\<rparr>))))"

definition still_opening :: "'k sponge \<Rightarrow> bool" where
  "still_opening s \<longleftrightarrow> tcp_state_is LISTEN s \<or> tcp_state_is SYN_RCVD s \<or> tcp_state_is SYN_SENT s"

definition listen_begin ::
  "('k, 'b) socket_kernel_scheme \<Rightarrow> libc \<Rightarrow> 'k adapter_ops \<Rightarrow> WrappingInt32 \<Rightarrow> tcp_config \<Rightarrow> fd_adapter_config \<Rightarrow>
     WrappingInt32 \<Rightarrow> 'k sponge \<Rightarrow> ('k sponge rule list \<times> 'k sponge) outcome" where
  "listen_begin sys lc ops stale c_tcp c_ad random_isn s =
     (if sg_tcp s \<noteq> None
      then Inl (Runtime_error ''listen_and_accept() with TCPConnection already initialized'')
      else let (rules, s) = initialize_TCP sys lc ops stale c_tcp random_isn s;
               s = set_adapter_config c_ad s
           in Inr (rules, s\<lparr>sg_adapter := set_listening (sg_adapter s) True\<rparr>))"

definition TCPSpongeSocket_listen_and_accept ::
  "('k, 'b) poll_kernel_scheme \<Rightarrow> libc \<Rightarrow> 'k adapter_ops \<Rightarrow> WrappingInt32 \<Rightarrow> tcp_config \<Rightarrow> fd_adapter_config \<Rightarrow>
     WrappingInt32 \<Rightarrow> 'k sponge \<Rightarrow> ('k sponge rule list \<times> 'k sponge) outcome option" where
  "TCPSpongeSocket_listen_and_accept sys lc ops stale c_tcp c_ad random_isn s =
     (case listen_begin sys lc ops stale c_tcp c_ad random_isn s of
        Inl e \<Rightarrow> Some (Inl e)
      | Inr (rules, s) \<Rightarrow>
          (case tcp_loop sys still_opening rules s of
             None \<Rightarrow> None
           | Some (Inl e) \<Rightarrow> Some (Inl e)
           | Some (Inr (rules, s)) \<Rightarrow>
               Some (obind (destination_text lc s) (\<lambda>_. Inr (rules, s\<lparr>sg_tcp_thread := True\<rparr>)))))"

text \<open>The socket that behaves like a kernel socket; \<open>random_port\<close> is what the random device gives.\<close>

definition CS144TCPSocket_connect ::
  "('k, 'b) poll_kernel_scheme \<Rightarrow> libc \<Rightarrow> WrappingInt32 \<Rightarrow> u32 \<Rightarrow> address \<Rightarrow> WrappingInt32 \<Rightarrow> 'k sponge \<Rightarrow>
     ('k sponge rule list \<times> 'k sponge) outcome option" where
  "CS144TCPSocket_connect sys lc stale random_port address random_isn s =
     (case obind (FdAdapterConfig_default lc) (\<lambda>cfg.
             obind (Address_of_name lc ''169.254.144.9'' (string_of_nat (unat (ucast random_port :: u16))))
               (\<lambda>source. Inr (cfg\<lparr>fa_source := source, fa_destination := address\<rparr>))) of
        Inl e \<Rightarrow> Some (Inl e)
      | Inr multiplexer_config \<Rightarrow>
          TCPSpongeSocket_connect sys lc (tun_ops sys lc) stale (TCPConfig_default\<lparr>tc_rt_timeout := 100\<rparr>)
            multiplexer_config random_isn s)"

section \<open>Faults of the program's own logic\<close>

text \<open>
  The faults that only an error in the program could cause: the busy wait check of the event loop,
  the check of the written amount, an empty queue, a division by zero and a missing connection.
\<close>

definition internal_faults :: "cpp_fault set" where
  "internal_faults = {busy_wait, short_write, Empty_queue_front, Division_by_zero, Bad_optional_access}"

definition avoids :: "'r outcome \<Rightarrow> bool" where
  "avoids m \<longleftrightarrow> (\<forall>e \<in> internal_faults. m \<noteq> Inl e)"

named_theorems avoids_intros \<open>outcomes that are no internal fault\<close>

lemma avoids_basic [avoids_intros]:
  "avoids (Inr x)"
  "avoids (Inl (Tagged_error t n))"
  "avoids (Inl (Out_of_range t))"
  "avoids (Inl (Invalid_argument t))"
  "avoids (Inl Length_error)"
  "avoids (Inl Out_of_bounds_read)"
  by (simp_all add: avoids_def internal_faults_def busy_wait_def short_write_def)

lemma avoids_runtime_error [avoids_intros]:
  "Runtime_error t \<noteq> busy_wait \<Longrightarrow> Runtime_error t \<noteq> short_write \<Longrightarrow> avoids (Inl (Runtime_error t))"
  by (simp add: avoids_def internal_faults_def)

lemma avoids_obind [avoids_intros]:
  "avoids m \<Longrightarrow> (\<And>x. m = Inr x \<Longrightarrow> avoids (f x)) \<Longrightarrow> avoids (obind m f)"
  by (cases m) (auto simp: avoids_def)

lemma avoids_if [avoids_intros]:
  "(b \<Longrightarrow> avoids x) \<Longrightarrow> (\<not> b \<Longrightarrow> avoids y) \<Longrightarrow> avoids (if b then x else y)"
  by simp

lemma avoids_prod [avoids_intros]: "(\<And>a b. p = (a, b) \<Longrightarrow> avoids (f a b)) \<Longrightarrow> avoids (case p of (a, b) \<Rightarrow> f a b)"
  by (cases p) simp

lemma avoids_option [avoids_intros]:
  "(x = None \<Longrightarrow> avoids f) \<Longrightarrow> (\<And>a. x = Some a \<Longrightarrow> avoids (g a)) \<Longrightarrow> avoids (case x of None \<Rightarrow> f | Some a \<Rightarrow> g a)"
  by (cases x) simp_all

lemma avoids_let [avoids_intros]: "avoids (f x) \<Longrightarrow> avoids (Let x f)"
  by simp

lemmas fault_defs = busy_wait_def short_write_def

lemma SystemCall_avoids [avoids_intros]: "avoids (SystemCall t r m)"
  unfolding SystemCall_def by (intro avoids_intros)

lemma FileDescriptor_read_avoids [avoids_intros]: "avoids (FileDescriptor_read sys h limit s)"
  unfolding FileDescriptor_read_def Let_def by (intro avoids_intros) (simp_all add: fault_defs)

lemma remove_prefix_avoids [avoids_intros]: "avoids (BufferViewList_remove_prefix vl n)"
  by (induction vl n rule: BufferViewList_remove_prefix.induct) (auto intro: avoids_intros)

lemma write_loop_avoids: "avoids (FileDescriptor_write_loop sys h write_all vl tot s)"
proof (induction "BufferViewList_size vl" arbitrary: vl tot s rule: less_induct)
  case less
  show ?case
  proof (subst FileDescriptor_write_loop.simps, unfold Let_def, intro avoids_intros)
    fix r k n vl'
    assume n: "SystemCall ''writev'' (int_arg r) 0 = Inr n" "\<not> (n = 0 \<and> BufferViewList_size vl \<noteq> 0)"
      and vl': "BufferViewList_remove_prefix vl (nat (n mod 2 ^ 64)) = Inr vl'"
        "write_all \<and> BufferViewList_size vl' \<noteq> 0"
    have "nat (n mod 2 ^ 64) \<noteq> 0"
    proof
      assume "nat (n mod 2 ^ 64) = 0"
      moreover from this have "BufferViewList_size vl \<noteq> 0"
        using vl' BufferViewList_remove_prefix_str [OF vl'(1)] by (auto simp: BufferViewList_size_simp)
      ultimately show False using n size_arg_0 by (auto simp: SystemCall_def int_arg_def split: if_splits)
    qed
    then have "BufferViewList_size vl' < BufferViewList_size vl" using remove_prefix_shrinks vl' by blast
    then show "avoids (FileDescriptor_write_loop sys h write_all vl' (tot + nat (n mod 2 ^ 64))
        (register_write h (s\<lparr>sy_kernel := k\<rparr>)))" by (rule less)
  qed (simp_all add: fault_defs)
qed

lemma FileDescriptor_write_avoids [avoids_intros]: "avoids (FileDescriptor_write sys h vl write_all s)"
  unfolding FileDescriptor_write_def by (rule write_loop_avoids)

lemma Address_new_avoids [avoids_intros]: "avoids (Address_new st n)"
  unfolding Address_new_def Let_def by (intro avoids_intros) (simp_all add: fault_defs)

lemma Address_resolve_avoids [avoids_intros]: "avoids (Address_resolve lc node service hints)"
  by (cases "lc_getaddrinfo lc node service hints")
    (auto simp: Address_resolve_def fault_defs intro!: avoids_intros)

lemma stoi_avoids [avoids_intros]: "avoids (stoi t)"
  unfolding stoi_def Let_def by (intro avoids_intros)

lemma Address_ip_port_avoids [avoids_intros]: "avoids (Address_ip_port lc a)"
  by (cases "lc_getnameinfo lc (ad_storage a) (ad_size a)")
    (auto simp: Address_ip_port_def intro!: avoids_intros)

lemma Address_avoids [avoids_intros]:
  "avoids (Address_of_ip lc ip port)" "avoids (Address_port lc a)" "avoids (Address_to_string lc a)"
  "avoids (Address_ipv4_numeric a)"
  unfolding Address_of_ip_def Address_port_def Address_to_string_def Address_ipv4_numeric_def
  by (intro avoids_intros; simp add: fault_defs)+

lemma parser_avoids [avoids_intros]:
  "avoids (Buffer_at b n)" "avoids (Buffer_remove_prefix b n)" "avoids (BufferList_to_Buffer bl)"
  by (auto simp: Buffer_at_def Buffer_remove_prefix_def BufferList_to_Buffer_def fault_defs Let_def
      split: list.split intro!: avoids_intros)

lemma parse_int_loop_avoids [avoids_intros]: "avoids (parse_int_loop b is acc)"
  by (induction b "is" acc rule: parse_int_loop.induct) (auto intro!: avoids_intros)

lemma parse_int_avoids [avoids_intros]: "avoids (parse_int p)"
  unfolding parse_int_def Let_def by (intro avoids_intros)

lemma NetParser_avoids [avoids_intros]:
  "avoids (NetParser_u32 p)" "avoids (NetParser_u16 p)" "avoids (NetParser_u8 p)" "avoids (NetParser_remove_prefix p n)"
  unfolding NetParser_u32_def NetParser_u16_def NetParser_u8_def NetParser_remove_prefix_def Let_def
  by (intro avoids_intros)+

lemma parse_avoids [avoids_intros]:
  "avoids (TCPHeader_parse p)" "avoids (IPv4Header_parse h p)"
  unfolding TCPHeader_parse_def IPv4Header_parse_def Let_def by (intro avoids_intros)+

lemma datagram_parse_avoids [avoids_intros]:
  "avoids (TCPSegment_parse seg b ck)" "avoids (IPv4Datagram_parse d b)"
  unfolding TCPSegment_parse_def IPv4Datagram_parse_def Let_def by (intro avoids_intros)+

lemma serialize_avoids [avoids_intros]:
  "avoids (TCPHeader_serialize h)" "avoids (IPv4Header_serialize i)"
  unfolding TCPHeader_serialize_def IPv4Header_serialize_def Let_def
  by (intro avoids_intros; simp add: fault_defs)+

lemma datagram_serialize_avoids [avoids_intros]:
  "avoids (TCPSegment_serialize seg ck)" "avoids (IPv4Datagram_serialize d)"
  unfolding TCPSegment_serialize_def IPv4Datagram_serialize_def Let_def
  by (intro avoids_intros; simp add: fault_defs)+

lemma adapter_avoids [avoids_intros]:
  "avoids (TunFdAdapter_read lc ad packet)" "avoids (UDPSocketAdapter_read ad source payload)"
  "avoids (wrap_tcp_in_ip lc ad seg)"
  unfolding TunFdAdapter_read_def UDPSocketAdapter_read_def unwrap_tcp_in_ip_def wrap_tcp_in_ip_def Let_def
  by (intro avoids_intros)+

lemma socket_avoids [avoids_intros]:
  "avoids (UDPSocket_recv sys h mtu s)" "avoids (UDPSocket_sendto sys h a vl s)"
  "avoids (Socket_shutdown sys h how s)"
  unfolding UDPSocket_recv_def UDPSocket_sendto_def sendmsg_helper_def Socket_shutdown_def checked_def Let_def
  by (intro avoids_intros; simp add: fault_defs)+

section \<open>The contract of an adapter\<close>

text \<open>
  The calls behind an adapter: those of the event loop, and the random number generator, which
  transfers nothing.
\<close>

definition adapter_env ::
  "('k, 'b) poll_kernel_scheme \<Rightarrow> ('k \<Rightarrow> u32 \<times> 'k) \<Rightarrow> ('k \<Rightarrow> int \<Rightarrow> bytes) \<Rightarrow> ('k \<Rightarrow> int \<Rightarrow> bytes) \<Rightarrow> bool" where
  "adapter_env sys rnd got sent \<longleftrightarrow> loop_kernel sys got sent \<and>
     (\<forall>k. got (snd (rnd k)) = got k \<and> sent (snd (rnd k)) = sent k)"

text \<open>
  An operation of the adapter changes the adapter, its own wrapper and the kernel, and transfers
  bytes only on its own descriptor.
\<close>

definition adapter_step ::
  "('k \<Rightarrow> int \<Rightarrow> bytes) \<Rightarrow> ('k \<Rightarrow> int \<Rightarrow> bytes) \<Rightarrow> 'k sponge \<Rightarrow> 'k sponge \<Rightarrow> bool" where
  "adapter_step got sent s s' \<longleftrightarrow>
     (\<exists>k w ad. s' = (update_fd (sg_adapter_fd s) (\<lambda>_. w) s)\<lparr>sy_kernel := k, sg_adapter := ad\<rparr> \<and>
        fd_fd w = fd_num s (sg_adapter_fd s) \<and>
        (\<forall>fd. fd \<noteq> fd_num s (sg_adapter_fd s) \<longrightarrow>
           got k fd = got (sy_kernel s) fd \<and> sent k fd = sent (sy_kernel s) fd))"

lemma adapter_stepI:
  assumes "s' = (update_fd (sg_adapter_fd s) f s)\<lparr>sy_kernel := k, sg_adapter := ad\<rparr>"
    and "fd_fd (f (sy_fds s (sg_adapter_fd s))) = fd_num s (sg_adapter_fd s)"
    and "\<And>fd. fd \<noteq> fd_num s (sg_adapter_fd s) \<Longrightarrow> got k fd = got (sy_kernel s) fd \<and> sent k fd = sent (sy_kernel s) fd"
  shows "adapter_step got sent s s'"
  unfolding adapter_step_def
  by (rule exI [of _ k], rule exI [of _ "f (sy_fds s (sg_adapter_fd s))"], rule exI [of _ ad])
    (use assms in \<open>simp add: update_fd_def\<close>)

lemma adapter_step_refl: "adapter_step got sent s s"
  by (rule adapter_stepI [where f = "\<lambda>w. w" and k = "sy_kernel s" and ad = "sg_adapter s"])
    (simp_all add: update_fd_def fd_num_def)

lemma adapter_step_frame:
  assumes "adapter_step got sent s s'"
  shows "sg_owner s' = sg_owner s" "sg_thread_data s' = sg_thread_data s" "sg_adapter_fd s' = sg_adapter_fd s"
    "sg_tcp s' = sg_tcp s" "sg_tcp_thread s' = sg_tcp_thread s" "sg_abort s' = sg_abort s"
    "sg_inbound_shutdown s' = sg_inbound_shutdown s" "sg_outbound_shutdown s' = sg_outbound_shutdown s"
    "sg_fully_acked s' = sg_fully_acked s" "fd_num s' h = fd_num s h"
    "h \<noteq> sg_adapter_fd s \<Longrightarrow> sy_fds s' h = sy_fds s h"
    "fd \<noteq> fd_num s (sg_adapter_fd s) \<Longrightarrow>
       got (sy_kernel s') fd = got (sy_kernel s) fd \<and> sent (sy_kernel s') fd = sent (sy_kernel s) fd"
  using assms by (auto simp: adapter_step_def update_fd_def fd_num_def)

lemma adapter_step_trans:
  assumes "adapter_step got sent s t" "adapter_step got sent t u"
  shows "adapter_step got sent s u"
proof -
  obtain k w ad where "u = (update_fd (sg_adapter_fd s) (\<lambda>_. w) s)\<lparr>sy_kernel := k, sg_adapter := ad\<rparr>"
    "fd_fd w = fd_num s (sg_adapter_fd s)"
    using assms by (auto simp: adapter_step_def update_fd_def fd_num_def)
  moreover from this have "fd \<noteq> fd_num s (sg_adapter_fd s) \<Longrightarrow>
      got k fd = got (sy_kernel s) fd \<and> sent k fd = sent (sy_kernel s) fd" for fd
    using adapter_step_frame(12) [OF assms(2), of fd] adapter_step_frame(12) [OF assms(1), of fd]
      adapter_step_frame(3,10) [OF assms(1)] by simp
  ultimately show ?thesis by (auto simp: adapter_step_def)
qed

text \<open>A read is counted; neither operation ends with an internal fault.\<close>

locale datagram_link =
  fixes sys :: "('k, 'b) poll_kernel_scheme" and rnd :: "'k \<Rightarrow> u32 \<times> 'k"
    and got sent :: "'k \<Rightarrow> int \<Rightarrow> bytes" and ops :: "'k adapter_ops"
  assumes read_step: "adapter_env sys rnd got sent \<Longrightarrow> ao_read ops s = Inr (seg, s') \<Longrightarrow>
      adapter_step got sent s s' \<and>
      FileDescriptor_read_count s' (sg_adapter_fd s) = FileDescriptor_read_count s (sg_adapter_fd s) + 1"
    and write_step: "adapter_env sys rnd got sent \<Longrightarrow> ao_write ops x s = Inr s' \<Longrightarrow> adapter_step got sent s s'"
    and no_internal_fault: "avoids (ao_read ops s)" "avoids (ao_write ops x s)"
begin

text \<open>Sending a queue: the adapter makes its steps, and the queue is empty afterwards.\<close>

lemma flush_step:
  assumes env: "adapter_env sys rnd got sent"
  shows "flush_segments ops q s = Inr s' \<Longrightarrow> sg_tcp s = Some c \<Longrightarrow> cn_segments_out c = q \<Longrightarrow>
    \<exists>t. adapter_step got sent s t \<and> s' = t\<lparr>sg_tcp := Some (c\<lparr>cn_segments_out := []\<rparr>)\<rparr>"
proof (induction q arbitrary: s c)
  case Nil
  then have "s' = s\<lparr>sg_tcp := Some (c\<lparr>cn_segments_out := []\<rparr>)\<rparr>" by auto
  then show ?case using adapter_step_refl by blast
next
  case (Cons seg q)
  obtain t where t: "ao_write ops seg s = Inr t"
    "flush_segments ops q (t\<lparr>sg_tcp := Some (c\<lparr>cn_segments_out := q\<rparr>)\<rparr>) = Inr s'"
    using Cons.prems adapter_step_frame(4) [OF write_step [OF env]] by (auto simp: obind_Inr_iff)
  obtain u where u: "adapter_step got sent (t\<lparr>sg_tcp := Some (c\<lparr>cn_segments_out := q\<rparr>)\<rparr>) u"
    "s' = u\<lparr>sg_tcp := Some (c\<lparr>cn_segments_out := []\<rparr>)\<rparr>"
    using Cons.IH [OF t(2)] by auto
  have "adapter_step got sent t (u\<lparr>sg_tcp := sg_tcp t\<rparr>)"
  proof -
    obtain k w ad where "u = (update_fd (sg_adapter_fd t) (\<lambda>_. w)
        (t\<lparr>sg_tcp := Some (c\<lparr>cn_segments_out := q\<rparr>)\<rparr>))\<lparr>sy_kernel := k, sg_adapter := ad\<rparr>"
      "fd_fd w = fd_num t (sg_adapter_fd t)" "\<And>fd. fd \<noteq> fd_num t (sg_adapter_fd t) \<Longrightarrow>
        got k fd = got (sy_kernel t) fd \<and> sent k fd = sent (sy_kernel t) fd"
      using u(1) unfolding adapter_step_def by (auto simp: fd_num_def)
    then show ?thesis by (intro adapter_stepI [where f = "\<lambda>_. w" and k = k and ad = ad]) (simp_all add: update_fd_def)
  qed
  with write_step [OF env t(1)] have "adapter_step got sent s (u\<lparr>sg_tcp := sg_tcp t\<rparr>)"
    by (rule adapter_step_trans)
  with u(2) show ?case by (intro exI [of _ "u\<lparr>sg_tcp := sg_tcp t\<rparr>"]) simp
qed

lemma flush_avoids: "avoids (flush_segments ops q s)"
  by (induction q arbitrary: s) (auto intro!: avoids_intros no_internal_fault)

end

lemma tun_read_step:
  assumes "stream_kernel sys got sent" "ao_read (tun_ops sys lc) s = Inr (seg, s')"
  shows "adapter_step got sent s s' \<and>
    FileDescriptor_read_count s' (sg_adapter_fd s) = FileDescriptor_read_count s (sg_adapter_fd s) + 1"
proof -
  obtain packet t ad where t: "FileDescriptor_read sys (sg_adapter_fd s) read_limit s = Inr (packet, t)"
    "s' = t\<lparr>sg_adapter := ad\<rparr>"
    using assms(2) by (auto simp: tun_ops_def obind_Inr_iff)
  obtain k where k: "t = update_fd (sg_adapter_fd s) (after_read read_limit packet) (s\<lparr>sy_kernel := k\<rparr>)"
    "got k = (got (sy_kernel s))(fd_num s (sg_adapter_fd s) := got (sy_kernel s) (fd_num s (sg_adapter_fd s)) @ packet)"
    "sent k = sent (sy_kernel s)"
    using FileDescriptor_read_spec [OF assms(1) t(1)] by blast
  have "adapter_step got sent s s'"
    by (rule adapter_stepI [where f = "after_read read_limit packet" and k = k and ad = ad])
      (simp_all add: t k update_fd_def fd_num_def after_read_def)
  then show ?thesis by (simp add: t k FileDescriptor_read_count_def after_read_def)
qed

text \<open>A write that takes several calls changes only the wrapper and the kernel.\<close>

lemma write_loop_frame:
  assumes sys: "stream_kernel sys got sent"
  shows "FileDescriptor_write_loop sys h write_all buffer tot s = Inr (n, s') \<Longrightarrow>
    \<exists>k w. s' = update_fd h (\<lambda>_. w) (s\<lparr>sy_kernel := k\<rparr>) \<and> fd_fd w = fd_num s h"
proof (induction "BufferViewList_size buffer" arbitrary: buffer tot s rule: less_induct)
  case less
  obtain rv e k' where call:
    "k_writev sys (sy_kernel s) (fd_num s h) (BufferViewList_as_iovecs buffer) = ((rv, e), k')"
    by (metis prod.collapse)
  let ?s = "update_fd h after_write (s\<lparr>sy_kernel := k'\<rparr>)"
  have c: "\<not> rv < 0" "\<not> (rv = 0 \<and> concat buffer \<noteq> [])"
    using less.prems unfolding FileDescriptor_write_once [OF sys call] by (auto split: if_splits)
  obtain buffer' where b: "BufferViewList_remove_prefix buffer (nat rv) = Inr buffer'"
    "(if write_all \<and> concat buffer' \<noteq> []
      then FileDescriptor_write_loop sys h write_all buffer' (tot + nat rv) ?s
      else Inr (tot + nat rv, ?s)) = Inr (n, s')"
    using less.prems unfolding FileDescriptor_write_once [OF sys call] if_not_P [OF c(1)] if_not_P [OF c(2)]
      obind_Inr_iff by blast
  have *: "\<exists>k w. ?s = update_fd h (\<lambda>_. w) (s\<lparr>sy_kernel := k\<rparr>) \<and> fd_fd w = fd_num s h"
    by (rule exI [of _ k'], rule exI [of _ "after_write (sy_fds s h)"])
      (simp add: update_fd_def after_write_def fd_num_def)
  show ?case
  proof (cases "write_all \<and> concat buffer' \<noteq> []")
    case True
    then have "BufferViewList_size buffer' < BufferViewList_size buffer"
      using c BufferViewList_remove_prefix_str [OF b(1)]
      by (cases "rv = 0") (auto simp: BufferViewList_size_simp simp del: length_concat)
    from less.hyps [OF this] b(2) True show ?thesis
      by (fastforce simp: update_fd_def fd_num_def after_write_def)
  next
    case False
    then have "s' = ?s" using b(2) by (auto split: if_splits)
    with * show ?thesis by blast
  qed
qed

lemma tun_write_step:
  assumes "stream_kernel sys got sent" "ao_write (tun_ops sys lc) x s = Inr s'"
  shows "adapter_step got sent s s'"
proof -
  obtain buffer n where w: "FileDescriptor_write_loop sys (sg_adapter_fd s) True buffer 0 s = Inr (n, s')"
    using assms(2) by (auto simp: tun_ops_def obind_Inr_iff FileDescriptor_write_def)
  obtain k wr where k: "s' = update_fd (sg_adapter_fd s) (\<lambda>_. wr) (s\<lparr>sy_kernel := k\<rparr>)"
    "fd_fd wr = fd_num s (sg_adapter_fd s)"
    using write_loop_frame [OF assms(1) w] by blast
  show ?thesis
    using FileDescriptor_write_loop_spec [OF assms(1) w] k
    by (intro adapter_stepI [where f = "\<lambda>_. wr" and k = k and ad = "sg_adapter s"]) (auto simp: update_fd_def)
qed

interpretation tun_link: datagram_link sys rnd got sent "tun_ops sys lc" for sys rnd got sent lc
proof unfold_locales
  fix s seg s'
  assume "adapter_env sys rnd got sent" "ao_read (tun_ops sys lc) s = Inr (seg, s')"
  then show "adapter_step got sent s s' \<and>
      FileDescriptor_read_count s' (sg_adapter_fd s) = FileDescriptor_read_count s (sg_adapter_fd s) + 1"
    by (intro tun_read_step) (simp_all add: adapter_env_def loop_kernel_def)
next
  fix x s s'
  assume "adapter_env sys rnd got sent" "ao_write (tun_ops sys lc) x s = Inr s'"
  then show "adapter_step got sent s s'"
    by (intro tun_write_step) (simp_all add: adapter_env_def loop_kernel_def)
qed (auto simp: tun_ops_def intro!: avoids_intros)

lemma udp_read_step:
  assumes "loop_kernel sys got sent" "ao_read (udp_ops sys lc) s = Inr (seg, s')"
  shows "adapter_step got sent s s' \<and>
    FileDescriptor_read_count s' (sg_adapter_fd s) = FileDescriptor_read_count s (sg_adapter_fd s) + 1"
proof -
  obtain r d a m k where call: "k_recvfrom sys (sy_kernel s) (fd_num s (sg_adapter_fd s)) udp_mtu = (r, d, a, m, k)"
    by (metis prod.collapse)
  obtain ad where s': "s' = (register_read (sg_adapter_fd s) (s\<lparr>sy_kernel := k\<rparr>))\<lparr>sg_adapter := ad\<rparr>"
    using assms(2) by (auto simp: udp_ops_def obind_Inr_iff UDPSocket_recv_def call split: if_splits)
  have "adapter_step got sent s s'"
    by (rule adapter_stepI [where f = "\<lambda>w. w\<lparr>fd_read_count := fd_read_count w + 1\<rparr>" and k = k and ad = ad])
      (use loop_kernel_laws(3) [OF assms(1) call] in \<open>simp_all add: s' register_read_def update_fd_def fd_num_def\<close>)
  then show ?thesis by (simp add: s' FileDescriptor_read_count_def register_read_def)
qed

lemma udp_write_step:
  assumes "loop_kernel sys got sent" "ao_write (udp_ops sys lc) x s = Inr s'"
  shows "adapter_step got sent s s'"
proof -
  obtain dest vl where "UDPSocket_sendto sys (sg_adapter_fd s) dest vl s = Inr s'"
    using assms(2) by (auto simp: udp_ops_def obind_Inr_iff Let_def)
  then obtain ad iov r k where k: "k_sendmsg sys (sy_kernel s) (fd_num s (sg_adapter_fd s)) ad iov = (r, k)"
    "s' = register_write (sg_adapter_fd s) (s\<lparr>sy_kernel := k\<rparr>)"
    by (auto simp: UDPSocket_sendto_def sendmsg_helper_def obind_Inr_iff split: prod.splits if_splits)
  show ?thesis
    by (rule adapter_stepI [where f = after_write and k = k and ad = "sg_adapter s"])
      (use loop_kernel_laws(4) [OF assms(1) k(1)] in
        \<open>simp_all add: k(2) register_write_eq update_fd_def fd_num_def after_write_def\<close>)
qed

interpretation udp_link: datagram_link sys rnd got sent "udp_ops sys lc" for sys rnd got sent lc
proof unfold_locales
  fix s seg s'
  assume "adapter_env sys rnd got sent" "ao_read (udp_ops sys lc) s = Inr (seg, s')"
  then show "adapter_step got sent s s' \<and>
      FileDescriptor_read_count s' (sg_adapter_fd s) = FileDescriptor_read_count s (sg_adapter_fd s) + 1"
    by (intro udp_read_step) (simp_all add: adapter_env_def)
next
  fix x s s'
  assume "adapter_env sys rnd got sent" "ao_write (udp_ops sys lc) x s = Inr s'"
  then show "adapter_step got sent s s'" by (intro udp_write_step) (simp_all add: adapter_env_def)
qed (auto simp: udp_ops_def Let_def intro!: avoids_intros)

text \<open>Random loss keeps the contract of the adapter under it.\<close>

lemma draw_loss_step:
  assumes "adapter_env sys rnd got sent" "draw_loss rnd up s = (b, s')"
  shows "adapter_step got sent s s'" "sy_fds s' = sy_fds s"
proof -
  obtain k where k: "s' = s\<lparr>sy_kernel := k\<rparr>" "got k = got (sy_kernel s)" "sent k = sent (sy_kernel s)"
  proof -
    obtain x k where k: "rnd (sy_kernel s) = (x, k)" by (cases "rnd (sy_kernel s)")
    have "got (snd (rnd (sy_kernel s))) = got (sy_kernel s) \<and> sent (snd (rnd (sy_kernel s))) = sent (sy_kernel s)"
      using assms(1) by (simp add: adapter_env_def)
    moreover have "s' = s\<lparr>sy_kernel := sy_kernel s\<rparr> \<or> s' = s\<lparr>sy_kernel := k\<rparr>"
      using assms(2) by (simp add: draw_loss_def k Let_def split: if_splits)
    ultimately show ?thesis using that [of "sy_kernel s"] that [of k] k by auto
  qed
  show "adapter_step got sent s s'"
    by (rule adapter_stepI [where f = "\<lambda>w. w" and k = k and ad = "sg_adapter s"])
      (simp_all add: k update_fd_def fd_num_def)
  show "sy_fds s' = sy_fds s" by (simp add: k)
qed

context datagram_link
begin

lemma lossy_link: "datagram_link sys rnd got sent (lossy_ops rnd ops)"
proof unfold_locales
  fix s seg s'
  assume env: "adapter_env sys rnd got sent" and r: "ao_read (lossy_ops rnd ops) s = Inr (seg, s')"
  obtain ret t where ret: "ao_read ops s = Inr (ret, t)"
    using r by (auto simp: lossy_ops_def obind_Inr_iff)
  obtain b where t: "ao_read ops s = Inr (ret, t)" "draw_loss rnd False t = (b, s')"
    using r ret by (cases "draw_loss rnd False t") (simp add: lossy_ops_def)
  have "adapter_step got sent s s'"
    using conjunct1 [OF read_step [OF env t(1)]] draw_loss_step(1) [OF env t(2)] by (rule adapter_step_trans)
  then show "adapter_step got sent s s' \<and>
      FileDescriptor_read_count s' (sg_adapter_fd s) = FileDescriptor_read_count s (sg_adapter_fd s) + 1"
    using read_step [OF env t(1)] draw_loss_step(2) [OF env t(2)] by (simp add: FileDescriptor_read_count_def)
next
  fix x s s'
  assume env: "adapter_env sys rnd got sent" and w: "ao_write (lossy_ops rnd ops) x s = Inr s'"
  obtain b t where t: "draw_loss rnd True s = (b, t)" by fastforce
  have "t = s' \<or> ao_write ops x t = Inr s'" using w by (auto simp: lossy_ops_def t split: if_splits)
  then have "adapter_step got sent t s'" using write_step [OF env] adapter_step_refl by auto
  with draw_loss_step(1) [OF env t] show "adapter_step got sent s s'" by (rule adapter_step_trans)
qed (auto simp: lossy_ops_def intro!: avoids_intros no_internal_fault)

end

interpretation lossy_tun: datagram_link sys rnd got sent "lossy_ops rnd (tun_ops sys lc)" for sys rnd got sent lc
  by (rule tun_link.lossy_link)

interpretation lossy_udp: datagram_link sys rnd got sent "lossy_ops rnd (udp_ops sys lc)" for sys rnd got sent lc
  by (rule udp_link.lossy_link)

end
