(* ===== verification/Socket_Session.thy ===== *)
theory Socket_Session
  imports Sponge_Socket
begin

text \<open>
  The connection thread of a \<^verbatim>\<open>TCPSpongeSocket\<close> as a whole: its rules satisfy the contract of the
  event loop, whatever the adapter, so that the owner receives the stream of the peer, the peer is
  sent the stream of the owner, and no fault of the program itself ends the thread.
\<close>

section \<open>A session\<close>

text \<open>
  What is fixed while a connection runs: the bytes that the owner writes, the stream and the initial
  number of the peer, the configuration, the descriptors of the thread and of the adapter, and
  whether the owner has asked the thread to stop.
\<close>

record session =
  se_out :: bytes
  se_in :: bytes
  se_peer :: WrappingInt32
  se_config :: tcp_config
  se_thread :: nat
  se_adapter :: nat
  se_thread_fd :: int
  se_adapter_fd :: int
  se_aborted :: bool

text \<open>
  The owner's end of the stream socket: reads deliver what the owner writes, in order, and report
  its end, as does a hangup, only when all of it has been read.
\<close>

definition owner_writes :: "('k, 'b) poll_kernel_scheme \<Rightarrow> ('k \<Rightarrow> int \<Rightarrow> bytes) \<Rightarrow> session \<Rightarrow> bool" where
  "owner_writes sys got se \<longleftrightarrow>
     (\<forall>k n rv e d k'. k_read sys k (se_thread_fd se) n = ((rv, e), d, k') \<longrightarrow> rv \<ge> 0 \<longrightarrow>
        prefix (got k (se_thread_fd se) @ d) (se_out se) \<and>
        (n > 0 \<longrightarrow> rv = 0 \<longrightarrow> got k (se_thread_fd se) = se_out se)) \<and>
     (\<forall>k pfs t x pfs' k' i. k_poll sys k pfs t = (x, pfs', k') \<longrightarrow> i < length pfs \<longrightarrow> i < length pfs' \<longrightarrow>
        pf_fd (pfs ! i) = se_thread_fd se \<longrightarrow> pf_events (pfs ! i) = POLLIN \<longrightarrow> bare_hangup (pfs' ! i) \<longrightarrow>
        got k (se_thread_fd se) = se_out se)"

text \<open>The network: segments that the adapter lets through are segments of the peer.\<close>

definition hears :: "'k adapter_ops \<Rightarrow> session \<Rightarrow> bool" where
  "hears ops se \<longleftrightarrow>
     (\<forall>s seg s'. fd_num s (sg_adapter_fd s) = se_adapter_fd se \<longrightarrow> ao_read ops s = Inr (Some seg, s') \<longrightarrow>
        (\<exists>a. segment_of (se_in se) (se_peer se) a seg))"

text \<open>With less than half the sequence space, every number of the peer is near enough.\<close>

definition session_ok ::
  "('k, 'b) poll_kernel_scheme \<Rightarrow> ('k \<Rightarrow> u32 \<times> 'k) \<Rightarrow> ('k \<Rightarrow> int \<Rightarrow> bytes) \<Rightarrow> ('k \<Rightarrow> int \<Rightarrow> bytes) \<Rightarrow>
     'k adapter_ops \<Rightarrow> session \<Rightarrow> bool" where
  "session_ok sys rnd got sent ops se \<longleftrightarrow> adapter_env sys rnd got sent \<and> owner_writes sys got se \<and>
     hears ops se \<and> sizes_ok (se_out se) (se_in se) (se_config se) \<and> length (se_in se) + 2 < 2 ^ 31 \<and>
     se_thread se \<noteq> se_adapter se \<and> se_thread_fd se \<noteq> se_adapter_fd se"

text \<open>
  The invariant: the connection is one that the owner's bytes and the peer's segments lead to; what
  was read from the owner went into it, and what was read from it went to the owner.
\<close>

definition sponge_inv ::
  "('k, 'b) poll_kernel_scheme \<Rightarrow> ('k \<Rightarrow> u32 \<times> 'k) \<Rightarrow> ('k \<Rightarrow> int \<Rightarrow> bytes) \<Rightarrow> ('k \<Rightarrow> int \<Rightarrow> bytes) \<Rightarrow>
     'k adapter_ops \<Rightarrow> session \<Rightarrow> 'k sponge \<Rightarrow> bool" where
  "sponge_inv sys rnd got sent ops se s \<longleftrightarrow> session_ok sys rnd got sent ops se \<and>
     sg_thread_data s = se_thread se \<and> sg_adapter_fd s = se_adapter se \<and>
     fd_num s (se_thread se) = se_thread_fd se \<and> fd_num s (se_adapter se) = se_adapter_fd se \<and>
     \<not> FileDescriptor_closed s (se_thread se) \<and> (se_aborted se \<longrightarrow> sg_abort s) \<and>
     (FileDescriptor_eof s (se_thread se) \<longrightarrow> got (sy_kernel s) (se_thread_fd se) = se_out se) \<and>
     prefix (got (sy_kernel s) (se_thread_fd se)) (se_out se) \<and>
     (\<exists>c. sg_tcp s = Some c \<and>
        conn_reach (se_out se) (se_in se) (se_peer se) (se_config se) c (sent (sy_kernel s) (se_thread_fd se)) \<and>
        unat (bs_nwritten (sd_stream (cn_sender c))) = length (got (sy_kernel s) (se_thread_fd se)))"

definition sponge_rule ::
  "('k, 'b) socket_kernel_scheme \<Rightarrow> libc \<Rightarrow> 'k adapter_ops \<Rightarrow> WrappingInt32 \<Rightarrow> session \<Rightarrow> 'k sponge rule \<Rightarrow> bool" where
  "sponge_rule sys lc ops stale se r \<longleftrightarrow>
     (\<exists>s. sg_thread_data s = se_thread se \<and> sg_adapter_fd s = se_adapter se \<and>
        r \<in> set (socket_rules sys lc ops stale s))"

definition owner_finished :: "('k \<Rightarrow> int \<Rightarrow> bytes) \<Rightarrow> session \<Rightarrow> 'k sponge rule \<Rightarrow> 'k sponge \<Rightarrow> bool" where
  "owner_finished got se r s \<longleftrightarrow>
     (ru_fd r = se_thread se \<longrightarrow> ru_direction r = Direction_In \<longrightarrow>
        got (sy_kernel s) (se_thread_fd se) = se_out se)"

definition sponge_move ::
  "('k, 'b) poll_kernel_scheme \<Rightarrow> ('k \<Rightarrow> u32 \<times> 'k) \<Rightarrow> ('k \<Rightarrow> int \<Rightarrow> bytes) \<Rightarrow> ('k \<Rightarrow> int \<Rightarrow> bytes) \<Rightarrow>
     'k adapter_ops \<Rightarrow> session \<Rightarrow> 'k sponge \<Rightarrow> 'k sponge \<Rightarrow> bool" where
  "sponge_move sys rnd got sent ops se s s' \<longleftrightarrow> sponge_inv sys rnd got sent ops se s' \<and>
     (\<forall>h. fd_num s' h = fd_num s h) \<and>
     prefix (got (sy_kernel s) (se_thread_fd se)) (got (sy_kernel s') (se_thread_fd se))"

lemma sponge_moveI:
  assumes inv: "sponge_inv sys rnd got sent ops se s"
    and fds: "sg_thread_data s' = sg_thread_data s" "sg_adapter_fd s' = sg_adapter_fd s" "sg_abort s' = sg_abort s"
      "\<And>h. fd_num s' h = fd_num s h" "FileDescriptor_closed s' (se_thread se) = FileDescriptor_closed s (se_thread se)"
    and eof: "FileDescriptor_eof s' (se_thread se) \<Longrightarrow> got (sy_kernel s') (se_thread_fd se) = se_out se"
    and d: "got (sy_kernel s') (se_thread_fd se) = got (sy_kernel s) (se_thread_fd se) @ d"
      "prefix (got (sy_kernel s) (se_thread_fd se) @ d) (se_out se)"
    and c: "sg_tcp s' = Some c" "conn_reach (se_out se) (se_in se) (se_peer se) (se_config se) c
      (sent (sy_kernel s') (se_thread_fd se))"
      "unat (bs_nwritten (sd_stream (cn_sender c))) = length (got (sy_kernel s) (se_thread_fd se)) + length d"
  shows "sponge_move sys rnd got sent ops se s s'"
proof -
  have "session_ok sys rnd got sent ops se" using inv by (simp add: sponge_inv_def)
  with inv fds eof d c show ?thesis by (simp add: sponge_inv_def sponge_move_def)
qed

lemma sponge_inv_env:
  assumes "sponge_inv sys rnd got sent ops se s"
  shows "session_ok sys rnd got sent ops se" "adapter_env sys rnd got sent" "loop_kernel sys got sent"
    "stream_kernel sys got sent" "owner_writes sys got se" "hears ops se"
    "sizes_ok (se_out se) (se_in se) (se_config se)" "length (se_in se) + 2 < 2 ^ 31"
    "se_thread se \<noteq> se_adapter se" "se_thread_fd se \<noteq> se_adapter_fd se"
proof -
  show ok: "session_ok sys rnd got sent ops se" using assms by (simp add: sponge_inv_def)
  then show env: "adapter_env sys rnd got sent" and "owner_writes sys got se" "hears ops se"
    "sizes_ok (se_out se) (se_in se) (se_config se)" "length (se_in se) + 2 < 2 ^ 31"
    "se_thread se \<noteq> se_adapter se" "se_thread_fd se \<noteq> se_adapter_fd se"
    by (simp_all add: session_ok_def)
  from env show "loop_kernel sys got sent" by (simp add: adapter_env_def)
  then show "stream_kernel sys got sent" by (rule loop_kernel_laws)
qed

lemma sponge_inv_state:
  assumes "sponge_inv sys rnd got sent ops se s"
  shows "prefix (got (sy_kernel s) (se_thread_fd se)) (se_out se)"
    "sg_thread_data s = se_thread se" "sg_adapter_fd s = se_adapter se"
    "fd_num s (se_thread se) = se_thread_fd se" "fd_num s (se_adapter se) = se_adapter_fd se"
    "FileDescriptor_eof s (se_thread se) \<Longrightarrow> got (sy_kernel s) (se_thread_fd se) = se_out se"
    "\<not> FileDescriptor_closed s (se_thread se)" "se_aborted se \<Longrightarrow> sg_abort s"
  using assms unfolding sponge_inv_def by blast+

lemma sponge_inv_tcp:
  assumes "sponge_inv sys rnd got sent ops se s"
  obtains c where "sg_tcp s = Some c"
    "conn_reach (se_out se) (se_in se) (se_peer se) (se_config se) c (sent (sy_kernel s) (se_thread_fd se))"
    "unat (bs_nwritten (sd_stream (cn_sender c))) = length (got (sy_kernel s) (se_thread_fd se))"
    "cn_inv (se_out se) (se_in se) (se_peer se) c"
proof -
  obtain c where c: "sg_tcp s = Some c"
    "conn_reach (se_out se) (se_in se) (se_peer se) (se_config se) c (sent (sy_kernel s) (se_thread_fd se))"
    "unat (bs_nwritten (sd_stream (cn_sender c))) = length (got (sy_kernel s) (se_thread_fd se))"
    using assms unfolding sponge_inv_def by blast
  from c conn_reach_inv [OF c(2) sponge_inv_env(7) [OF assms]] that show thesis by blast
qed

section \<open>The rules keep the invariant\<close>

text \<open>What the rules do with the connection.\<close>

lemma pop_inbound_read:
  "TCPConnection_pop_inbound c n = fst (TCPConnection_read c n)"
  "snd (TCPConnection_read c n) = ByteStream_peek_output (TCPConnection_inbound_stream c) n"
  "TCPConnection_inbound_stream (TCPConnection_pop_inbound c n) = ByteStream_pop_output (TCPConnection_inbound_stream c) n"
  "cn_sender (TCPConnection_pop_inbound c n) = cn_sender c"
  by (simp_all add: TCPConnection_pop_inbound_def TCPConnection_read_def TCPReceiver_read_def reassembler_read_def
      ByteStream_read_def TCPConnection_inbound_stream_def tr_stream_defs Let_def)

text \<open>Rule 2 and its cancellation.\<close>

lemma owner_read:
  assumes inv: "sponge_inv sys rnd got sent ops se s"
    and r: "FileDescriptor_read sys (se_thread se) limit s = Inr (d, s')"
  shows "\<exists>k. s' = update_fd (se_thread se) (after_read limit d) (s\<lparr>sy_kernel := k\<rparr>) \<and> length d \<le> limit \<and>
    got k (se_thread_fd se) = got (sy_kernel s) (se_thread_fd se) @ d \<and>
    sent k (se_thread_fd se) = sent (sy_kernel s) (se_thread_fd se) \<and>
    prefix (got (sy_kernel s) (se_thread_fd se) @ d) (se_out se) \<and>
    (FileDescriptor_eof s' (se_thread se) \<longrightarrow> got k (se_thread_fd se) = se_out se)"
proof -
  note st = sponge_inv_state [OF inv]
  obtain rv e stored k where call:
    "k_read sys (sy_kernel s) (fd_num s (se_thread se)) (min BUFFER_SIZE limit) = ((rv, e), stored, k)"
    by (metis prod.collapse)
  note rv = stream_kernel_read [OF sponge_inv_env(4) [OF inv] call]
  have s': "\<not> rv < 0" "d = stored" "s' = update_fd (se_thread se) (after_read limit d) (s\<lparr>sy_kernel := k\<rparr>)"
    using r unfolding FileDescriptor_read_eq [OF sponge_inv_env(4) [OF inv] call] by (auto split: if_splits)
  have ow: "prefix (got (sy_kernel s) (se_thread_fd se) @ d) (se_out se)"
    "limit > 0 \<longrightarrow> rv = 0 \<longrightarrow> got (sy_kernel s) (se_thread_fd se) = se_out se"
    using sponge_inv_env(5) [OF inv] call s'(1,2) unfolding owner_writes_def st(4)
    by (fastforce simp: BUFFER_SIZE_def)+
  have g: "got k (se_thread_fd se) = got (sy_kernel s) (se_thread_fd se) @ d"
    "sent k (se_thread_fd se) = sent (sy_kernel s) (se_thread_fd se)" "length d = nat rv"
    using rv(5-7) s'(1,2) st(4) by simp_all
  have "FileDescriptor_eof s' (se_thread se) \<longrightarrow> got k (se_thread_fd se) = se_out se"
  proof
    assume "FileDescriptor_eof s' (se_thread se)"
    then have "FileDescriptor_eof s (se_thread se) \<or> limit > 0 \<and> d = []"
      by (simp add: s'(3) FileDescriptor_eof_def after_read_def)
    then have "got (sy_kernel s) (se_thread_fd se) = se_out se"
      using st(6) ow(2) g(3) s'(1) by auto
    then show "got k (se_thread_fd se) = se_out se" using g(1) ow(1) by (simp add: prefix_def)
  qed
  with s' ow(1) g rv(1) show ?thesis by (intro exI [of _ k]) auto
qed

lemma put_data_reach:
  assumes reach: "conn_reach out inn peer cfg c w" and len: "length out < 2 ^ 64"
    and got: "unat (bs_nwritten (sd_stream (cn_sender c))) = length g" "prefix (g @ d) out"
    and d: "length d \<le> unat (TCPConnection_remaining_outbound_capacity c)"
    and eof: "eof \<Longrightarrow> g @ d = out"
    and c': "c' = (if eof then TCPConnection_end_input_stream (fst (TCPConnection_write c d))
      else fst (TCPConnection_write c d))"
  shows "conn_reach out inn peer cfg c' w"
    "unat (bs_nwritten (sd_stream (cn_sender c'))) = length (g @ d)"
proof -
  let ?c = "fst (TCPConnection_write c d)"
  have "unat (bs_nwritten (sd_stream (cn_sender c))) + length d < 2 ^ 64"
    using prefix_length_le [OF got(2)] got(1) len by simp
  then have n: "unat (bs_nwritten (sd_stream (cn_sender ?c))) = length (g @ d)"
    using write_advances(2) [OF d] got(1) by simp
  have "take (length d) (drop (unat (bs_nwritten (sd_stream (cn_sender c)))) out) = d"
    using got(2) unfolding got(1) by (auto simp: prefix_def)
  then have "conn_reach out inn peer cfg ?c w"
    using conn_reach.step [OF reach conn_step.put, of d] by simp
  then show "conn_reach out inn peer cfg c' w"
    using conn_reach.step [OF _ conn_step.finish] n eof by (fastforce simp: c')
  show "unat (bs_nwritten (sd_stream (cn_sender c'))) = length (g @ d)"
    using n by (simp add: c' end_input_written)
qed

lemma rule2_move:
  assumes inv: "sponge_inv sys rnd got sent ops se s" and call: "socket_rule2_callback sys lc s = Inr s'"
  shows "sponge_move sys rnd got sent ops se s s'"
    "FileDescriptor_read_count s' (se_thread se) = FileDescriptor_read_count s (se_thread se) + 1"
proof -
  obtain c where c: "sg_tcp s = Some c"
    "conn_reach (se_out se) (se_in se) (se_peer se) (se_config se) c (sent (sy_kernel s) (se_thread_fd se))"
    "unat (bs_nwritten (sd_stream (cn_sender c))) = length (got (sy_kernel s) (se_thread_fd se))"
    using sponge_inv_tcp [OF inv] .
  note st = sponge_inv_state [OF inv]
  let ?limit = "unat (TCPConnection_remaining_outbound_capacity c)"
  obtain d s1 where r: "FileDescriptor_read sys (se_thread se) ?limit s = Inr (d, s1)"
    using call by (auto simp: socket_rule2_callback_def with_tcp_def c(1) st(2) obind_Inr_iff)
  obtain k where k: "s1 = update_fd (se_thread se) (after_read ?limit d) (s\<lparr>sy_kernel := k\<rparr>)" "length d \<le> ?limit"
    "got k (se_thread_fd se) = got (sy_kernel s) (se_thread_fd se) @ d"
    "sent k (se_thread_fd se) = sent (sy_kernel s) (se_thread_fd se)"
    "prefix (got (sy_kernel s) (se_thread_fd se) @ d) (se_out se)"
    "FileDescriptor_eof s1 (se_thread se) \<longrightarrow> got k (se_thread_fd se) = se_out se"
    using owner_read [OF inv r] by blast
  define c1 where "c1 = fst (TCPConnection_write c d)"
  define c2 where "c2 = (if FileDescriptor_eof s1 (se_thread se) then TCPConnection_end_input_stream c1 else c1)"
  have "length (se_out se) < 2 ^ 64" using sponge_inv_env(7) [OF inv] by (simp add: sizes_ok_def)
  note put = put_data_reach [OF c(2) this c(3) k(5,2) _ c2_def [unfolded c1_def]]
  obtain b where s': "s' = s1\<lparr>sg_tcp := Some c2, sg_outbound_shutdown := b\<rparr>"
  proof -
    have "sg_thread_data s1 = se_thread se" using st(2) by (simp add: k(1) update_fd_def)
    then have "s' = s1\<lparr>sg_tcp := Some c2\<rparr> \<or> s' = s1\<lparr>sg_tcp := Some c2, sg_outbound_shutdown := True\<rparr>"
      using call r by (auto simp: socket_rule2_callback_def with_tcp_def c(1) st(2) obind_Inr_iff Let_def
          case_prod_beta c1_def c2_def split: if_splits)
    with that [of "sg_outbound_shutdown s1"] that [of True] show thesis by auto
  qed
  have "FileDescriptor_eof s' (se_thread se) = FileDescriptor_eof s1 (se_thread se)"
    by (simp add: s' FileDescriptor_eof_def)
  then show "sponge_move sys rnd got sent ops se s s'"
    using put k(3-6)
    by (intro sponge_moveI [OF inv, where d = d and c = c2])
      (simp_all add: s' k(1) update_fd_def fd_num_def after_read_def FileDescriptor_closed_def)
  show "FileDescriptor_read_count s' (se_thread se) = FileDescriptor_read_count s (se_thread se) + 1"
    by (simp add: s' k(1) FileDescriptor_read_count_def after_read_def)
qed

lemma cancel2_move:
  assumes inv: "sponge_inv sys rnd got sent ops se s" and call: "socket_rule2_cancel s = Inr s'"
    and all: "got (sy_kernel s) (se_thread_fd se) = se_out se"
  shows "sponge_move sys rnd got sent ops se s s'"
proof -
  obtain c where c: "sg_tcp s = Some c"
    "conn_reach (se_out se) (se_in se) (se_peer se) (se_config se) c (sent (sy_kernel s) (se_thread_fd se))"
    "unat (bs_nwritten (sd_stream (cn_sender c))) = length (got (sy_kernel s) (se_thread_fd se))"
    using sponge_inv_tcp [OF inv] .
  have "conn_reach (se_out se) (se_in se) (se_peer se) (se_config se) (TCPConnection_end_input_stream c)
      (sent (sy_kernel s) (se_thread_fd se))"
    using conn_reach.step [OF c(2) conn_step.finish] c(3) all by simp
  moreover have "s' = s\<lparr>sg_tcp := Some (TCPConnection_end_input_stream c), sg_outbound_shutdown := True\<rparr>"
    using call c(1) by (simp add: socket_rule2_cancel_def with_tcp_def)
  ultimately show ?thesis
    using c(3) all
    by (intro sponge_moveI [OF inv, where d = "[]" and c = "TCPConnection_end_input_stream c"])
      (simp_all add: fd_num_def FileDescriptor_closed_def end_input_written)
qed

text \<open>Rule 3.\<close>

lemma shutdown_when_over:
  fixes s :: "'k sponge"
  assumes kern: "loop_kernel sys got sent"
    and call: "(if over then obind (Socket_shutdown sys h SHUT_WR s) (\<lambda>s.
           obind (destination_text lc s) (\<lambda>_. Inr (s\<lparr>sg_inbound_shutdown := True\<rparr>)))
      else Inr s) = Inr s'"
  obtains k f b where "s' = (update_fd h f (s\<lparr>sy_kernel := k\<rparr>))\<lparr>sg_inbound_shutdown := b\<rparr>"
    "got k = got (sy_kernel s)" "sent k = sent (sy_kernel s)" "f = after_write \<or> f = (\<lambda>w. w)"
proof (cases over)
  case True
  with call obtain t where t: "Socket_shutdown sys h SHUT_WR s = Inr t" "s' = t\<lparr>sg_inbound_shutdown := True\<rparr>"
    by (auto simp: obind_Inr_iff)
  from Socket_shutdown_spec [OF kern t(1)] t(2) show thesis by (auto intro: that)
next
  case False
  with call show thesis
    by (intro that [where f = "\<lambda>w. w" and k = "sy_kernel s" and b = "sg_inbound_shutdown s"]) (simp_all add: update_fd_def)
qed

lemma take_data_reach:
  assumes reach: "conn_reach out inn peer cfg c w" and wf: "bs_wf (TCPConnection_inbound_stream c)"
    and n: "n \<le> length (bs_buffer (TCPConnection_inbound_stream c))"
  shows "conn_reach out inn peer cfg (TCPConnection_pop_inbound c (word_of_nat n))
    (w @ take n (bs_buffer (TCPConnection_inbound_stream c)))"
proof -
  let ?b = "TCPConnection_inbound_stream c" and ?n = "word_of_nat n :: u64"
  have "length (bs_buffer ?b) < 2 ^ 64"
    using bs_wf_length [OF wf] unat_u64_less [of "bs_capacity ?b"] by simp
  then have "unat ?n = n" using n by (simp add: unat_of_nat)
  then have "snd (TCPConnection_read c ?n) = take n (bs_buffer ?b)"
    using wf by (simp add: pop_inbound_read stream_simps)
  then show ?thesis
    using conn_reach.step [OF reach conn_step.get [of c ?n _ "take n (bs_buffer ?b)"]]
    by (simp add: pop_inbound_read(1) prod_eq_iff)
qed

lemma rule3_move:
  assumes inv: "sponge_inv sys rnd got sent ops se s" and call: "socket_rule3_callback sys lc s = Inr s'"
  shows "sponge_move sys rnd got sent ops se s s'"
    "FileDescriptor_write_count s' (se_thread se) \<noteq> FileDescriptor_write_count s (se_thread se)"
proof -
  obtain c where c: "sg_tcp s = Some c"
    "conn_reach (se_out se) (se_in se) (se_peer se) (se_config se) c (sent (sy_kernel s) (se_thread_fd se))"
    "unat (bs_nwritten (sd_stream (cn_sender c))) = length (got (sy_kernel s) (se_thread_fd se))"
    "cn_inv (se_out se) (se_in se) (se_peer se) c"
    using sponge_inv_tcp [OF inv] .
  note st = sponge_inv_state [OF inv]
  let ?b = "TCPConnection_inbound_stream c"
  let ?data = "ByteStream_peek_output ?b (min 65536 (ByteStream_buffer_size ?b))"
  obtain n s1 where w: "FileDescriptor_write sys (se_thread se) (BufferViewList_of_string ?data) False s = Inr (n, s1)"
    using call by (auto simp: socket_rule3_callback_def with_tcp_def c(1) st(2) obind_Inr_iff Let_def)
  obtain k where k: "s1 = update_fd (se_thread se) after_write (s\<lparr>sy_kernel := k\<rparr>)" "got k = got (sy_kernel s)"
    "sent k = (sent (sy_kernel s))(se_thread_fd se := sent (sy_kernel s) (se_thread_fd se) @ take n (bs_buffer ?b))"
    "n \<le> length (bs_buffer ?b)"
    using write_from_stream [OF sponge_inv_env(4) [OF inv] conn_streams_wf(2) [OF c(4)] w] st(4) by auto
  define c1 where "c1 = TCPConnection_pop_inbound c (word_of_nat n)"
  have reach: "conn_reach (se_out se) (se_in se) (se_peer se) (se_config se) c1 (sent k (se_thread_fd se))"
    using take_data_reach [OF c(2) conn_streams_wf(2) [OF c(4)] k(4)] k(3) by (simp add: c1_def)
  let ?s1 = "s1\<lparr>sg_tcp := Some c1\<rparr>" and ?i = "TCPConnection_inbound_stream c1"
  have "sg_thread_data s1 = se_thread se" using st(2) by (simp add: k(1) update_fd_def)
  then have "(if ByteStream_eof ?i \<or> ByteStream_error ?i
      then obind (Socket_shutdown sys (se_thread se) SHUT_WR ?s1) (\<lambda>s.
           obind (destination_text lc s) (\<lambda>_. Inr (s\<lparr>sg_inbound_shutdown := True\<rparr>)))
      else Inr ?s1) = Inr s'"
    using call w by (simp add: socket_rule3_callback_def with_tcp_def c(1) st(2) Let_def c1_def cong: if_cong)
  then obtain k' f b where s':
    "s' = (update_fd (se_thread se) f (?s1\<lparr>sy_kernel := k'\<rparr>))\<lparr>sg_inbound_shutdown := b\<rparr>"
    "got k' = got k" "sent k' = sent k" "f = after_write \<or> f = (\<lambda>w. w)"
    by (rule shutdown_when_over [OF sponge_inv_env(3) [OF inv]]) (simp add: k(1))
  have f: "fd_fd (f w) = fd_fd w" "fd_eof (f w) = fd_eof w" "fd_closed (f w) = fd_closed w" for w
    using s'(4) by (auto simp: after_write_def)
  have "FileDescriptor_eof s' (se_thread se) = FileDescriptor_eof s (se_thread se)"
    by (simp add: s'(1) k(1) FileDescriptor_eof_def f after_write_def)
  then show "sponge_move sys rnd got sent ops se s s'"
    using k(2) s'(2,3) reach c(3) st(1,6)
    by (intro sponge_moveI [OF inv, where d = "[]" and c = c1])
      (simp_all add: s'(1) k(1) c1_def pop_inbound_read(4) update_fd_def fd_num_def after_write_def
        FileDescriptor_closed_def f)
  show "FileDescriptor_write_count s' (se_thread se) \<noteq> FileDescriptor_write_count s (se_thread se)"
    using s' by (auto simp: k(1) FileDescriptor_write_count_def after_write_def)
qed

text \<open>A step of the adapter, and a change of the connection that leaves the streams of the owner alone.\<close>

lemma sponge_adapter_move:
  assumes inv: "sponge_inv sys rnd got sent ops se s" and step: "adapter_step got sent s t"
    and s': "s' = t\<lparr>sg_tcp := Some c', sg_fully_acked := b\<rparr>"
    and c': "conn_reach (se_out se) (se_in se) (se_peer se) (se_config se) c' (sent (sy_kernel s) (se_thread_fd se))"
      "unat (bs_nwritten (sd_stream (cn_sender c'))) = length (got (sy_kernel s) (se_thread_fd se))"
  shows "sponge_move sys rnd got sent ops se s s'"
proof -
  note st = sponge_inv_state [OF inv] and fr = adapter_step_frame [OF step]
  have k: "got (sy_kernel t) (se_thread_fd se) = got (sy_kernel s) (se_thread_fd se)"
    "sent (sy_kernel t) (se_thread_fd se) = sent (sy_kernel s) (se_thread_fd se)"
    using fr(12) [of "se_thread_fd se"] st(3,5) sponge_inv_env(10) [OF inv] by simp_all
  have w: "sy_fds t (se_thread se) = sy_fds s (se_thread se)"
    using fr(11) st(3) sponge_inv_env(9) [OF inv] by simp
  have "fd_num s' h = fd_num s h" for h using fr(10) by (simp add: s' fd_num_def)
  then show ?thesis
    using k w fr(2,3,6) c' st(1,6)
    by (intro sponge_moveI [OF inv, where d = "[]" and c = c'])
      (simp_all add: s' FileDescriptor_closed_def FileDescriptor_eof_def)
qed

text \<open>A segment of the peer.\<close>

lemma sponge_segment:
  assumes inv: "sponge_inv sys rnd got sent ops se s" and c: "sg_tcp s = Some c"
    and seg: "segment_of (se_in se) (se_peer se) a seg"
  shows "\<exists>c'. TCPConnection_segment_received stale c seg = Inr c' \<and>
    conn_reach (se_out se) (se_in se) (se_peer se) (se_config se) c' (sent (sy_kernel s) (se_thread_fd se)) \<and>
    unat (bs_nwritten (sd_stream (cn_sender c'))) = length (got (sy_kernel s) (se_thread_fd se))"
proof -
  obtain "conn_reach (se_out se) (se_in se) (se_peer se) (se_config se) c (sent (sy_kernel s) (se_thread_fd se))"
    "unat (bs_nwritten (sd_stream (cn_sender c))) = length (got (sy_kernel s) (se_thread_fd se))"
    "cn_inv (se_out se) (se_in se) (se_peer se) c"
    using sponge_inv_tcp [OF inv] c by auto
  note c = this
  note near = peer_number_near [OF c(3) seg sponge_inv_env(8) [OF inv]]
  obtain c' where c': "TCPConnection_segment_received stale c seg = Inr c'"
    using segment_received_inv [OF c(3) seg near] by blast
  have "conn_reach (se_out se) (se_in se) (se_peer se) (se_config se) c' (sent (sy_kernel s) (se_thread_fd se))"
    using conn_reach.recv [OF c(1) seg near c'] .
  moreover have "cn_same c c'" using segment_received_same [OF c(3) seg near c'] .
  ultimately show ?thesis using c' c(2) by (simp add: cn_same_def)
qed

context datagram_link
begin

lemma rule1_move:
  assumes inv: "sponge_inv sys rnd got sent ops se s" and call: "socket_rule1_callback lc ops stale s = Inr s'"
  shows "sponge_move sys rnd got sent ops se s s'"
    "FileDescriptor_read_count s' (se_adapter se) = FileDescriptor_read_count s (se_adapter se) + 1"
proof -
  obtain c where c: "sg_tcp s = Some c"
    "conn_reach (se_out se) (se_in se) (se_peer se) (se_config se) c (sent (sy_kernel s) (se_thread_fd se))"
    "unat (bs_nwritten (sd_stream (cn_sender c))) = length (got (sy_kernel s) (se_thread_fd se))"
    using sponge_inv_tcp [OF inv] .
  note st = sponge_inv_state [OF inv]
  obtain seg t where t: "ao_read ops s = Inr (seg, t)" using call by (auto simp: socket_rule1_callback_def obind_Inr_iff)
  note step = read_step [OF sponge_inv_env(2) [OF inv] t]
  note fr = adapter_step_frame [OF conjunct1 [OF step]]
  obtain c' where c': "(case seg of None \<Rightarrow> Inr t
      | Some seg \<Rightarrow> with_tcp t (\<lambda>c. obind (TCPConnection_segment_received stale c seg) (\<lambda>c. Inr (t\<lparr>sg_tcp := Some c\<rparr>))))
      = Inr (t\<lparr>sg_tcp := Some c'\<rparr>)"
    "conn_reach (se_out se) (se_in se) (se_peer se) (se_config se) c' (sent (sy_kernel s) (se_thread_fd se))"
    "unat (bs_nwritten (sd_stream (cn_sender c'))) = length (got (sy_kernel s) (se_thread_fd se))"
  proof (cases seg)
    case None
    have "t\<lparr>sg_tcp := Some c\<rparr> = t" using fr(4) c(1) by simp
    with None that [of c] c(2,3) show thesis by simp
  next
    case (Some x)
    obtain a where "segment_of (se_in se) (se_peer se) a x"
      using sponge_inv_env(6) [OF inv] t st(3,5) Some unfolding hears_def by metis
    from sponge_segment [OF inv c(1) this, of stale] Some fr(4) c(1) that show thesis by (auto simp: with_tcp_def)
  qed
  obtain b where s': "s' = t\<lparr>sg_tcp := Some c', sg_fully_acked := b\<rparr>"
  proof -
    have "s' = t\<lparr>sg_tcp := Some c'\<rparr> \<or> s' = t\<lparr>sg_tcp := Some c', sg_fully_acked := True\<rparr>"
      using call by (auto simp: socket_rule1_callback_def t c'(1) with_tcp_def obind_Inr_iff split: if_splits)
    with that [of "sg_fully_acked t"] that [of True] show thesis by auto
  qed
  show "sponge_move sys rnd got sent ops se s s'"
    using sponge_adapter_move [OF inv conjunct1 [OF step] s' c'(2,3)] .
  show "FileDescriptor_read_count s' (se_adapter se) = FileDescriptor_read_count s (se_adapter se) + 1"
    using step st(3) by (simp add: s' FileDescriptor_read_count_def)
qed

lemma rule4_move:
  assumes inv: "sponge_inv sys rnd got sent ops se s" and call: "socket_rule4_callback ops s = Inr s'"
  shows "sponge_move sys rnd got sent ops se s s'" "\<not> socket_rule4_interest s'"
proof -
  obtain c where c: "sg_tcp s = Some c"
    "conn_reach (se_out se) (se_in se) (se_peer se) (se_config se) c (sent (sy_kernel s) (se_thread_fd se))"
    "unat (bs_nwritten (sd_stream (cn_sender c))) = length (got (sy_kernel s) (se_thread_fd se))"
    using sponge_inv_tcp [OF inv] .
  let ?c = "c\<lparr>cn_segments_out := []\<rparr>"
  have "flush_segments ops (cn_segments_out c) s = Inr s'" using call c(1) by (simp add: socket_rule4_callback_def with_tcp_def)
  then obtain t where t: "adapter_step got sent s t" "s' = t\<lparr>sg_tcp := Some ?c\<rparr>"
    using flush_step [OF sponge_inv_env(2) [OF inv] _ c(1)] by blast
  have "conn_reach (se_out se) (se_in se) (se_peer se) (se_config se) ?c (sent (sy_kernel s) (se_thread_fd se))"
    using conn_reach.step [OF c(2) conn_step.take [of _ c "length (cn_segments_out c)"]] by simp
  then show "sponge_move sys rnd got sent ops se s s'"
    by (rule sponge_adapter_move [OF inv t(1), where b = "sg_fully_acked t", rotated]) (simp_all add: t(2) c(3))
  show "\<not> socket_rule4_interest s'" by (simp add: t(2) socket_rule4_interest_def)
qed

end

text \<open>No callback and no cancellation ends with an internal fault.\<close>

lemma with_tcp_avoids:
  assumes "sponge_inv sys rnd got sent ops se s" "\<And>c. sg_tcp s = Some c \<Longrightarrow> avoids (f c)"
  shows "avoids (with_tcp s f)"
  using sponge_inv_tcp [OF assms(1)] assms(2) by (metis with_tcp_def option.simps(5))

lemma destination_text_avoids [avoids_intros]: "avoids (destination_text lc s)"
  unfolding destination_text_def by (intro avoids_intros)

lemma rule2_avoids:
  assumes inv: "sponge_inv sys rnd got sent ops se s"
  shows "avoids (socket_rule2_callback sys lc s)"
  unfolding socket_rule2_callback_def
proof (rule with_tcp_avoids [OF inv], intro avoids_intros, goal_cases)
  case (1 c x d s1 c1 n)
  obtain "unat (bs_nwritten (sd_stream (cn_sender c))) = length (got (sy_kernel s) (se_thread_fd se))"
    using sponge_inv_tcp [OF inv] 1(1) by auto
  note n = this
  note st = sponge_inv_state [OF inv]
  have r: "FileDescriptor_read sys (se_thread se) (unat (TCPConnection_remaining_outbound_capacity c)) s = Inr (d, s1)"
    using 1 st(2) by simp
  have d: "length d \<le> unat (TCPConnection_remaining_outbound_capacity c)"
    "prefix (got (sy_kernel s) (se_thread_fd se) @ d) (se_out se)"
    using owner_read [OF inv r] by auto
  moreover have "length (se_out se) < 2 ^ 64" using sponge_inv_env(7) [OF inv] by (simp add: sizes_ok_def)
  ultimately have "unat (bs_nwritten (sd_stream (cn_sender c))) + length d < 2 ^ 64"
    using prefix_length_le [OF d(2)] n by simp
  then have "snd (TCPConnection_write c d) = size_u64 d"
    using write_advances(1) [OF d(1)] unat_size_u64 [of d] by (simp add: word_unat_eq_iff)
  with 1 show ?case by simp
qed

lemma rule3_avoids:
  assumes inv: "sponge_inv sys rnd got sent ops se s"
  shows "avoids (socket_rule3_callback sys lc s)"
  unfolding socket_rule3_callback_def by (rule with_tcp_avoids [OF inv]) (intro avoids_intros)

lemma cancel2_avoids:
  assumes inv: "sponge_inv sys rnd got sent ops se s"
  shows "avoids (socket_rule2_cancel s)"
  unfolding socket_rule2_cancel_def by (rule with_tcp_avoids [OF inv]) (intro avoids_intros)

context datagram_link
begin

lemma rule1_avoids:
  assumes inv: "sponge_inv sys rnd got sent ops se s"
  shows "avoids (socket_rule1_callback lc ops stale s)"
proof -
  obtain c where c: "sg_tcp s = Some c" using sponge_inv_tcp [OF inv] .
  note st = sponge_inv_state [OF inv]
  have seg: "avoids (case seg of None \<Rightarrow> Inr t
      | Some seg \<Rightarrow> with_tcp t (\<lambda>c. obind (TCPConnection_segment_received stale c seg) (\<lambda>c. Inr (t\<lparr>sg_tcp := Some c\<rparr>))))"
    if t: "ao_read ops s = Inr (seg, t)" for seg t
  proof (cases seg)
    case (Some x)
    obtain a where "segment_of (se_in se) (se_peer se) a x"
      using sponge_inv_env(6) [OF inv] t st(3,5) Some unfolding hears_def by metis
    moreover have "sg_tcp t = Some c"
      using adapter_step_frame(4) [OF conjunct1 [OF read_step [OF sponge_inv_env(2) [OF inv] t]]] c by simp
    moreover obtain c' where "TCPConnection_segment_received stale c x = Inr c'"
      using sponge_segment [OF inv c calculation(1), of stale] by blast
    ultimately show ?thesis using Some by (auto simp: with_tcp_def intro!: avoids_intros)
  qed (simp add: avoids_intros)
  have tcp: "\<exists>c. sg_tcp u = Some c"
    if t: "ao_read ops s = Inr (seg, t)" and u: "(case seg of None \<Rightarrow> Inr t
      | Some seg \<Rightarrow> with_tcp t (\<lambda>c. obind (TCPConnection_segment_received stale c seg) (\<lambda>c. Inr (t\<lparr>sg_tcp := Some c\<rparr>))))
      = Inr u" for seg t u
    using adapter_step_frame(4) [OF conjunct1 [OF read_step [OF sponge_inv_env(2) [OF inv] t]]] c u
    by (auto simp: with_tcp_def obind_Inr_iff split: option.splits)
  show ?thesis
    unfolding socket_rule1_callback_def
  proof (intro avoids_obind avoids_prod avoids_if, goal_cases)
    case (2 x seg t)
    with seg show ?case by simp
  next
    case (3 x seg t u)
    then obtain c where "sg_tcp u = Some c" using tcp by force
    then show ?case by (auto simp: with_tcp_def intro!: avoids_intros)
  qed (auto intro: avoids_intros no_internal_fault)
qed

lemma rule4_avoids:
  assumes inv: "sponge_inv sys rnd got sent ops se s"
  shows "avoids (socket_rule4_callback ops s)"
  unfolding socket_rule4_callback_def by (rule with_tcp_avoids [OF inv]) (rule flush_avoids)

end

section \<open>The contract of the event loop\<close>

lemma sponge_rule_cases:
  assumes "sponge_rule sys lc ops stale se r"
  obtains "r = \<lparr>ru_fd = se_adapter se, ru_direction = Direction_In, ru_callback = socket_rule1_callback lc ops stale,
      ru_interest = socket_rule1_interest, ru_cancel = Inr\<rparr>"
  | "r = \<lparr>ru_fd = se_thread se, ru_direction = Direction_In, ru_callback = socket_rule2_callback sys lc,
      ru_interest = socket_rule2_interest, ru_cancel = socket_rule2_cancel\<rparr>"
  | "r = \<lparr>ru_fd = se_thread se, ru_direction = Direction_Out, ru_callback = socket_rule3_callback sys lc,
      ru_interest = socket_rule3_interest, ru_cancel = Inr\<rparr>"
  | "r = \<lparr>ru_fd = se_adapter se, ru_direction = Direction_Out, ru_callback = socket_rule4_callback ops,
      ru_interest = socket_rule4_interest, ru_cancel = Inr\<rparr>"
  using assms by (auto simp: sponge_rule_def socket_rules_def add_rule_def FileDescriptor_duplicate_def)

lemma sponge_polled:
  assumes inv: "sponge_inv sys rnd got sent ops se s" and call: "k_poll sys (sy_kernel s) pfs t = (x, pfs', k)"
  shows "sponge_inv sys rnd got sent ops se (s\<lparr>sy_kernel := k\<rparr>)"
proof -
  have "got k = got (sy_kernel s)" "sent k = sent (sy_kernel s)"
    using loop_kernel_laws(6) [OF sponge_inv_env(3) [OF inv] call] by simp_all
  with inv show ?thesis by (simp add: sponge_inv_def fd_num_def FileDescriptor_closed_def FileDescriptor_eof_def)
qed

lemma sponge_hangup:
  assumes inv: "sponge_inv sys rnd got sent ops se s" and call: "k_poll sys (sy_kernel s) pfs t = (x, pfs', k)"
    and i: "i < length pfs'" "i < length pfs" "pf_fd (pfs ! i) = fd_num s (ru_fd r)"
      "pf_events (pfs ! i) \<in> {0, direction_events (ru_direction r)}" "bare_hangup (pfs' ! i)"
  shows "owner_finished got se r (s\<lparr>sy_kernel := k\<rparr>)"
proof -
  note laws = loop_kernel_laws(6) [OF sponge_inv_env(3) [OF inv] call]
  then have "pf_events (pfs' ! i) = pf_events (pfs ! i)"
    using i(1,2) by (metis nth_map)
  then have "pf_events (pfs ! i) = direction_events (ru_direction r)"
    using i(4,5) by (auto simp: bare_hangup_def)
  then show ?thesis
    using sponge_inv_env(5) [OF inv] call i laws sponge_inv_state(4) [OF inv]
    unfolding owner_writes_def owner_finished_def by (metis direction_events.simps(1) system.select_convs(1) system.surjective system.update_convs(1))
qed

context datagram_link
begin

lemma callback_move:
  assumes "sponge_inv sys rnd got sent ops se s" "sponge_rule sys lc ops stale se r" "ru_callback r s = Inr s'"
  shows "sponge_move sys rnd got sent ops se s s' \<and>
    (Rule_service_count s' r \<noteq> Rule_service_count s r \<or> \<not> ru_interest r s')"
  using assms(2)
proof (cases rule: sponge_rule_cases)
  case 1
  then show ?thesis using rule1_move [OF assms(1)] assms(3) by (simp add: Rule_service_count_def)
next
  case 2
  then show ?thesis using rule2_move [OF assms(1)] assms(3) by (simp add: Rule_service_count_def)
next
  case 3
  then show ?thesis using rule3_move [OF assms(1)] assms(3) by (simp add: Rule_service_count_def)
next
  case 4
  then show ?thesis using rule4_move [OF assms(1)] assms(3) by simp
qed

lemma move_refl: "sponge_inv sys rnd got sent ops se s \<Longrightarrow> sponge_move sys rnd got sent ops se s s"
  by (simp add: sponge_move_def)

lemma cancel_move:
  assumes "sponge_inv sys rnd got sent ops se s" "sponge_rule sys lc ops stale se r" "ru_cancel r s = Inr s'"
    and "owner_finished got se r s"
  shows "sponge_move sys rnd got sent ops se s s'"
  using assms(2)
proof (cases rule: sponge_rule_cases)
  case 2
  then show ?thesis using cancel2_move [OF assms(1)] assms(3,4) by (simp add: owner_finished_def)
qed (use assms(1,3) move_refl in auto)

lemma rule_avoids:
  assumes "sponge_inv sys rnd got sent ops se s" "sponge_rule sys lc ops stale se r"
  shows "avoids (ru_callback r s)" "avoids (ru_cancel r s)"
  using assms(2) rule1_avoids [OF assms(1)] rule2_avoids [OF assms(1)] rule3_avoids [OF assms(1)]
    rule4_avoids [OF assms(1)] cancel2_avoids [OF assms(1)]
  by (cases rule: sponge_rule_cases; simp add: avoids_basic)+

end

lemma cancel_same:
  assumes "sponge_rule sys lc ops stale se r" "ru_cancel r s = Inr s'"
  shows "sy_kernel s' = sy_kernel s" "fd_num s' h = fd_num s h"
  using assms(1)
  by (cases rule: sponge_rule_cases; use assms(2) in \<open>auto simp: socket_rule2_cancel_def with_tcp_def fd_num_def
      split: option.splits\<close>)+

sublocale datagram_link \<subseteq> thread: loop_rules sys "sponge_inv sys rnd got sent ops se"
  "sponge_rule sys lc ops stale se" "owner_finished got se" internal_faults for lc stale se
proof unfold_locales
  fix s r
  assume inv: "sponge_inv sys rnd got sent ops se s" and "sponge_rule sys lc ops stale se r"
    and "ru_direction r = Direction_In \<and> FileDescriptor_eof s (ru_fd r) \<or> FileDescriptor_closed s (ru_fd r)"
  then show "owner_finished got se r s"
    using sponge_inv_state(6,7) [OF inv] by (auto simp: owner_finished_def)
next
  fix s r r' s'
  assume inv: "sponge_inv sys rnd got sent ops se s" and r: "sponge_rule sys lc ops stale se r"
    and "sponge_rule sys lc ops stale se r'" and c: "ru_callback r s = Inr s' \<or> ru_cancel r s = Inr s'"
  have *: "(\<forall>h. fd_num s' h = fd_num s h) \<and>
    (got (sy_kernel s) (se_thread_fd se) = se_out se \<longrightarrow> got (sy_kernel s') (se_thread_fd se) = se_out se)"
    using c
  proof
    assume "ru_callback r s = Inr s'"
    then have m: "sponge_move sys rnd got sent ops se s s'" using callback_move [OF inv r] by blast
    then have "prefix (got (sy_kernel s') (se_thread_fd se)) (se_out se)"
      using sponge_inv_state(1) by (auto simp: sponge_move_def)
    with m show ?thesis by (auto simp: sponge_move_def intro: prefix_order.antisym)
  qed (use cancel_same [OF r] in auto)
  then show "fd_num s' (ru_fd r') = fd_num s (ru_fd r')" by blast
  from * show "owner_finished got se r' s'" if "owner_finished got se r' s"
    using that by (auto simp: owner_finished_def)
next
  fix s r e
  assume "sponge_inv sys rnd got sent ops se s" "sponge_rule sys lc ops stale se r" "e \<in> internal_faults"
  then show "ru_callback r s \<noteq> Inl e \<and> ru_cancel r s \<noteq> Inl e"
    using rule_avoids [of se s lc stale r] by (simp add: avoids_def)
qed (auto simp: internal_faults_def polled_fault_def fault_defs intro: sponge_polled sponge_hangup
  dest: callback_move cancel_move [rotated 3] simp: sponge_move_def)

section \<open>The loop of the thread\<close>

lemma tick_move:
  assumes inv: "sponge_inv sys rnd got sent ops se s"
  shows "\<exists>base' s'. tcp_loop_tick sys base s = Inr (base', s') \<and> sponge_move sys rnd got sent ops se s s'"
proof -
  obtain c where c: "sg_tcp s = Some c"
    "conn_reach (se_out se) (se_in se) (se_peer se) (se_config se) c (sent (sy_kernel s) (se_thread_fd se))"
    "unat (bs_nwritten (sd_stream (cn_sender c))) = length (got (sy_kernel s) (se_thread_fd se))"
    "cn_inv (se_out se) (se_in se) (se_peer se) c"
    using sponge_inv_tcp [OF inv] .
  note st = sponge_inv_state [OF inv]
  show ?thesis
  proof (cases "TCPConnection_active c")
    case False
    then show ?thesis using inv by (simp add: tcp_loop_tick_def with_tcp_def c(1) sponge_move_def)
  next
    case True
    obtain now k where k: "k_timestamp_ms sys (sy_kernel s) = (now, k)" by (metis prod.collapse)
    obtain c' where c': "TCPConnection_tick c (now - base) = Inr c'" using connection_tick_inv [OF c(4)] by blast
    have "conn_reach (se_out se) (se_in se) (se_peer se) (se_config se) c' (sent (sy_kernel s) (se_thread_fd se))"
      using conn_reach.step [OF c(2) conn_step.tick [OF c']] by simp
    moreover have "bs_nwritten (sd_stream (cn_sender c')) = bs_nwritten (sd_stream (cn_sender c))"
      using connection_tick_same [OF c'] by (simp add: cn_same_def)
    moreover have "got k = got (sy_kernel s)" "sent k = sent (sy_kernel s)"
      using loop_kernel_laws(5) [OF sponge_inv_env(3) [OF inv] k] by simp_all
    ultimately have "sponge_move sys rnd got sent ops se s (s\<lparr>sy_kernel := k, sg_tcp := Some c',
        sg_adapter := FdAdapter_tick (sg_adapter s) (now - base)\<rparr>)"
      using c(3) st(1,6) by (intro sponge_moveI [OF inv, where d = "[]" and c = c'])
        (simp_all add: fd_num_def FileDescriptor_closed_def FileDescriptor_eof_def)
    then show ?thesis using True by (simp add: tcp_loop_tick_def with_tcp_def c(1) timestamp_ms_def k c')
  qed
qed

text \<open>
  What the loop reaches: it waits and lets time pass, first in the owner's thread, then in one of its
  own, which the owner may ask to stop at any moment.
\<close>

inductive thread_reach ::
  "('k, 'b) poll_kernel_scheme \<Rightarrow> 'k sponge rule list \<Rightarrow> 'k sponge \<Rightarrow> 'k sponge rule list \<Rightarrow> 'k sponge \<Rightarrow> bool"
  for sys rules s where
  start: "thread_reach sys rules s rules s"
| wait: "thread_reach sys rules s rules1 s1 \<Longrightarrow> wait_next_event sys TCP_TICK_MS rules1 s1 = Inr (res, rules2, s2) \<Longrightarrow>
    thread_reach sys rules s rules2 s2"
| tick: "thread_reach sys rules s rules1 s1 \<Longrightarrow> tcp_loop_tick sys base s1 = Inr (base', s2) \<Longrightarrow>
    thread_reach sys rules s rules1 s2"
| clock: "thread_reach sys rules s rules1 s1 \<Longrightarrow> timestamp_ms sys s1 = (now, s2) \<Longrightarrow> thread_reach sys rules s rules1 s2"
| spawn: "thread_reach sys rules s rules1 s1 \<Longrightarrow> thread_reach sys rules s rules1 (s1\<lparr>sg_tcp_thread := True\<rparr>)"
| abort: "thread_reach sys rules s rules1 s1 \<Longrightarrow> thread_reach sys rules s rules1 (s1\<lparr>sg_abort := True\<rparr>)"

lemma sponge_abort:
  "sponge_inv sys rnd got sent ops se s \<Longrightarrow> sponge_inv sys rnd got sent ops se (s\<lparr>sg_abort := True\<rparr>)"
  by (simp add: sponge_inv_def fd_num_def FileDescriptor_closed_def FileDescriptor_eof_def)

lemma sponge_spawn:
  "sponge_inv sys rnd got sent ops se s \<Longrightarrow> sponge_inv sys rnd got sent ops se (s\<lparr>sg_tcp_thread := b\<rparr>)"
  by (simp add: sponge_inv_def fd_num_def FileDescriptor_closed_def FileDescriptor_eof_def)

lemma sponge_clock:
  assumes inv: "sponge_inv sys rnd got sent ops se s" and t: "timestamp_ms sys s = (now, s')"
  shows "sponge_inv sys rnd got sent ops se s'"
proof -
  obtain k where k: "k_timestamp_ms sys (sy_kernel s) = (now, k)" "s' = s\<lparr>sy_kernel := k\<rparr>"
    using t by (auto simp: timestamp_ms_def split: prod.splits)
  with inv loop_kernel_laws(5) [OF sponge_inv_env(3) [OF inv] k(1)] show ?thesis
    by (simp add: sponge_inv_def fd_num_def FileDescriptor_closed_def FileDescriptor_eof_def)
qed

context datagram_link
begin

lemma thread_reach_inv:
  assumes "thread_reach sys rules s rules' s'" "sponge_inv sys rnd got sent ops se s"
    "list_all (sponge_rule sys lc ops stale se) rules"
  shows "sponge_inv sys rnd got sent ops se s' \<and> list_all (sponge_rule sys lc ops stale se) rules'"
  using assms
proof (induction rule: thread_reach.induct)
  case (wait rules1 s1 res rules2 s2)
  then have "sponge_inv sys rnd got sent ops se s2" "subseq rules2 rules1"
    using thread.wait_keeps(2) [of se s1 lc stale rules1] by blast+
  with wait thread.subseq_list_all show ?case by blast
next
  case (tick rules1 s1 base base' s2)
  then show ?case using tick_move [of sys rnd got sent ops se s1 base] by (auto simp: sponge_move_def)
next
  case (clock rules1 s1 now s2)
  then show ?case using sponge_clock by blast
next
  case (spawn rules1 s1)
  then show ?case using sponge_spawn by blast
next
  case (abort rules1 s1)
  then show ?case using sponge_abort by blast
qed simp

lemma thread_safe:
  assumes "sponge_inv sys rnd got sent ops se s" "list_all (sponge_rule sys lc ops stale se) rules"
  shows "avoids (wait_next_event sys TCP_TICK_MS rules s)" "avoids (tcp_loop_tick sys base s)"
  using thread.wait_keeps(1) [OF assms] tick_move [OF assms(1), of base] by (auto simp: avoids_def)

end

text \<open>The loop only goes where the thread goes, and returns with a fault only where a step does.\<close>

lemma thread_reach_trans:
  "thread_reach sys rules1 s1 rules2 s2 \<Longrightarrow> thread_reach sys rules s rules1 s1 \<Longrightarrow> thread_reach sys rules s rules2 s2"
  by (induction rule: thread_reach.induct) (auto intro: thread_reach.intros)

definition loop_ends ::
  "('k, 'b) poll_kernel_scheme \<Rightarrow> 'k sponge rule list \<Rightarrow> 'k sponge \<Rightarrow> ('k sponge rule list \<times> 'k sponge) outcome \<Rightarrow> bool" where
  "loop_ends sys rules s r \<longleftrightarrow>
     (\<exists>rules' s'. thread_reach sys rules s rules' s' \<and>
        (case r of Inr (rules1, s1) \<Rightarrow> rules1 = rules' \<and> s1 = s'
         | Inl e \<Rightarrow> wait_next_event sys TCP_TICK_MS rules' s' = Inl e \<or> (\<exists>base. tcp_loop_tick sys base s' = Inl e)))"

lemma loop_ends_later:
  "thread_reach sys rules s rules1 s1 \<Longrightarrow> loop_ends sys rules1 s1 r \<Longrightarrow> loop_ends sys rules s r"
  unfolding loop_ends_def using thread_reach_trans by blast

lemma loop_round_ends:
  assumes x: "wait_next_event sys TCP_TICK_MS rules s = Inr (ret, rules1, s1)"
    and out: "(if ret = Result_Exit \<or> sg_abort s1 then Some (Inr (rules1, s1))
      else (case tcp_loop_tick sys base s1 of
              Inl e \<Rightarrow> Some (Inl e)
            | Inr (base, s) \<Rightarrow> f base rules1 s)) = Some r"
    and later: "\<And>base s2. f base rules1 s2 = Some r \<Longrightarrow> loop_ends sys rules1 s2 r"
  shows "loop_ends sys rules s r"
proof -
  have "loop_ends sys rules1 s1 r"
  proof (cases "ret = Result_Exit \<or> sg_abort s1")
    case True
    with out have "r = Inr (rules1, s1)" by (auto split: if_splits)
    then show ?thesis using thread_reach.start [of sys rules1 s1] by (auto simp: loop_ends_def)
  next
    case False
    show ?thesis
    proof (cases "tcp_loop_tick sys base s1")
      case (Inl e)
      with out False have "r = Inl e" by auto
      then show ?thesis using thread_reach.start [of sys rules1 s1] Inl by (auto simp: loop_ends_def)
    next
      case (Inr y)
      obtain base2 s2 where y: "tcp_loop_tick sys base s1 = Inr (base2, s2)" using Inr by (cases y) simp
      with out False have "f base2 rules1 s2 = Some r" by auto
      then show ?thesis using later loop_ends_later [OF thread_reach.tick [OF thread_reach.start y]] by blast
    qed
  qed
  then show ?thesis using loop_ends_later [OF thread_reach.wait [OF thread_reach.start x]] by blast
qed

lemma tcp_loop_from_ends:
  assumes "tcp_loop_from sys condition base rules s = Some r"
  shows "loop_ends sys rules s r"
  using assms
proof (rule tcp_loop_from.raw_induct [rotated])
  fix f :: "('a, 'b) poll_kernel_scheme \<Rightarrow> ('a sponge \<Rightarrow> bool) \<Rightarrow> u64 \<Rightarrow> 'a sponge rule list \<Rightarrow> 'a sponge \<Rightarrow>
    ('a sponge rule list \<times> 'a sponge) outcome option" and sys condition base rules s r
  assume IH: "\<And>sys condition base rules s r. f sys condition base rules s = Some r \<Longrightarrow> loop_ends sys rules s r"
    and step: "(if \<not> condition s then Some (Inr (rules, s))
      else case wait_next_event sys TCP_TICK_MS rules s of
        Inl e \<Rightarrow> Some (Inl e)
      | Inr (ret, rules, s) \<Rightarrow>
          if ret = Result_Exit \<or> sg_abort s then Some (Inr (rules, s))
          else (case tcp_loop_tick sys base s of
                  Inl e \<Rightarrow> Some (Inl e)
                | Inr (base, s) \<Rightarrow> f sys condition base rules s)) = Some r"
  show "loop_ends sys rules s r"
  proof (cases "wait_next_event sys TCP_TICK_MS rules s")
    case (Inl e)
    with step have "r = Inr (rules, s) \<or> r = Inl e" by (auto split: if_splits)
    then show ?thesis using thread_reach.start [of sys rules s] Inl by (fastforce simp: loop_ends_def)
  next
    case (Inr x)
    obtain ret rules1 s1 where x: "wait_next_event sys TCP_TICK_MS rules s = Inr (ret, rules1, s1)"
      using Inr by (cases x) simp
    show ?thesis
    proof (cases "condition s")
      case True
      with step x show ?thesis
        by (intro loop_round_ends [where f = "f sys condition", OF x _ IH]) simp_all
    next
      case False
      with step show ?thesis using thread_reach.start [of sys rules s] by (auto simp: loop_ends_def)
    qed
  qed
qed

lemma tcp_loop_ends: "tcp_loop sys condition rules s = Some r \<Longrightarrow> loop_ends sys rules s r"
  unfolding tcp_loop_def
  using tcp_loop_from_ends loop_ends_later [OF thread_reach.clock [OF thread_reach.start]]
  by (fastforce split: prod.splits)

section \<open>Sessions from their start\<close>

text \<open>The four kinds of sockets.\<close>

definition sponge_adapters ::
  "('k, 'b) poll_kernel_scheme \<Rightarrow> libc \<Rightarrow> ('k \<Rightarrow> u32 \<times> 'k) \<Rightarrow> 'k adapter_ops set" where
  "sponge_adapters sys lc rnd = {udp_ops sys lc, tun_ops sys lc, lossy_ops rnd (udp_ops sys lc), lossy_ops rnd (tun_ops sys lc)}"

lemma sponge_adapters_link: "ops \<in> sponge_adapters sys lc rnd \<Longrightarrow> datagram_link sys rnd got sent ops"
  using tun_link.datagram_link_axioms udp_link.datagram_link_axioms lossy_tun.datagram_link_axioms
    lossy_udp.datagram_link_axioms by (auto simp: sponge_adapters_def)

text \<open>A socket before it is connected: nothing has been transferred on the pair.\<close>

definition idle_socket :: "('k \<Rightarrow> int \<Rightarrow> bytes) \<Rightarrow> ('k \<Rightarrow> int \<Rightarrow> bytes) \<Rightarrow> session \<Rightarrow> 'k sponge \<Rightarrow> bool" where
  "idle_socket got sent se s \<longleftrightarrow> sg_tcp s = None \<and> sg_thread_data s = se_thread se \<and>
     sg_adapter_fd s = se_adapter se \<and> fd_num s (se_thread se) = se_thread_fd se \<and>
     fd_num s (se_adapter se) = se_adapter_fd se \<and> \<not> FileDescriptor_closed s (se_thread se) \<and>
     \<not> FileDescriptor_eof s (se_thread se) \<and> \<not> se_aborted se \<and>
     got (sy_kernel s) (se_thread_fd se) = [] \<and> sent (sy_kernel s) (se_thread_fd se) = []"

definition session_begins ::
  "('k, 'b) poll_kernel_scheme \<Rightarrow> libc \<Rightarrow> 'k adapter_ops \<Rightarrow> WrappingInt32 \<Rightarrow> tcp_config \<Rightarrow> fd_adapter_config \<Rightarrow>
     WrappingInt32 \<Rightarrow> 'k sponge \<Rightarrow> 'k sponge rule list \<Rightarrow> 'k sponge \<Rightarrow> bool" where
  "session_begins sys lc ops stale cfg c_ad isn s0 rules s \<longleftrightarrow>
     connect_begin sys lc ops stale cfg c_ad isn s0 = Inr (rules, s) \<or>
     listen_begin sys lc ops stale cfg c_ad isn s0 = Inr (rules, s)"

lemma session_begins_inv:
  assumes ok: "session_ok sys rnd got sent ops se" and idle: "idle_socket got sent se s0"
    and b: "session_begins sys lc ops stale (se_config se) c_ad isn s0 rules s"
  shows "sponge_inv sys rnd got sent ops se s" "list_all (sponge_rule sys lc ops stale se) rules"
proof -
  let ?c = "TCPConnection_new (se_config se) isn"
  have none: "sg_tcp s0 = None" using idle by (simp add: idle_socket_def)
  obtain c ad where s: "rules = socket_rules sys lc ops stale s0" "s = s0\<lparr>sg_adapter := ad, sg_tcp := Some c\<rparr>"
    "c = ?c \<or> c = TCPConnection_connect ?c"
  proof -
    let ?ad = "(sg_adapter s0)\<lparr>fb_cfg := c_ad\<rparr>"
    have "rules = socket_rules sys lc ops stale s0 \<and>
      (s = s0\<lparr>sg_adapter := ?ad, sg_tcp := Some (TCPConnection_connect ?c)\<rparr> \<or>
       s = s0\<lparr>sg_adapter := set_listening ?ad True, sg_tcp := Some ?c\<rparr>)"
      using b none by (auto simp: session_begins_def connect_begin_def listen_begin_def initialize_TCP_def
          set_adapter_config_def with_tcp_def Let_def obind_Inr_iff split: if_splits)
    with that show thesis by blast
  qed
  have new: "conn_reach (se_out se) (se_in se) (se_peer se) (se_config se) ?c []" by (rule conn_reach.start)
  then have "conn_reach (se_out se) (se_in se) (se_peer se) (se_config se) c []"
    using s(3) conn_reach.step [OF new conn_step.begin_conn] by auto
  moreover have "bs_nwritten (sd_stream (cn_sender ?c)) = 0"
    by (simp add: TCPConnection_new_def TCPSender_new_def ByteStream_new_def)
  then have "bs_nwritten (sd_stream (cn_sender c)) = 0"
    using s(3) connect_same [of ?c] by (auto simp: cn_same_def)
  ultimately show "sponge_inv sys rnd got sent ops se s"
    using ok idle by (simp add: sponge_inv_def idle_socket_def s(2) fd_num_def FileDescriptor_closed_def
        FileDescriptor_eof_def)
  show "list_all (sponge_rule sys lc ops stale se) rules"
    unfolding list_all_iff sponge_rule_def s(1) using idle by (auto simp: idle_socket_def)
qed

lemma session_thread:
  assumes "ops \<in> sponge_adapters sys lc rnd" "session_ok sys rnd got sent ops se" "idle_socket got sent se s0"
    and "session_begins sys lc ops stale (se_config se) c_ad isn s0 rules s" "thread_reach sys rules s rules' s'"
  shows "sponge_inv sys rnd got sent ops se s' \<and> list_all (sponge_rule sys lc ops stale se) rules'"
  using datagram_link.thread_reach_inv [OF sponge_adapters_link [OF assms(1)] assms(5)
      session_begins_inv [OF assms(2-4)]] .

text \<open>
  C2: The owner of a socket receives the stream of its peer, and sends its own.  Over UDP or over a TUN
  device, with or without random loss, at every moment after a connect or a listen: what the thread
  has written to the owner is a prefix of the peer's stream, it is all of it when the inbound stream
  has ended, and every segment that waits to be sent carries the owner's bytes at its number.
\<close>

theorem socket_delivers:
  assumes "ops \<in> sponge_adapters sys lc rnd" and "session_ok sys rnd got sent ops se"
    and "idle_socket got sent se s0"
    and "session_begins sys lc ops stale (se_config se) c_ad isn s0 rules s"
    and "thread_reach sys rules s rules' s'"
  shows "prefix (sent (sy_kernel s') (se_thread_fd se)) (se_in se) \<and>
    (\<exists>c. sg_tcp s' = Some c \<and>
       (ByteStream_eof (TCPConnection_inbound_stream c) \<longrightarrow> sent (sy_kernel s') (se_thread_fd se) = se_in se) \<and>
       (\<forall>seg \<in> set (cn_segments_out c). \<exists>a. segment_of (se_out se) (sd_isn (cn_sender c)) a seg))"
proof -
  have inv: "sponge_inv sys rnd got sent ops se s'" using session_thread [OF assms] by blast
  obtain c where c: "sg_tcp s' = Some c"
    "conn_reach (se_out se) (se_in se) (se_peer se) (se_config se) c (sent (sy_kernel s') (se_thread_fd se))"
    "cn_inv (se_out se) (se_in se) (se_peer se) c"
    using sponge_inv_tcp [OF inv] .
  let ?out = "sent (sy_kernel s') (se_thread_fd se)"
  have out: "?out = take (tr_nread (cn_receiver c)) (se_in se)"
    using conn_reach_inv [OF c(2) sponge_inv_env(7) [OF inv]] by blast
  have base: "cn_base (se_out se) (se_in se) (se_peer se) c" using c(3) by (simp add: cn_inv_def cn_core_def)
  have "ByteStream_eof (TCPConnection_inbound_stream c) \<Longrightarrow> ?out = se_in se"
    using tr_agrees_delivers(2) [of "se_in se" "se_peer se" "cn_receiver c"] base
    by (simp add: out cn_base_def TCPConnection_inbound_stream_def)
  moreover have "\<forall>seg \<in> set (cn_segments_out c). \<exists>a. segment_of (se_out se) (sd_isn (cn_sender c)) a seg"
    using base by (simp add: cn_base_def)
  ultimately show ?thesis using c(1) by (simp add: out take_is_prefix)
qed

lemma loop_ends_avoids:
  assumes "ops \<in> sponge_adapters sys lc rnd" "sponge_inv sys rnd got sent ops se s"
    and "list_all (sponge_rule sys lc ops stale se) rules" "loop_ends sys rules s r"
  shows "avoids r" "r = Inr (rules', s') \<Longrightarrow>
    sponge_inv sys rnd got sent ops se s' \<and> list_all (sponge_rule sys lc ops stale se) rules'"
proof -
  note link = sponge_adapters_link [OF assms(1)]
  obtain rules1 s1 where r1: "thread_reach sys rules s rules1 s1"
    "case r of Inr (rules2, s2) \<Rightarrow> rules2 = rules1 \<and> s2 = s1
     | Inl e \<Rightarrow> wait_next_event sys TCP_TICK_MS rules1 s1 = Inl e \<or> (\<exists>base. tcp_loop_tick sys base s1 = Inl e)"
    using assms(4) unfolding loop_ends_def by blast
  note inv = datagram_link.thread_reach_inv [OF link r1(1) assms(2,3)]
  from inv show "r = Inr (rules', s') \<Longrightarrow>
    sponge_inv sys rnd got sent ops se s' \<and> list_all (sponge_rule sys lc ops stale se) rules'"
    using r1(2) by simp
  show "avoids r"
    using r1(2) datagram_link.thread_safe [OF link conjunct1 [OF inv] conjunct2 [OF inv]]
    by (cases r) (auto simp: avoids_def)
qed

lemma destroy_returns: "\<exists>d. TCPConnection_destroy c = Inr d"
  by (simp add: TCPConnection_destroy_def unclean_shutdown_eq Let_def set_stream_errors_def
      TCPSender_send_empty_segment_def split: list.split)

lemma shutdown_tcp: "Socket_shutdown sys h how s = Inr s' \<Longrightarrow> sg_tcp s' = sg_tcp s"
  by (auto simp: Socket_shutdown_def checked_def obind_Inr_iff register_read_def register_write_def update_fd_def
      split: if_splits)

lemma tcp_main_avoids:
  assumes "ops \<in> sponge_adapters sys lc rnd" "sponge_inv sys rnd got sent ops se s"
    and "list_all (sponge_rule sys lc ops stale se) rules" "tcp_main sys rules s = Some r"
  shows "avoids r"
proof -
  obtain c where c: "sg_tcp s = Some c" using sponge_inv_tcp [OF assms(2)] .
  obtain r1 where r1: "tcp_loop sys (\<lambda>_. True) rules s = Some r1"
    using assms(4) c by (auto simp: tcp_main_def split: option.splits)
  note ends = loop_ends_avoids [OF assms(1-3) tcp_loop_ends [OF r1]]
  show ?thesis
  proof (cases r1)
    case (Inl e)
    then show ?thesis using assms(4) c r1 ends(1) by (simp add: tcp_main_def avoids_def)
  next
    case (Inr x)
    obtain rules1 s1 where x: "r1 = Inr (rules1, s1)" using Inr by (cases x) simp
    obtain c1 where c1: "sg_tcp s1 = Some c1" using sponge_inv_tcp conjunct1 [OF ends(2) [OF x]] by blast
    have r: "r = obind (Socket_shutdown sys (sg_owner s1) SHUT_RDWR s1) (\<lambda>s.
        with_tcp s (\<lambda>c. obind (TCPConnection_destroy c) (\<lambda>_. Inr (rules1, s\<lparr>sg_tcp := None\<rparr>))))"
      using assms(4) c r1 x by (simp add: tcp_main_def)
    have "avoids (with_tcp s (\<lambda>c. obind (TCPConnection_destroy c) (\<lambda>_. Inr (rules1, s\<lparr>sg_tcp := None\<rparr>))))"
      if "Socket_shutdown sys (sg_owner s1) SHUT_RDWR s1 = Inr s" for s
      using destroy_returns [of c1] shutdown_tcp [OF that] c1 by (auto simp: with_tcp_def intro!: avoids_intros)
    then show ?thesis unfolding r by (intro avoids_intros)
  qed
qed


text \<open>
  A socket that listens: the network delivers a SYN with one byte of data, again and again, polling
  finds ready whatever is asked for, and the owner has not written yet.
\<close>

definition greeting :: bytes where
  "greeting = [0, 0, 0, 0, 0, 0, 0, 9, 0, 0, 0, 0, 80, 2, 0, 0, 168, 244, 0, 0, 7]"

definition visitor_kernel :: "histories poll_kernel" where
  "visitor_kernel = \<lparr>
     k_read = (\<lambda>k fd n. ((- 1, 11), [], k)),
     k_writev = (\<lambda>(g, t) fd iov. let n = min 100 (length (iov_bytes iov)) in
       ((int n, 0), (g, t(fd := t fd @ take n (iov_bytes iov))))),
     k_close = (\<lambda>k fd. ((0, 0), k)), k_getfl = (\<lambda>k fd. ((0, 0), k)), k_setfl = (\<lambda>k fd fl. ((0, 0), k)),
     k_socket = (\<lambda>k d y. ((- 1, 9), k)), k_getsockopt = (\<lambda>k fd l p. ((- 1, 9), 0, 0, k)),
     k_setsockopt = (\<lambda>k fd l p v. ((- 1, 9), k)), k_getsockname = (\<lambda>k fd. ((- 1, 9), [], 0, k)),
     k_getpeername = (\<lambda>k fd. ((- 1, 9), [], 0, k)), k_bind = (\<lambda>k fd a n. ((- 1, 9), k)),
     k_connect = (\<lambda>k fd a n. ((- 1, 9), k)), k_shutdown = (\<lambda>k fd how. ((0, 0), k)),
     k_recvfrom = (\<lambda>k fd n. ((21, 0), greeting, sockaddr_in 1 2, 16, k)),
     k_sendmsg = (\<lambda>k fd a iov. ((int (length (iov_bytes iov)), 0), k)),
     k_listen = (\<lambda>k fd n. ((- 1, 9), k)), k_accept = (\<lambda>k fd. ((- 1, 9), k)),
     k_socketpair = (\<lambda>k d y. ((- 1, 9), 0, 0, k)),
     k_poll = (\<lambda>k pfs t. ((int (length pfs), 0), map (\<lambda>p. p\<lparr>pf_revents :=
       (if (pf_fd p = 4) = (pf_events p = POLLOUT) then pf_events p else 0)\<rparr>) pfs, k)),
     k_timestamp_ms = (\<lambda>k. (0, k))\<rparr>"

definition visited_session :: session where
  "visited_session = \<lparr>se_out = [1], se_in = [7], se_peer = WrappingInt32 9, se_config = small_config 3,
     se_thread = 1, se_adapter = 2, se_thread_fd = 4, se_adapter_fd = 5, se_aborted = False\<rparr>"

definition idle_server :: "histories sponge" where
  "idle_server = \<lparr>sy_kernel = (\<lambda>_. [], \<lambda>_. []),
     sy_fds = (\<lambda>h. \<lparr>fd_fd = int h + 3, fd_eof = False, fd_closed = False, fd_read_count = 0, fd_write_count = 0\<rparr>),
     sy_next = 3, sg_owner = 0, sg_thread_data = 1, sg_adapter_fd = 2, sg_adapter = host_adapter 3 4 0 0,
     sg_tcp = None, sg_tcp_thread = False, sg_abort = False, sg_inbound_shutdown = False,
     sg_outbound_shutdown = False, sg_fully_acked = False\<rparr>"

definition greeting_segment :: tcp_segment where
  "greeting_segment = \<lparr>ts_header = TCPHeader_default\<lparr>th_seqno := WrappingInt32 9, th_syn := True, th_cksum := 43252\<rparr>,
     ts_payload = \<lparr>buf_storage = Some greeting, buf_starting_offset = 20\<rparr>\<rparr>"

lemma greeting_parses: "TCPSegment_parse TCPSegment_default (Buffer_new greeting) 0 = Inr (greeting_segment, NoError)"
  by code_simp

lemma greeting_of_peer: "segment_of [7] (WrappingInt32 9) 0 greeting_segment"
  by (simp add: segment_of_def wrap_def piece_of_def seg_index_def greeting_segment_def WrappingInt32_plus_def
      Buffer_copy_def Buffer_str_def greeting_def TCPHeader_default_def)

definition server0 :: tcp_connection where
  "server0 = TCPConnection_new (small_config 3) (WrappingInt32 0)"

definition server1 :: tcp_connection where
  "server1 = recv_ok server0 greeting_segment"

definition server2 :: tcp_connection where
  "server2 = recv_ok server1 greeting_segment"

lemma server_receives:
  "TCPConnection_segment_received (WrappingInt32 0) server0 greeting_segment = Inr server1"
  "TCPConnection_segment_received (WrappingInt32 0) server1 greeting_segment = Inr server2"
  by code_simp+

lemma server_facts:
  "TCPConnection_active server0" "cn_segments_out server0 = []"
  "ByteStream_buffer_empty (TCPConnection_inbound_stream server0)" "\<not> ByteStream_eof (TCPConnection_inbound_stream server0)"
  "\<not> ByteStream_error (TCPConnection_inbound_stream server0)"
  "TCPConnection_active server1" "\<not> ByteStream_buffer_empty (TCPConnection_inbound_stream server1)"
  "ByteStream_peek_output (TCPConnection_inbound_stream server2) 1 = [7]"
  "ByteStream_buffer_size (TCPConnection_inbound_stream server2) = 1"
  "\<not> ByteStream_eof (TCPConnection_inbound_stream (TCPConnection_pop_inbound server2 1))"
  "\<not> ByteStream_error (TCPConnection_inbound_stream (TCPConnection_pop_inbound server2 1))"
  by code_simp+

abbreviation visitor_ops :: "histories adapter_ops" where
  "visitor_ops \<equiv> udp_ops visitor_kernel plain_libc"

abbreviation visitor_rules :: "histories sponge rule list" where
  "visitor_rules \<equiv> socket_rules visitor_kernel plain_libc visitor_ops (WrappingInt32 0) idle_server"

definition waiting_server :: "histories sponge" where
  "waiting_server = idle_server\<lparr>sg_adapter := set_listening (sg_adapter idle_server) True, sg_tcp := Some server0\<rparr>"

lemma server_begins:
  "listen_begin visitor_kernel plain_libc visitor_ops (WrappingInt32 0) (small_config 3) (fb_cfg (host_adapter 3 4 0 0))
     (WrappingInt32 0) idle_server = Inr (visitor_rules, waiting_server)"
  by (simp add: listen_begin_def initialize_TCP_def set_adapter_config_def waiting_server_def idle_server_def
      server0_def host_adapter_def)

lemma visitor_reads:
  assumes "fb_listen (sg_adapter s) \<or> Address_eq (inet_address 1 2) (fa_destination (fb_cfg (sg_adapter s)))"
  shows "\<exists>ad. ao_read visitor_ops s = Inr (Some greeting_segment, (register_read (sg_adapter_fd s) s)\<lparr>sg_adapter := ad\<rparr>) \<and>
    \<not> fb_listen ad \<and> Address_eq (inet_address 1 2) (fa_destination (fb_cfg ad))"
proof -
  have "length (sockaddr_in 1 2) = 16" by (simp add: sockaddr_in_def family_bytes_def length_be_bytes)
  then have "Address_new (sockaddr_in 1 2) 16 = Inr (inet_address 1 2)"
    by (simp add: Address_new_def inet_address_def sizeof_sockaddr_storage_def sizeof_sockaddr_in_def)
  moreover have "int_arg (21, 0) = (21, 0)" by (simp add: int_arg_small)
  ultimately have "UDPSocket_recv visitor_kernel h udp_mtu s = Inr ((inet_address 1 2, greeting), register_read h s)" for h
    by (simp add: UDPSocket_recv_def visitor_kernel_def SystemCall_def udp_mtu_def greeting_def)
  moreover have "sg_adapter (register_read h s) = sg_adapter s" for h by (simp add: register_read_def update_fd_def)
  moreover let ?ad = "if fb_listen (sg_adapter s)
    then set_listening ((sg_adapter s)\<lparr>fb_cfg := (fb_cfg (sg_adapter s))\<lparr>fa_destination := inet_address 1 2\<rparr>\<rparr>) False
    else sg_adapter s"
  have "UDPSocketAdapter_read (sg_adapter s) (inet_address 1 2) greeting = Inr (?ad, Some greeting_segment)"
    using assms by (auto simp: UDPSocketAdapter_read_def listening_def greeting_parses FdAdapter_config_def)
      (simp_all add: greeting_segment_def TCPHeader_default_def)
  moreover have "\<not> fb_listen ?ad \<and> Address_eq (inet_address 1 2) (fa_destination (fb_cfg ?ad))"
    using assms by (auto simp: set_listening_def Address_eq_def)
  ultimately show ?thesis by (intro exI [of _ ?ad]) (simp add: udp_ops_def)
qed

lemma visitor_events:
  "POLLIN AND (POLLERR OR POLLNVAL) = 0" "POLLOUT AND (POLLERR OR POLLNVAL) = 0" "POLLIN \<noteq> POLLOUT" "POLLIN \<noteq> 0" "POLLOUT \<noteq> 0"
  "POLLIN AND POLLHUP = 0" "POLLOUT AND POLLHUP = 0"
  by (simp_all add: POLLIN_def POLLOUT_def POLLERR_def POLLNVAL_def POLLHUP_def)

lemma visitor_wait:
  assumes "socket_rule1_interest s"
    and "\<And>h. fd_num s h = int h + 3" "\<And>h. \<not> FileDescriptor_eof s h" "\<And>h. \<not> FileDescriptor_closed s h"
    and "socket_rule1_callback plain_libc visitor_ops (WrappingInt32 0) s = Inr t"
      "FileDescriptor_read_count t 2 \<noteq> FileDescriptor_read_count s 2"
    and "if socket_rule3_interest s then socket_rule3_callback visitor_kernel plain_libc t = Inr u \<and>
      FileDescriptor_write_count u 1 \<noteq> FileDescriptor_write_count t 1 else u = t"
  shows "wait_next_event visitor_kernel TCP_TICK_MS visitor_rules s = Inr (Result_Success, visitor_rules, u)"
proof -
  have "k_poll visitor_kernel k pfs ms = ((int (length pfs), 0), map (\<lambda>p. p\<lparr>pf_revents :=
       (if (pf_fd p = 4) = (pf_events p = POLLOUT) then pf_events p else 0)\<rparr>) pfs, k)" for k pfs ms
    by (simp add: visitor_kernel_def)
  with assms show ?thesis
    by (auto simp: wait_next_event_def socket_rules_def add_rule_def FileDescriptor_duplicate_def idle_server_def
        SystemCall_def Let_def visitor_events Rule_service_count_def)
qed

lemma visitor_kernel_ok: "loop_kernel visitor_kernel fst snd"
  by (auto simp: loop_kernel_def stream_kernel_def visitor_kernel_def Let_def)

lemma visitor_segment:
  assumes "fb_listen (sg_adapter s) \<or> Address_eq (inet_address 1 2) (fa_destination (fb_cfg (sg_adapter s)))"
    and "sg_tcp s = Some c" "\<not> FileDescriptor_eof s (sg_thread_data s)" "sg_thread_data s \<noteq> sg_adapter_fd s"
    and "TCPConnection_segment_received (WrappingInt32 0) c greeting_segment = Inr c'"
  shows "\<exists>ad. socket_rule1_callback plain_libc visitor_ops (WrappingInt32 0) s
      = Inr ((register_read (sg_adapter_fd s) s)\<lparr>sg_adapter := ad, sg_tcp := Some c'\<rparr>) \<and>
    Address_eq (inet_address 1 2) (fa_destination (fb_cfg ad))"
  using visitor_reads [OF assms(1)] assms(2-5)
  by (force simp: socket_rule1_callback_def with_tcp_def FileDescriptor_eof_def register_read_def update_fd_def)

lemmas visitor_defs = FileDescriptor_eof_def FileDescriptor_closed_def fd_num_def register_read_def update_fd_def
  FileDescriptor_read_count_def FileDescriptor_write_count_def

lemma visitor_first_wait:
  assumes s: "s = waiting_server\<lparr>sg_tcp_thread := a, sg_abort := b\<rparr>"
  shows "\<exists>ad. wait_next_event visitor_kernel TCP_TICK_MS visitor_rules s
      = Inr (Result_Success, visitor_rules, (register_read 2 s)\<lparr>sg_adapter := ad, sg_tcp := Some server1\<rparr>) \<and>
    Address_eq (inet_address 1 2) (fa_destination (fb_cfg ad))"
proof -
  have s0: "fd_num s h = int h + 3" "\<not> FileDescriptor_eof s h" "\<not> FileDescriptor_closed s h" for h
    by (simp_all add: s waiting_server_def idle_server_def visitor_defs)
  obtain ad where ad: "socket_rule1_callback plain_libc visitor_ops (WrappingInt32 0) s
      = Inr ((register_read 2 s)\<lparr>sg_adapter := ad, sg_tcp := Some server1\<rparr>)"
    "Address_eq (inet_address 1 2) (fa_destination (fb_cfg ad))"
    using visitor_segment [of s server0, OF _ _ _ _ server_receives(1)] s0
    by (auto simp: s waiting_server_def idle_server_def set_listening_def)
  have "sg_tcp s = Some server0" by (simp add: s waiting_server_def)
  then have "wait_next_event visitor_kernel TCP_TICK_MS visitor_rules s
      = Inr (Result_Success, visitor_rules, (register_read 2 s)\<lparr>sg_adapter := ad, sg_tcp := Some server1\<rparr>)"
    using s0 ad(1) server_facts
    by (intro visitor_wait) (simp_all add: visitor_defs socket_rule1_interest_def socket_rule3_interest_def Let_def)
  with ad(2) show ?thesis by blast
qed

lemma server_hears:
  "\<exists>s. thread_reach visitor_kernel visitor_rules waiting_server visitor_rules s \<and> snd (sy_kernel s) 4 = [7]"
proof -
  have "waiting_server = waiting_server\<lparr>sg_tcp_thread := False, sg_abort := False\<rparr>"
    by (simp add: waiting_server_def idle_server_def)
  from visitor_first_wait [OF this] obtain ad1 where ad1: "wait_next_event visitor_kernel TCP_TICK_MS visitor_rules waiting_server
      = Inr (Result_Success, visitor_rules, (register_read 2 waiting_server)\<lparr>sg_adapter := ad1, sg_tcp := Some server1\<rparr>)"
    "Address_eq (inet_address 1 2) (fa_destination (fb_cfg ad1))" by blast
  define s1 where "s1 = (register_read 2 waiting_server)\<lparr>sg_adapter := ad1, sg_tcp := Some server1\<rparr>"
  note w1 = ad1(1) [folded s1_def] and ds = visitor_defs
  have s1: "fd_num s1 h = int h + 3" "\<not> FileDescriptor_eof s1 h" "\<not> FileDescriptor_closed s1 h" for h
    by (simp_all add: s1_def waiting_server_def idle_server_def ds)
  obtain ad2 where ad2: "socket_rule1_callback plain_libc visitor_ops (WrappingInt32 0) s1
      = Inr ((register_read 2 s1)\<lparr>sg_adapter := ad2, sg_tcp := Some server2\<rparr>)"
    using visitor_segment [of s1 server1, OF _ _ _ _ server_receives(2)] s1 ad1(2)
    by (auto simp: s1_def waiting_server_def idle_server_def register_read_def update_fd_def)
  define s2 where "s2 = (register_read 2 s1)\<lparr>sg_adapter := ad2, sg_tcp := Some server2\<rparr>"
  define s3 where "s3 = (register_write 1 (s2\<lparr>sy_kernel := (\<lambda>_. [], (\<lambda>_. [])(4 := [7]))\<rparr>))
    \<lparr>sg_tcp := Some (TCPConnection_pop_inbound server2 1)\<rparr>"
  have k2: "sy_kernel s2 = (\<lambda>_. [], \<lambda>_. [])" "fd_num s2 1 = 4"
    by (simp_all add: s2_def s1_def waiting_server_def idle_server_def ds)
  have wr: "FileDescriptor_write visitor_kernel 1 [[7]] False s2
      = Inr (1, register_write 1 (s2\<lparr>sy_kernel := (\<lambda>_. [], (\<lambda>_. [])(4 := [7]))\<rparr>))"
  proof -
    have "k_writev visitor_kernel (sy_kernel s2) (fd_num s2 1) (BufferViewList_as_iovecs [[7]])
        = ((1, 0), (\<lambda>_. [], (\<lambda>_. [])(4 := [7])))"
      unfolding k2 by (simp add: visitor_kernel_def)
    from FileDescriptor_write_once [OF loop_kernel_laws(1) [OF visitor_kernel_ok] this] show ?thesis
      by (simp add: FileDescriptor_write_def register_write_eq)
  qed
  have "min 65536 (1 :: u64) = 1" by simp
  then have "socket_rule3_callback visitor_kernel plain_libc s2 = Inr s3"
    using server_facts(8-11) wr
    by (simp add: socket_rule3_callback_def with_tcp_def s2_def s3_def Let_def register_write_def
      s1_def waiting_server_def idle_server_def register_read_def update_fd_def BufferViewList_of_string_def)
  then have w2: "wait_next_event visitor_kernel TCP_TICK_MS visitor_rules s1 = Inr (Result_Success, visitor_rules, s3)"
    using s1 ad2 server_facts
    by (intro visitor_wait [where t = s2]) (simp_all add: s1_def s2_def s3_def register_write_def ds
        socket_rule1_interest_def socket_rule3_interest_def Let_def)
  have "snd (sy_kernel s3) 4 = [7]" by (simp add: s3_def register_write_def)
  with thread_reach.wait [OF thread_reach.wait [OF thread_reach.start w1] w2] show ?thesis by blast
qed
lemma visited_session_ok: "session_ok visitor_kernel (\<lambda>k. (0, k)) fst snd visitor_ops visited_session"
proof -
  have "hears visitor_ops visited_session"
  proof (unfold hears_def, intro allI impI)
    fix s seg s' assume "ao_read visitor_ops s = Inr (Some seg, s')"
    moreover have "take 21 greeting @ replicate (21 - length greeting) 0 = greeting" by (simp add: greeting_def)
    ultimately have "seg = greeting_segment"
      by (auto simp: udp_ops_def UDPSocket_recv_def visitor_kernel_def UDPSocketAdapter_read_def obind_Inr_iff
          SystemCall_def int_arg_small greeting_parses split: if_splits)
    then show "\<exists>a. segment_of (se_in visited_session) (se_peer visited_session) a seg"
      using greeting_of_peer by (auto simp: visited_session_def)
  qed
  moreover have "owner_writes visitor_kernel fst visited_session"
    by (auto simp: owner_writes_def visitor_kernel_def visited_session_def bare_hangup_def visitor_events)
  ultimately show ?thesis
    using visitor_kernel_ok small_config_ok [of "[1]" "[7]"]
    by (simp add: session_ok_def adapter_env_def visited_session_def)
qed

lemma idle_server_ok: "idle_socket fst snd visited_session idle_server"
  by (simp add: idle_socket_def idle_server_def visited_session_def fd_num_def FileDescriptor_closed_def
      FileDescriptor_eof_def)

lemma visited_begins:
  "session_begins visitor_kernel plain_libc visitor_ops (WrappingInt32 0) (se_config visited_session)
     (fb_cfg (host_adapter 3 4 0 0)) (WrappingInt32 0) idle_server visitor_rules waiting_server"
  using server_begins by (simp add: session_begins_def visited_session_def)

lemma visitor_adapter: "visitor_ops \<in> sponge_adapters visitor_kernel plain_libc (\<lambda>k. (0, k))"
  by (simp add: sponge_adapters_def)

theorem socket_delivers_witness:
  "\<exists>s. thread_reach visitor_kernel visitor_rules waiting_server visitor_rules s \<and>
     snd (sy_kernel s) 4 = [7] \<and> prefix (snd (sy_kernel s) 4) [7] \<and> (\<exists>c. sg_tcp s = Some c)"
proof -
  obtain s where s: "thread_reach visitor_kernel visitor_rules waiting_server visitor_rules s"
    "snd (sy_kernel s) 4 = [7]" using server_hears by blast
  from socket_delivers [OF visitor_adapter visited_session_ok idle_server_ok visited_begins s(1)] s show ?thesis
    by (auto simp: visited_session_def)
qed


section \<open>The destructor\<close>

lemma sponge_inv_aborted:
  "sponge_inv sys rnd got sent ops se s \<Longrightarrow>
     sponge_inv sys rnd got sent ops (se\<lparr>se_aborted := True\<rparr>) (s\<lparr>sg_abort := True\<rparr>)"
  by (simp add: sponge_inv_def session_ok_def owner_writes_def hears_def fd_num_def FileDescriptor_closed_def
      FileDescriptor_eof_def)

lemma sponge_rule_aborted: "sponge_rule sys lc ops stale (se\<lparr>se_aborted := b\<rparr>) = sponge_rule sys lc ops stale se"
  by (simp add: sponge_rule_def fun_eq_iff)

text \<open>Once the thread is asked to stop, its loop waits once more at most.\<close>

lemma aborted_loop:
  assumes "ops \<in> sponge_adapters sys lc rnd" and inv: "sponge_inv sys rnd got sent ops se s" "se_aborted se"
    and rules: "list_all (sponge_rule sys lc ops stale se) rules"
  shows "tcp_loop sys (\<lambda>_. True) rules s =
    Some (obind (wait_next_event sys TCP_TICK_MS rules (snd (timestamp_ms sys s))) (\<lambda>(_, rules, s). Inr (rules, s)))"
proof -
  obtain now s1 where s1: "timestamp_ms sys s = (now, s1)" by fastforce
  note inv1 = sponge_clock [OF inv(1) s1]
  have "sg_abort s2" if "wait_next_event sys TCP_TICK_MS rules s1 = Inr (r, rules2, s2)" for r rules2 s2
  proof -
    have "thread_reach sys rules s1 rules2 s2" using thread_reach.wait [OF thread_reach.start that] .
    with datagram_link.thread_reach_inv [OF sponge_adapters_link [OF assms(1)] _ inv1 rules] show ?thesis
      using sponge_inv_state(8) inv(2) by blast
  qed
  then show ?thesis
    by (cases "wait_next_event sys TCP_TICK_MS rules s1") (auto simp: tcp_loop_def s1 tcp_loop_from.simps)
qed

lemma destroyed_loop:
  assumes "ops \<in> sponge_adapters sys lc rnd" "sponge_inv sys rnd got sent ops se s"
    and "list_all (sponge_rule sys lc ops stale se) rules"
  shows "tcp_loop sys (\<lambda>_. True) rules (s\<lparr>sg_abort := True\<rparr>) =
    Some (obind (wait_next_event sys TCP_TICK_MS rules (snd (timestamp_ms sys (s\<lparr>sg_abort := True\<rparr>))))
      (\<lambda>(_, rules, s). Inr (rules, s)))"
  by (rule aborted_loop [OF assms(1) sponge_inv_aborted [OF assms(2)]]) (use assms(3) in \<open>simp_all add: sponge_rule_aborted\<close>)

lemma tcp_main_returns: "tcp_loop sys (\<lambda>_. True) rules s = Some r \<Longrightarrow> \<exists>m. tcp_main sys rules s = Some m"
  by (cases r) (auto simp: tcp_main_def)



text \<open>The calls that end a socket hand no datagram to the network.\<close>

definition quiet_end :: "('k, 'b) socket_kernel_scheme \<Rightarrow> ('k \<Rightarrow> 'w) \<Rightarrow> bool" where
  "quiet_end sys wire \<longleftrightarrow> (\<forall>k fd how. wire (snd (k_shutdown sys k fd how)) = wire k) \<and>
     (\<forall>k fd. wire (snd (k_close sys k fd)) = wire k)"

lemma socket_end_quiet:
  assumes "quiet_end sys wire"
  shows "wire (sy_kernel (FDWrapper_destroy sys h s)) = wire (sy_kernel s)"
    and "Socket_shutdown sys h how s = Inr s' \<Longrightarrow> wire (sy_kernel s') = wire (sy_kernel s)"
proof -
  have "wire (snd (k_close sys (sy_kernel s) (fd_num s h))) = wire (sy_kernel s)"
    using assms by (simp add: quiet_end_def)
  then show "wire (sy_kernel (FDWrapper_destroy sys h s)) = wire (sy_kernel s)"
    by (cases "k_close sys (sy_kernel s) (fd_num s h)") 
      (auto simp: FDWrapper_destroy_def FileDescriptor_close_def obind_def split: sum.split)
  show "Socket_shutdown sys h how s = Inr s' \<Longrightarrow> wire (sy_kernel s') = wire (sy_kernel s)"
    using assms by (auto simp: quiet_end_def Socket_shutdown_def checked_def obind_Inr_iff register_read_def
        register_write_def split: if_splits)
qed

text \<open>
  C35: Destroying a socket with an open connection resets it, but sends no RST.  The reset is queued by
  the destructor of the connection, after the last wait of the thread, and the queue goes with the
  connection: nothing reaches the network after that wait.
\<close>

theorem TCPSpongeSocket_destroy_sends_no_reset:
  assumes "ops \<in> sponge_adapters sys lc rnd" and "session_ok sys rnd got sent ops se"
    and "idle_socket got sent se s0"
    and "session_begins sys lc ops stale (se_config se) c_ad isn s0 rules s"
    and "thread_reach sys rules s rules' s'" and "sg_tcp_thread s'"
    and "quiet_end sys wire" and "TCPSpongeSocket_destroy sys rules' s' = Some (Inr s'')"
  shows "\<exists>ret rules1 s1 c d.
    wait_next_event sys TCP_TICK_MS rules' (snd (timestamp_ms sys (s'\<lparr>sg_abort := True\<rparr>))) = Inr (ret, rules1, s1) \<and>
    wire (sy_kernel s'') = wire (sy_kernel s1) \<and> sg_tcp s1 = Some c \<and> TCPConnection_destroy c = Inr d \<and>
    (TCPConnection_active c \<longrightarrow> th_rst (ts_header (last (cn_segments_out d))))"
proof -
  have inv: "sponge_inv sys rnd got sent ops se s'" "list_all (sponge_rule sys lc ops stale se) rules'"
    using session_thread [OF assms(1-5)] by auto
  let ?s = "s'\<lparr>sg_abort := True\<rparr>"
  obtain rules2 s2 where m: "tcp_main sys rules' ?s = Some (Inr (rules2, s2))"
    "s'' = fold (FDWrapper_destroy sys) [sg_adapter_fd s2, sg_thread_data s2, sg_owner s2] (s2\<lparr>sg_tcp_thread := False\<rparr>)"
    using assms(6,8) by (auto simp: TCPSpongeSocket_destroy_def join_thread_def Let_def
        split: option.splits sum.splits)
  obtain ret rules1 s1 where w: "wait_next_event sys TCP_TICK_MS rules' (snd (timestamp_ms sys ?s)) = Inr (ret, rules1, s1)"
    using m(1) destroyed_loop [OF assms(1) inv]
    by (cases "wait_next_event sys TCP_TICK_MS rules' (snd (timestamp_ms sys ?s))") (auto simp: tcp_main_def split: if_splits)
  have "Some (obind (Socket_shutdown sys (sg_owner s1) SHUT_RDWR s1) (\<lambda>s.
      with_tcp s (\<lambda>c. obind (TCPConnection_destroy c) (\<lambda>_. Inr (rules1, s\<lparr>sg_tcp := None\<rparr>))))) = Some (Inr (rules2, s2))"
    using m(1) destroyed_loop [OF assms(1) inv] w by (simp add: tcp_main_def split: if_splits)
  then obtain t c where t: "Socket_shutdown sys (sg_owner s1) SHUT_RDWR s1 = Inr t" "sg_tcp t = Some c" "s2 = t\<lparr>sg_tcp := None\<rparr>"
    by (auto simp: obind_Inr_iff with_tcp_def split: option.splits)
  have "sg_tcp s1 = Some c" using shutdown_tcp [OF t(1)] t(2) by simp
  moreover have "wire (sy_kernel s'') = wire (sy_kernel s1)"
    by (simp add: m(2) t(3) socket_end_quiet(1) [OF assms(7)] socket_end_quiet(2) [OF assms(7) t(1)])
  moreover obtain d where d: "TCPConnection_destroy c = Inr d" using destroy_returns by blast
  moreover have "TCPConnection_active c \<Longrightarrow> th_rst (ts_header (last (cn_segments_out d)))"
    using d unclean_shutdown_result(4) by (simp add: TCPConnection_destroy_def)
  ultimately show ?thesis using w by blast
qed

lemma visited_destroy:
  assumes "s = waiting_server\<lparr>sg_tcp_thread := True\<rparr>"
  shows "\<exists>s'. TCPSpongeSocket_destroy visitor_kernel visitor_rules s = Some (Inr s')"
proof -
  let ?s = "s\<lparr>sg_abort := True\<rparr>"
  have inv: "sponge_inv visitor_kernel (\<lambda>k. (0, k)) fst snd visitor_ops visited_session s"
    "list_all (sponge_rule visitor_kernel plain_libc visitor_ops (WrappingInt32 0) visited_session) visitor_rules"
    using session_thread [OF visitor_adapter visited_session_ok idle_server_ok visited_begins
        thread_reach.spawn [OF thread_reach.start]] by (auto simp: assms)
  have "timestamp_ms visitor_kernel ?s = (0, ?s)" by (simp add: timestamp_ms_def visitor_kernel_def)
  moreover obtain ad where "wait_next_event visitor_kernel TCP_TICK_MS visitor_rules ?s
      = Inr (Result_Success, visitor_rules, (register_read 2 ?s)\<lparr>sg_adapter := ad, sg_tcp := Some server1\<rparr>)"
    using visitor_first_wait [of ?s True True] by (auto simp: assms)
  ultimately have "tcp_loop visitor_kernel (\<lambda>_. True) visitor_rules ?s
      = Some (Inr (visitor_rules, (register_read 2 ?s)\<lparr>sg_adapter := ad, sg_tcp := Some server1\<rparr>))"
    using destroyed_loop [OF visitor_adapter inv] by simp
  moreover have "\<exists>t. Socket_shutdown visitor_kernel h SHUT_RDWR s = Inr t" for h s
    by (simp add: Socket_shutdown_def checked_def visitor_kernel_def SystemCall_def SHUT_RDWR_def SHUT_RD_def SHUT_WR_def)
  then obtain t where t: "Socket_shutdown visitor_kernel 0 SHUT_RDWR
      ((register_read 2 ?s)\<lparr>sg_adapter := ad, sg_tcp := Some server1\<rparr>) = Inr t" by blast
  moreover have "sg_tcp t = Some server1" using shutdown_tcp [OF t] by simp
  moreover obtain d where "TCPConnection_destroy server1 = Inr d" using destroy_returns by blast
  ultimately show ?thesis
    by (auto simp: TCPSpongeSocket_destroy_def join_thread_def tcp_main_def with_tcp_def assms waiting_server_def
        idle_server_def register_read_def update_fd_def Let_def)
qed

theorem TCPSpongeSocket_destroy_sends_no_reset_witness:
  "\<exists>ret rules1 s1 c d. wait_next_event visitor_kernel TCP_TICK_MS visitor_rules
       (waiting_server\<lparr>sg_tcp_thread := True, sg_abort := True\<rparr>) = Inr (ret, rules1, s1) \<and> sg_tcp s1 = Some c \<and>
     TCPConnection_destroy c = Inr d"
proof -
  have quiet: "quiet_end visitor_kernel snd" by (simp add: quiet_end_def visitor_kernel_def)
  have clock: "snd (timestamp_ms visitor_kernel s) = s" for s by (simp add: timestamp_ms_def visitor_kernel_def)
  obtain s' where "TCPSpongeSocket_destroy visitor_kernel visitor_rules (waiting_server\<lparr>sg_tcp_thread := True\<rparr>) = Some (Inr s')"
    using visited_destroy by blast
  from TCPSpongeSocket_destroy_sends_no_reset [OF visitor_adapter visited_session_ok idle_server_ok visited_begins
      thread_reach.spawn [OF thread_reach.start] _ quiet this] show ?thesis
    by (auto simp: clock)
qed

end
