(* ===== verification/Tcp_Network.thy ===== *)
theory Tcp_Network
  imports Tcp_Connection "HOL-Library.Sublist"
begin

text \<open>
  Two connections of \<^verbatim>\<open>libsponge/tcp_connection.cc\<close> at the two ends of an unreliable network: each
  application gets the stream of the other one.
\<close>

section \<open>Two connections and a network\<close>

text \<open>
  Two connections, what their applications have read, and the segments that each has ever handed to
  the network.  The network may lose, delay, reorder and repeat: any of them may arrive at any time.
\<close>

record network =
  nw_x :: tcp_connection
  nw_y :: tcp_connection
  nw_got_x :: bytes
  nw_got_y :: bytes
  nw_wire_x :: "tcp_segment set"
  nw_wire_y :: "tcp_segment set"

inductive net_reach ::
  "bytes \<Rightarrow> bytes \<Rightarrow> tcp_config \<Rightarrow> tcp_config \<Rightarrow> network \<Rightarrow> bool" for S R cx cy where
  start: "net_reach S R cx cy \<lparr>nw_x = TCPConnection_new cx i, nw_y = TCPConnection_new cy j, nw_got_x = [],
    nw_got_y = [], nw_wire_x = {}, nw_wire_y = {}\<rparr>"
| x_step: "net_reach S R cx cy n \<Longrightarrow> conn_step S (nw_x n) c d \<Longrightarrow>
    net_reach S R cx cy (n\<lparr>nw_x := c, nw_got_x := nw_got_x n @ d\<rparr>)"
| y_step: "net_reach S R cx cy n \<Longrightarrow> conn_step R (nw_y n) c d \<Longrightarrow>
    net_reach S R cx cy (n\<lparr>nw_y := c, nw_got_y := nw_got_y n @ d\<rparr>)"
| x_send: "net_reach S R cx cy n \<Longrightarrow>
    net_reach S R cx cy (n\<lparr>nw_wire_x := nw_wire_x n \<union> set (cn_segments_out (nw_x n))\<rparr>)"
| y_send: "net_reach S R cx cy n \<Longrightarrow>
    net_reach S R cx cy (n\<lparr>nw_wire_y := nw_wire_y n \<union> set (cn_segments_out (nw_y n))\<rparr>)"
| x_recv: "net_reach S R cx cy n \<Longrightarrow> seg \<in> nw_wire_y n \<Longrightarrow>
    TCPConnection_segment_received stale (nw_x n) seg = Inr c \<Longrightarrow> net_reach S R cx cy (n\<lparr>nw_x := c\<rparr>)"
| y_recv: "net_reach S R cx cy n \<Longrightarrow> seg \<in> nw_wire_x n \<Longrightarrow>
    TCPConnection_segment_received stale (nw_y n) seg = Inr c \<Longrightarrow> net_reach S R cx cy (n\<lparr>nw_y := c\<rparr>)"

text \<open>Streams that fit into half the sequence space.\<close>

definition net_sizes :: "bytes \<Rightarrow> bytes \<Rightarrow> tcp_config \<Rightarrow> tcp_config \<Rightarrow> bool" where
  "net_sizes S R cx cy \<longleftrightarrow> sizes_ok S R cx \<and> sizes_ok R S cy \<and> length S + 2 < 2 ^ 31 \<and> length R + 2 < 2 ^ 31"

text \<open>
  One end: \<open>c\<close> sends \<open>S\<close>, its peer numbers \<open>R\<close> from \<open>p\<close>, and the network holds segments of both.
\<close>

definition end_inv ::
  "bytes \<Rightarrow> bytes \<Rightarrow> tcp_config \<Rightarrow> WrappingInt32 \<Rightarrow> tcp_connection \<Rightarrow> bytes \<Rightarrow> tcp_segment set \<Rightarrow> bool" where
  "end_inv S R cfg p c out wire \<longleftrightarrow> conn_reach S R p cfg c out \<and>
     (\<forall>seg \<in> wire. \<exists>a. segment_of S (sd_isn (cn_sender c)) a seg)"

lemma end_step:
  assumes e: "end_inv S R cfg p c out wire" and sz: "sizes_ok S R cfg" and step: "conn_step S c c' d"
  shows "end_inv S R cfg p c' (out @ d) wire \<and> sd_isn (cn_sender c') = sd_isn (cn_sender c)"
proof -
  have c: "conn_reach S R p cfg c out" using e by (simp add: end_inv_def)
  then have "sd_isn (cn_sender c') = sd_isn (cn_sender c)"
    using conn_step_inv [OF step] conn_reach_inv [OF c sz] by blast
  with conn_reach.step [OF c step] e show ?thesis by (simp add: end_inv_def)
qed

lemma end_send:
  assumes "end_inv S R cfg p c out wire" "sizes_ok S R cfg"
  shows "end_inv S R cfg p c out (wire \<union> set (cn_segments_out c))"
proof -
  have "cn_inv S R p c" using assms conn_reach_inv by (auto simp: end_inv_def)
  then have "\<forall>seg\<in>set (cn_segments_out c). \<exists>a. segment_of S (sd_isn (cn_sender c)) a seg"
    by (simp add: cn_inv_def cn_core_def cn_base_def)
  with assms(1) show ?thesis by (auto simp: end_inv_def)
qed

lemma end_recv:
  assumes "end_inv S R cfg p c out wire" "sizes_ok S R cfg" "length R + 2 < 2 ^ 31" "segment_of R p a seg"
  shows "\<exists>c'. TCPConnection_segment_received stale c seg = Inr c' \<and> end_inv S R cfg p c' out wire \<and> cn_same c c'"
proof -
  have c: "conn_reach S R p cfg c out" and inv: "cn_inv S R p c"
    using assms(1,2) conn_reach_inv by (auto simp: end_inv_def)
  note near = peer_number_near [OF inv assms(4,3)]
  obtain c' where c': "TCPConnection_segment_received stale c seg = Inr c'"
    using segment_received_inv [OF inv assms(4) near] by blast
  have "cn_same c c'" using segment_received_same [OF inv assms(4) near c'] .
  with c' conn_reach.recv [OF c assms(4) near c'] assms(1) show ?thesis by (simp add: end_inv_def cn_same_def)
qed

definition net_inv :: "bytes \<Rightarrow> bytes \<Rightarrow> tcp_config \<Rightarrow> tcp_config \<Rightarrow> network \<Rightarrow> bool" where
  "net_inv S R cx cy n \<longleftrightarrow>
     end_inv S R cx (sd_isn (cn_sender (nw_y n))) (nw_x n) (nw_got_x n) (nw_wire_x n) \<and>
     end_inv R S cy (sd_isn (cn_sender (nw_x n))) (nw_y n) (nw_got_y n) (nw_wire_y n)"

lemma net_reach_inv:
  assumes "net_reach S R cx cy n" "net_sizes S R cx cy"
  shows "net_inv S R cx cy n"
  using assms(1)
proof induction
  case (start i j)
  show ?case by (simp add: net_inv_def end_inv_def conn_reach.start)
next
  case (x_step n c d)
  with assms(2) end_step [OF _ _ x_step(2), of R cx "sd_isn (cn_sender (nw_y n))" "nw_got_x n" "nw_wire_x n"]
  show ?case by (simp add: net_inv_def net_sizes_def)
next
  case (y_step n c d)
  with assms(2) end_step [OF _ _ y_step(2), of S cy "sd_isn (cn_sender (nw_x n))" "nw_got_y n" "nw_wire_y n"]
  show ?case by (simp add: net_inv_def net_sizes_def)
next
  case (x_send n)
  with assms(2) end_send show ?case by (simp add: net_inv_def net_sizes_def)
next
  case (y_send n)
  with assms(2) end_send show ?case by (simp add: net_inv_def net_sizes_def)
next
  case (x_recv n seg stale c)
  then obtain a where "segment_of R (sd_isn (cn_sender (nw_y n))) a seg"
    by (auto simp: net_inv_def end_inv_def)
  with x_recv assms(2) show ?case
    using end_recv [of S R cx "sd_isn (cn_sender (nw_y n))" "nw_x n" "nw_got_x n" "nw_wire_x n" a seg stale]
    by (simp add: net_inv_def net_sizes_def cn_same_def)
next
  case (y_recv n seg stale c)
  then obtain a where "segment_of S (sd_isn (cn_sender (nw_x n))) a seg"
    by (auto simp: net_inv_def end_inv_def)
  with y_recv assms(2) show ?case
    using end_recv [of R S cy "sd_isn (cn_sender (nw_x n))" "nw_y n" "nw_got_y n" "nw_wire_y n" a seg stale]
    by (simp add: net_inv_def net_sizes_def cn_same_def)
qed

lemma end_delivers:
  assumes "end_inv S R cfg p c out wire" "sizes_ok S R cfg"
  shows "prefix out R" "ByteStream_eof (TCPConnection_inbound_stream c) \<Longrightarrow> out = R"
proof -
  have c: "tr_agrees R p (cn_receiver c)" "out = take (tr_nread (cn_receiver c)) R"
    using assms conn_reach_inv [of S R p cfg c out] by (simp_all add: end_inv_def cn_inv_def cn_core_def cn_base_def)
  then show "prefix out R" by (simp add: take_is_prefix)
  show "ByteStream_eof (TCPConnection_inbound_stream c) \<Longrightarrow> out = R"
    using tr_agrees_delivers(2) [OF c(1)] c(2) by (simp add: TCPConnection_inbound_stream_def)
qed

text \<open>Whatever the network delivers is handled.\<close>

lemma net_recv:
  assumes "net_reach S R cx cy n" "net_sizes S R cx cy"
  shows "seg \<in> nw_wire_y n \<Longrightarrow> \<exists>c. TCPConnection_segment_received stale (nw_x n) seg = Inr c \<and> cn_same (nw_x n) c"
    and "seg \<in> nw_wire_x n \<Longrightarrow> \<exists>c. TCPConnection_segment_received stale (nw_y n) seg = Inr c \<and> cn_same (nw_y n) c"
proof -
  have x: "end_inv S R cx (sd_isn (cn_sender (nw_y n))) (nw_x n) (nw_got_x n) (nw_wire_x n)"
    and y: "end_inv R S cy (sd_isn (cn_sender (nw_x n))) (nw_y n) (nw_got_y n) (nw_wire_y n)"
    using net_reach_inv [OF assms] by (simp_all add: net_inv_def)
  have sz: "sizes_ok S R cx" "sizes_ok R S cy" "length S + 2 < 2 ^ 31" "length R + 2 < 2 ^ 31"
    using assms(2) by (simp_all add: net_sizes_def)
  show "seg \<in> nw_wire_y n \<Longrightarrow> \<exists>c. TCPConnection_segment_received stale (nw_x n) seg = Inr c \<and> cn_same (nw_x n) c"
    using y end_recv [OF x sz(1,4)] unfolding end_inv_def by blast
  show "seg \<in> nw_wire_x n \<Longrightarrow> \<exists>c. TCPConnection_segment_received stale (nw_y n) seg = Inr c \<and> cn_same (nw_y n) c"
    using x end_recv [OF y sz(2,3)] unfolding end_inv_def by blast
qed



end
