(* ===== verification/Tcp_Benchmark.thy ===== *)
theory Tcp_Benchmark
  imports Tcp_Network Addresses
begin

text \<open>
  The benchmark \<^verbatim>\<open>apps/tcp_benchmark.cc\<close>: two connections in one process, with or without reordering.
  The bytes to send, which the program draws at random, and the random initial numbers are arguments;
  the throughput that it prints is left out.
\<close>

section \<open>The program\<close>

record bench =
  bm_x :: tcp_connection
  bm_y :: tcp_connection
  bm_to_send :: buffer
  bm_x_closed :: bool
  bm_received :: bytes

text \<open>The segments of \<open>x\<close>, in order or in reverse order, are given to \<open>y\<close>.\<close>

fun receive_all :: "WrappingInt32 \<Rightarrow> tcp_segment list \<Rightarrow> tcp_connection \<Rightarrow> tcp_connection outcome" where
  "receive_all stale [] y = Inr y"
| "receive_all stale (seg # segments) y =
     obind (TCPConnection_segment_received stale y seg) (receive_all stale segments)"

definition move_segments ::
  "WrappingInt32 \<Rightarrow> tcp_connection \<Rightarrow> tcp_connection \<Rightarrow> bool \<Rightarrow> (tcp_connection \<times> tcp_connection) outcome" where
  "move_segments stale x y reorder =
     (let segments = cn_segments_out x;
          x = x\<lparr>cn_segments_out := []\<rparr>
      in obind (receive_all stale (if reorder then rev segments else segments) y) (\<lambda>y. Inr (x, y)))"

text \<open>The loop that writes as much of the input as fits.\<close>

function write_input :: "tcp_connection \<Rightarrow> buffer \<Rightarrow> (tcp_connection \<times> buffer) outcome" where
  "write_input x bytes_to_send =
     (let n = (word_of_nat (Buffer_size bytes_to_send) :: u64);
          capacity = TCPConnection_remaining_outbound_capacity x
      in if n \<noteq> 0 \<and> capacity \<noteq> 0 then
           let want = min capacity n;
               (x, written) = TCPConnection_write x (take (unat want) (Buffer_str bytes_to_send))
           in if want \<noteq> written
              then Inl (Runtime_error (''want = '' @ string_of_nat (unat want) @ '', written = ''
                     @ string_of_nat (unat written)))
              else obind (Buffer_remove_prefix bytes_to_send (unat written)) (write_input x)
         else Inr (x, bytes_to_send))"
  by pat_completeness auto
termination
proof (relation "measure (\<lambda>(x, b). Buffer_size b)", goal_cases)
  case (2 x b n capacity want p x' written b')
  then have "want \<noteq> 0" by (auto simp: min_def split: if_splits)
  with 2 have "0 < unat written" by (simp add: unat_gt_0)
  moreover have "unat written \<le> length (Buffer_str b)" "length (Buffer_str b') = length (Buffer_str b) - unat written"
    using Buffer_remove_prefix_str [OF 2(8)] by simp_all
  ultimately show ?case by (simp add: Buffer_size_def)
qed simp

declare write_input.simps [simp del]

text \<open>One round of the benchmark.\<close>

definition bench_round :: "WrappingInt32 \<Rightarrow> bool \<Rightarrow> bench \<Rightarrow> bench outcome" where
  "bench_round stale reorder b =
     obind (write_input (bm_x b) (bm_to_send b)) (\<lambda>(x, bytes_to_send).
     let close = (Buffer_size bytes_to_send = 0 \<and> \<not> bm_x_closed b);
         x = (if close then TCPConnection_end_input_stream x else x)
     in obind (move_segments stale x (bm_y b) reorder) (\<lambda>(x, y).
        obind (move_segments stale y x False) (\<lambda>(y, x).
        let available_output = ByteStream_buffer_size (TCPConnection_inbound_stream y);
            (y, output_read) = (if available_output > 0 then TCPConnection_read y available_output else (y, []))
        in obind (TCPConnection_tick x 1000) (\<lambda>x.
           obind (TCPConnection_tick y 1000) (\<lambda>y.
             Inr \<lparr>bm_x = x, bm_y = y, bm_to_send = bytes_to_send, bm_x_closed = (bm_x_closed b \<or> close),
                  bm_received = bm_received b @ output_read\<rparr>)))))"

partial_function (option) bench_while ::
  "(bench \<Rightarrow> bool) \<Rightarrow> WrappingInt32 \<Rightarrow> bool \<Rightarrow> bench \<Rightarrow> bench outcome option" where
  "bench_while condition stale reorder b =
     (if condition b then
        (case bench_round stale reorder b of
           Inl e \<Rightarrow> Some (Inl e)
         | Inr b \<Rightarrow> bench_while condition stale reorder b)
      else Some (Inr b))"

definition bench_begin :: "bytes \<Rightarrow> WrappingInt32 \<Rightarrow> WrappingInt32 \<Rightarrow> bench" where
  "bench_begin string_to_send isn_x isn_y =
     \<lparr>bm_x = TCPConnection_connect (TCPConnection_new TCPConfig_default isn_x),
      bm_y = TCPConnection_end_input_stream (TCPConnection_new TCPConfig_default isn_y),
      bm_to_send = Buffer_new string_to_send, bm_x_closed = False, bm_received = []\<rparr>"

definition bench_main_loop ::
  "bytes \<Rightarrow> WrappingInt32 \<Rightarrow> WrappingInt32 \<Rightarrow> WrappingInt32 \<Rightarrow> bool \<Rightarrow> bench outcome option" where
  "bench_main_loop string_to_send isn_x isn_y stale reorder =
     (case bench_while (\<lambda>b. \<not> ByteStream_eof (TCPConnection_inbound_stream (bm_y b))) stale reorder
             (bench_begin string_to_send isn_x isn_y) of
        None \<Rightarrow> None
      | Some (Inl e) \<Rightarrow> Some (Inl e)
      | Some (Inr b) \<Rightarrow>
          if bm_received b \<noteq> string_to_send
          then Some (Inl (Runtime_error ''strings sent vs. received don't match''))
          else bench_while (\<lambda>b. TCPConnection_active (bm_x b) \<or> TCPConnection_active (bm_y b)) stale reorder b)"

section \<open>The benchmark is a network\<close>

text \<open>
  Every state of the benchmark is one of a network of two connections, where \<open>x\<close> sends \<open>S\<close> and \<open>y\<close>
  sends nothing; what is still to be sent is what has not been written.
\<close>

definition bench_net :: "bytes \<Rightarrow> tcp_connection \<Rightarrow> tcp_connection \<Rightarrow> bytes \<Rightarrow> bool" where
  "bench_net S x y received \<longleftrightarrow> net_sizes S [] TCPConfig_default TCPConfig_default \<and>
     (\<exists>n. net_reach S [] TCPConfig_default TCPConfig_default n \<and> nw_x n = x \<and> nw_y n = y \<and> nw_got_y n = received)"

definition unsent :: "bytes \<Rightarrow> tcp_connection \<Rightarrow> buffer \<Rightarrow> bool" where
  "unsent S x b \<longleftrightarrow> unat (bs_nwritten (sd_stream (cn_sender x))) \<le> length S \<and>
     Buffer_str b = drop (unat (bs_nwritten (sd_stream (cn_sender x)))) S"

lemma bench_net_x_step:
  assumes "bench_net S x y r" "conn_step S x x' d"
  shows "bench_net S x' y r"
proof -
  obtain n where n: "net_sizes S [] TCPConfig_default TCPConfig_default"
    "net_reach S [] TCPConfig_default TCPConfig_default n" "nw_x n = x" "nw_y n = y" "nw_got_y n = r"
    using assms(1) by (auto simp: bench_net_def)
  from net_reach.x_step [OF n(2)] assms(2) n show ?thesis
    unfolding bench_net_def by (intro conjI exI [of _ "n\<lparr>nw_x := x', nw_got_x := nw_got_x n @ d\<rparr>"]) simp_all
qed

lemma bench_net_y_step:
  assumes "bench_net S x y r" "conn_step [] y y' d"
  shows "bench_net S x y' (r @ d)"
proof -
  obtain n where n: "net_sizes S [] TCPConfig_default TCPConfig_default"
    "net_reach S [] TCPConfig_default TCPConfig_default n" "nw_x n = x" "nw_y n = y" "nw_got_y n = r"
    using assms(1) by (auto simp: bench_net_def)
  from net_reach.y_step [OF n(2)] assms(2) n show ?thesis
    unfolding bench_net_def by (intro conjI exI [of _ "n\<lparr>nw_y := y', nw_got_y := nw_got_y n @ d\<rparr>"]) simp_all
qed

lemma write_input_ok:
  "bench_net S x y r \<Longrightarrow> unsent S x b \<Longrightarrow>
     \<exists>x' b'. write_input x b = Inr (x', b') \<and> bench_net S x' y r \<and> unsent S x' b'"
proof (induction x b rule: write_input.induct)
  case (1 x b)
  define n where "n = (word_of_nat (Buffer_size b) :: u64)"
  define cap where "cap = TCPConnection_remaining_outbound_capacity x"
  define want where "want = min cap n"
  define x' where "x' = fst (TCPConnection_write x (take (unat want) (Buffer_str b)))"
  let ?w = "unat (bs_nwritten (sd_stream (cn_sender x)))"
  let ?d = "take (unat want) (Buffer_str b)"
  show ?case
  proof (cases "n \<noteq> 0 \<and> cap \<noteq> 0")
    case False
    then show ?thesis using 1 by (subst write_input.simps) (auto simp: n_def cap_def Let_def)
  next
    case True
    have S: "length S < 2 ^ 31" using 1(2) by (simp add: bench_net_def net_sizes_def)
    have b: "?w \<le> length S" "Buffer_str b = drop ?w S" using 1(3) by (simp_all add: unsent_def)
    have n: "unat n = length (Buffer_str b)" using S by (simp add: n_def Buffer_size_def b(2) unat_of_nat)
    have want: "unat want \<le> unat cap" "unat want \<le> length (Buffer_str b)" "want \<noteq> 0"
      using True n by (auto simp: want_def min_def word_le_nat_alt)
    have d: "length ?d = unat want" using want(2) by simp
    have w: "unat (snd (TCPConnection_write x ?d)) = unat want"
      "unat (bs_nwritten (sd_stream (cn_sender x'))) = ?w + unat want"
      using write_advances [of ?d x] want S b d by (simp_all add: cap_def x'_def)
    then have written: "snd (TCPConnection_write x ?d) = want" by (simp add: word_unat_eq_iff)
    have "take (length ?d) (drop ?w S) = ?d" using b(2) d by simp
    then have net: "bench_net S x' y r" using bench_net_x_step [OF 1(2) conn_step.put] by (simp add: x'_def)
    obtain b' where b': "Buffer_remove_prefix b (unat want) = Inr b'" using Buffer_remove_prefix_ok want(2) by blast
    then have "Buffer_str b' = drop (unat want) (Buffer_str b)" using Buffer_remove_prefix_str by blast
    then have uns: "unsent S x' b'" using w(2) b want(2) by (simp add: unsent_def add.commute)
    have "write_input x b = write_input x' b'"
      using True written b' by (subst write_input.simps)
        (simp add: n_def [symmetric] cap_def [symmetric] want_def [symmetric] Let_def case_prod_beta x'_def)
    moreover have "\<exists>x'' b''. write_input x' b' = Inr (x'', b'') \<and> bench_net S x'' y r \<and> unsent S x'' b''"
      by (rule 1(1) [OF n_def cap_def True want_def refl _ _ _ net uns]) (use b' written in \<open>simp_all add: x'_def prod_eq_iff\<close>)
    ultimately show ?thesis by simp
  qed
qed

lemma end_input_bench:
  assumes "bench_net S x y r" "unsent S x b" "Buffer_size b = 0"
  shows "bench_net S (TCPConnection_end_input_stream x) y r" "unsent S (TCPConnection_end_input_stream x) b"
proof -
  have "unat (bs_nwritten (sd_stream (cn_sender x))) = length S"
    using assms(2,3) by (simp add: unsent_def Buffer_size_def)
  then show "bench_net S (TCPConnection_end_input_stream x) y r"
    using bench_net_x_step [OF assms(1) conn_step.finish] by simp
  show "unsent S (TCPConnection_end_input_stream x) b" using assms(2) by (simp add: unsent_def end_input_written)
qed

text \<open>Moving segments: they are handed to the network, and it delivers them in some order.\<close>

lemma receive_all_y:
  "net_reach S R cx cy n \<Longrightarrow> net_sizes S R cx cy \<Longrightarrow> set segs \<subseteq> nw_wire_x n \<Longrightarrow>
     \<exists>c. receive_all stale segs (nw_y n) = Inr c \<and> net_reach S R cx cy (n\<lparr>nw_y := c\<rparr>) \<and> cn_same (nw_y n) c"
proof (induction segs arbitrary: n)
  case Nil
  then show ?case by (simp add: cn_same_def)
next
  case (Cons seg segs)
  obtain c where c: "TCPConnection_segment_received stale (nw_y n) seg = Inr c" "cn_same (nw_y n) c"
    using net_recv(2) [OF Cons.prems(1,2), of seg stale] Cons.prems(3) by auto
  have "net_reach S R cx cy (n\<lparr>nw_y := c\<rparr>)" using net_reach.y_recv [OF Cons.prems(1) _ c(1)] Cons.prems(3) by simp
  from Cons.IH [OF this Cons.prems(2)] Cons.prems(3) obtain c' where
    "receive_all stale segs c = Inr c'" "net_reach S R cx cy (n\<lparr>nw_y := c'\<rparr>)" "cn_same c c'" by auto
  with c show ?case using cn_same_trans [OF c(2)] by auto
qed

lemma receive_all_x:
  "net_reach S R cx cy n \<Longrightarrow> net_sizes S R cx cy \<Longrightarrow> set segs \<subseteq> nw_wire_y n \<Longrightarrow>
     \<exists>c. receive_all stale segs (nw_x n) = Inr c \<and> net_reach S R cx cy (n\<lparr>nw_x := c\<rparr>) \<and> cn_same (nw_x n) c"
proof (induction segs arbitrary: n)
  case Nil
  then show ?case by (simp add: cn_same_def)
next
  case (Cons seg segs)
  obtain c where c: "TCPConnection_segment_received stale (nw_x n) seg = Inr c" "cn_same (nw_x n) c"
    using net_recv(1) [OF Cons.prems(1,2), of seg stale] Cons.prems(3) by auto
  have "net_reach S R cx cy (n\<lparr>nw_x := c\<rparr>)" using net_reach.x_recv [OF Cons.prems(1) _ c(1)] Cons.prems(3) by simp
  from Cons.IH [OF this Cons.prems(2)] Cons.prems(3) obtain c' where
    "receive_all stale segs c = Inr c'" "net_reach S R cx cy (n\<lparr>nw_x := c'\<rparr>)" "cn_same c c'" by auto
  with c show ?case using cn_same_trans [OF c(2)] by auto
qed

lemma move_to_y:
  assumes "bench_net S x y r"
  shows "\<exists>y'. move_segments stale x y reorder = Inr (x\<lparr>cn_segments_out := []\<rparr>, y') \<and>
    bench_net S (x\<lparr>cn_segments_out := []\<rparr>) y' r"
proof -
  obtain n where n: "net_sizes S [] TCPConfig_default TCPConfig_default"
    "net_reach S [] TCPConfig_default TCPConfig_default n" "nw_x n = x" "nw_y n = y" "nw_got_y n = r"
    using assms by (auto simp: bench_net_def)
  let ?m = "n\<lparr>nw_wire_x := nw_wire_x n \<union> set (cn_segments_out x), nw_x := x\<lparr>cn_segments_out := []\<rparr>\<rparr>"
  let ?q = "if reorder then rev (cn_segments_out x) else cn_segments_out x"
  have m: "net_reach S [] TCPConfig_default TCPConfig_default ?m"
    using net_reach.x_step [OF net_reach.x_send [OF n(2)] conn_step.take [of _ _ "length (cn_segments_out x)"]] n(3) by simp
  have "set ?q \<subseteq> nw_wire_x ?m" by simp
  from receive_all_y [OF m n(1) this, of stale] n obtain y' where "receive_all stale ?q y = Inr y'"
    "net_reach S [] TCPConfig_default TCPConfig_default (?m\<lparr>nw_y := y'\<rparr>)" by auto
  moreover from this n have "bench_net S (x\<lparr>cn_segments_out := []\<rparr>) y' r"
    unfolding bench_net_def by (intro conjI exI [of _ "?m\<lparr>nw_y := y'\<rparr>"]) simp_all
  ultimately show ?thesis by (simp add: move_segments_def Let_def)
qed

lemma move_to_x:
  assumes "bench_net S x y r"
  shows "\<exists>x'. move_segments stale y x reorder = Inr (y\<lparr>cn_segments_out := []\<rparr>, x') \<and>
    bench_net S x' (y\<lparr>cn_segments_out := []\<rparr>) r \<and> cn_same x x'"
proof -
  obtain n where n: "net_sizes S [] TCPConfig_default TCPConfig_default"
    "net_reach S [] TCPConfig_default TCPConfig_default n" "nw_x n = x" "nw_y n = y" "nw_got_y n = r"
    using assms by (auto simp: bench_net_def)
  let ?m = "n\<lparr>nw_wire_y := nw_wire_y n \<union> set (cn_segments_out y), nw_y := y\<lparr>cn_segments_out := []\<rparr>\<rparr>"
  let ?q = "if reorder then rev (cn_segments_out y) else cn_segments_out y"
  have m: "net_reach S [] TCPConfig_default TCPConfig_default ?m"
    using net_reach.y_step [OF net_reach.y_send [OF n(2)] conn_step.take [of _ _ "length (cn_segments_out y)"]] n(4) by simp
  have "set ?q \<subseteq> nw_wire_y ?m" by simp
  from receive_all_x [OF m n(1) this, of stale] n obtain x' where "receive_all stale ?q x = Inr x'"
    "net_reach S [] TCPConfig_default TCPConfig_default (?m\<lparr>nw_x := x'\<rparr>)" "cn_same x x'" by auto
  moreover from this n have "bench_net S x' (y\<lparr>cn_segments_out := []\<rparr>) r"
    unfolding bench_net_def by (intro conjI exI [of _ "?m\<lparr>nw_x := x'\<rparr>"]) simp_all
  ultimately show ?thesis by (simp add: move_segments_def Let_def)
qed

definition bench_inv :: "bytes \<Rightarrow> bench \<Rightarrow> bool" where
  "bench_inv S b \<longleftrightarrow> bench_net S (bm_x b) (bm_y b) (bm_received b) \<and> unsent S (bm_x b) (bm_to_send b)"

lemma bench_net_tick:
  assumes "bench_net S x y r"
  shows "\<exists>x'. TCPConnection_tick x ms = Inr x' \<and> bench_net S x' y r \<and> cn_same x x'"
    and "\<exists>y'. TCPConnection_tick y ms = Inr y' \<and> bench_net S x y' r"
proof -
  obtain n where n: "net_sizes S [] TCPConfig_default TCPConfig_default"
    "net_reach S [] TCPConfig_default TCPConfig_default n" "nw_x n = x" "nw_y n = y"
    using assms by (auto simp: bench_net_def)
  have "conn_reach S [] (sd_isn (cn_sender y)) TCPConfig_default x (nw_got_x n)"
    "conn_reach [] S (sd_isn (cn_sender x)) TCPConfig_default y (nw_got_y n)"
    using net_reach_inv [OF n(2,1)] n(3,4) by (auto simp: net_inv_def end_inv_def)
  then have "cn_inv S [] (sd_isn (cn_sender y)) x" "cn_inv [] S (sd_isn (cn_sender x)) y"
    using n(1) conn_reach_inv by (auto simp: net_sizes_def)
  then obtain x' y' where t: "TCPConnection_tick x ms = Inr x'" "TCPConnection_tick y ms = Inr y'"
    using connection_tick_inv by metis
  from t(1) show "\<exists>x'. TCPConnection_tick x ms = Inr x' \<and> bench_net S x' y r \<and> cn_same x x'"
    using bench_net_x_step [OF assms conn_step.tick [OF t(1)]] connection_tick_same by blast
  from t(2) show "\<exists>y'. TCPConnection_tick y ms = Inr y' \<and> bench_net S x y' r"
    using bench_net_y_step [OF assms conn_step.tick [OF t(2)]] by simp
qed

lemma unsent_same: "unsent S x b \<Longrightarrow> cn_same x x' \<Longrightarrow> unsent S x' b"
  by (simp add: unsent_def cn_same_def)

lemma bench_round_inv:
  assumes "bench_inv S b"
  shows "\<exists>b'. bench_round stale reorder b = Inr b' \<and> bench_inv S b'"
proof -
  obtain x bts where 1: "write_input (bm_x b) (bm_to_send b) = Inr (x, bts)" "bench_net S x (bm_y b) (bm_received b)"
    "unsent S x bts"
    using write_input_ok assms unfolding bench_inv_def by blast
  define close where "close = (Buffer_size bts = 0 \<and> \<not> bm_x_closed b)"
  define x1 where "x1 = (if close then TCPConnection_end_input_stream x else x)"
  have 2: "bench_net S x1 (bm_y b) (bm_received b)" "unsent S x1 bts"
    using 1 end_input_bench [OF 1(2,3)] by (auto simp: x1_def close_def)
  obtain y1 where 3: "move_segments stale x1 (bm_y b) reorder = Inr (x1\<lparr>cn_segments_out := []\<rparr>, y1)"
    "bench_net S (x1\<lparr>cn_segments_out := []\<rparr>) y1 (bm_received b)"
    using move_to_y [OF 2(1)] by blast
  obtain x2 where 4: "move_segments stale y1 (x1\<lparr>cn_segments_out := []\<rparr>) False = Inr (y1\<lparr>cn_segments_out := []\<rparr>, x2)"
    "bench_net S x2 (y1\<lparr>cn_segments_out := []\<rparr>) (bm_received b)" "cn_same (x1\<lparr>cn_segments_out := []\<rparr>) x2"
    using move_to_x [OF 3(2)] by blast
  let ?y1 = "y1\<lparr>cn_segments_out := []\<rparr>"
  define avail where "avail = ByteStream_buffer_size (TCPConnection_inbound_stream ?y1)"
  obtain y2 d where yd: "(if avail > 0 then TCPConnection_read ?y1 avail else (?y1, [])) = (y2, d)" by fastforce
  then have 5: "bench_net S x2 y2 (bm_received b @ d)"
    using 4(2) bench_net_y_step [OF 4(2) conn_step.get [of ?y1 avail y2 d]] by (auto split: if_splits)
  obtain x3 where 6: "TCPConnection_tick x2 1000 = Inr x3" "bench_net S x3 y2 (bm_received b @ d)" "cn_same x2 x3"
    using bench_net_tick(1) [OF 5] by blast
  obtain y3 where 7: "TCPConnection_tick y2 1000 = Inr y3" "bench_net S x3 y3 (bm_received b @ d)"
    using bench_net_tick(2) [OF 6(2)] by blast
  have "unsent S (x1\<lparr>cn_segments_out := []\<rparr>) bts" using 2(2) by (simp add: unsent_def)
  then have "unsent S x3 bts" using unsent_same 4(3) 6(3) by blast
  with 7(2) have "bench_inv S \<lparr>bm_x = x3, bm_y = y3, bm_to_send = bts, bm_x_closed = (bm_x_closed b \<or> close),
      bm_received = bm_received b @ d\<rparr>" by (simp add: bench_inv_def)
  moreover have "bench_round stale reorder b = Inr \<lparr>bm_x = x3, bm_y = y3, bm_to_send = bts,
      bm_x_closed = (bm_x_closed b \<or> close), bm_received = bm_received b @ d\<rparr>"
    using yd unfolding bench_round_def
    by (simp add: 1(1) Let_def close_def [symmetric] x1_def [symmetric] 3(1) 4(1) avail_def [symmetric] 6(1))
      (use 7(1) in \<open>auto split: if_splits\<close>)
  ultimately show ?thesis by blast
qed

lemma bench_begin_inv:
  assumes "length S + 2 < 2 ^ 31"
  shows "bench_inv S (bench_begin S isn_x isn_y)"
proof -
  let ?x = "TCPConnection_new TCPConfig_default isn_x" and ?y = "TCPConnection_new TCPConfig_default isn_y"
  let ?n = "\<lparr>nw_x = ?x, nw_y = ?y, nw_got_x = [], nw_got_y = [], nw_wire_x = {}, nw_wire_y = {}\<rparr>"
  have "net_sizes S [] TCPConfig_default TCPConfig_default"
    using assms by (simp add: net_sizes_def sizes_ok_def TCPConfig_default_def DEFAULT_CAPACITY_def)
  then have new: "bench_net S ?x ?y []"
    unfolding bench_net_def using net_reach.start [of S "[]" TCPConfig_default TCPConfig_default isn_x isn_y]
    by (intro conjI exI [of _ ?n]) simp_all
  have zero: "bs_nwritten (sd_stream (cn_sender (TCPConnection_new TCPConfig_default i))) = 0" for i
    by (simp add: TCPConnection_new_def TCPSender_new_def ByteStream_new_def)
  have "bench_net S (TCPConnection_connect ?x) (TCPConnection_end_input_stream ?y) ([] @ [])"
    using bench_net_y_step [OF bench_net_x_step [OF new conn_step.begin_conn] conn_step.finish] zero by simp
  moreover have "unsent S (TCPConnection_connect ?x) (Buffer_new S)"
    using connect_same [of ?x] zero by (simp add: unsent_def cn_same_def buffer_simps)
  ultimately show ?thesis by (simp add: bench_inv_def bench_begin_def)
qed

lemma bench_while_keeps:
  assumes "bench_while condition stale reorder b = Some r"
  shows "bench_inv S b \<longrightarrow> (\<exists>b'. r = Inr b' \<and> bench_inv S b' \<and> \<not> condition b')"
  using assms
proof (rule bench_while.raw_induct [rotated])
  fix loop condition stale reorder b r
  let ?P = "\<lambda>condition (stale :: WrappingInt32) (reorder :: bool) b r.
    bench_inv S b \<longrightarrow> (\<exists>b'. r = Inr b' \<and> bench_inv S b' \<and> \<not> condition b')"
  assume IH: "\<And>condition stale reorder b r. loop condition stale reorder b = Some r \<Longrightarrow> ?P condition stale reorder b r"
    and step: "(if condition b then
        (case bench_round stale reorder b of Inl e \<Rightarrow> Some (Inl e) | Inr b \<Rightarrow> loop condition stale reorder b)
      else Some (Inr b)) = Some r"
  show "?P condition stale reorder b r"
  proof
    assume inv: "bench_inv S b"
    obtain b' where "bench_round stale reorder b = Inr b'" "bench_inv S b'" using bench_round_inv [OF inv] by blast
    with step inv IH [of condition stale reorder b' r] show "\<exists>b'. r = Inr b' \<and> bench_inv S b' \<and> \<not> condition b'"
      by (auto split: if_splits)
  qed
qed

lemma bench_inv_delivers:
  assumes "bench_inv S b"
  shows "prefix (bm_received b) S" "ByteStream_eof (TCPConnection_inbound_stream (bm_y b)) \<Longrightarrow> bm_received b = S"
proof -
  obtain n where n: "net_sizes S [] TCPConfig_default TCPConfig_default"
    "net_reach S [] TCPConfig_default TCPConfig_default n" "nw_y n = bm_y b" "nw_got_y n = bm_received b"
    using assms by (auto simp: bench_inv_def bench_net_def)
  have "end_inv [] S TCPConfig_default (sd_isn (cn_sender (nw_x n))) (bm_y b) (bm_received b) (nw_wire_y n)"
    "sizes_ok [] S TCPConfig_default"
    using net_reach_inv [OF n(2,1)] n by (simp_all add: net_inv_def net_sizes_def)
  from end_delivers [OF this] show "prefix (bm_received b) S"
    "ByteStream_eof (TCPConnection_inbound_stream (bm_y b)) \<Longrightarrow> bm_received b = S" by blast+
qed

text \<open>
  C27: The benchmark never throws.  With or without reordering, every round of it succeeds: what was
  received is a prefix of what was sent, and all of it once the inbound stream has ended.  So the
  main loop, whenever it ends, has found both strings equal.
\<close>

theorem benchmark_never_throws:
  assumes "length S + 2 < 2 ^ 31"
  shows "(\<exists>b. ((\<lambda>m. obind m (bench_round stale reorder)) ^^ k) (Inr (bench_begin S isn_x isn_y)) = Inr b \<and>
      prefix (bm_received b) S \<and>
      (ByteStream_eof (TCPConnection_inbound_stream (bm_y b)) \<longrightarrow> bm_received b = S)) \<and>
    (\<forall>r. bench_main_loop S isn_x isn_y stale reorder = Some r \<longrightarrow> (\<exists>b. r = Inr b))"
proof
  have "\<exists>b. ((\<lambda>m. obind m (bench_round stale reorder)) ^^ k) (Inr (bench_begin S isn_x isn_y)) = Inr b \<and> bench_inv S b"
  proof (induction k)
    case (Suc k)
    then show ?case using bench_round_inv by fastforce
  qed (simp add: bench_begin_inv [OF assms])
  then show "\<exists>b. ((\<lambda>m. obind m (bench_round stale reorder)) ^^ k) (Inr (bench_begin S isn_x isn_y)) = Inr b \<and>
      prefix (bm_received b) S \<and> (ByteStream_eof (TCPConnection_inbound_stream (bm_y b)) \<longrightarrow> bm_received b = S)"
    using bench_inv_delivers by blast
  show "\<forall>r. bench_main_loop S isn_x isn_y stale reorder = Some r \<longrightarrow> (\<exists>b. r = Inr b)"
  proof (intro allI impI)
    fix r assume r: "bench_main_loop S isn_x isn_y stale reorder = Some r"
    then obtain m where m: "bench_while (\<lambda>b. \<not> ByteStream_eof (TCPConnection_inbound_stream (bm_y b))) stale reorder
        (bench_begin S isn_x isn_y) = Some m" by (auto simp: bench_main_loop_def split: option.splits)
    from mp [OF bench_while_keeps [OF this] bench_begin_inv [OF assms]] obtain b where b: "m = Inr b" "bench_inv S b"
      "ByteStream_eof (TCPConnection_inbound_stream (bm_y b))" by auto
    with r m bench_inv_delivers(2) [OF b(2)] have
      "bench_while (\<lambda>b. TCPConnection_active (bm_x b) \<or> TCPConnection_active (bm_y b)) stale reorder b = Some r"
      by (simp add: bench_main_loop_def)
    from mp [OF bench_while_keeps [OF this] b(2)] show "\<exists>b. r = Inr b" by blast
  qed
qed

theorem benchmark_never_throws_witness:
  "\<exists>b. bench_round (WrappingInt32 0) True (bench_begin [1, 2] (WrappingInt32 3) (WrappingInt32 4)) = Inr b \<and>
     prefix (bm_received b) [1, 2]"
  using benchmark_never_throws [where S = "[1, 2]" and k = 1 and stale = "WrappingInt32 0" and reorder = True
      and isn_x = "WrappingInt32 3" and isn_y = "WrappingInt32 4"] by auto

end
