(* ===== verification/Printing.thy ===== *)
theory Printing
  imports Tcp_Segment Ipv4_Datagram Addresses
begin

text \<open>
  What the programs print about packets: \<^verbatim>\<open>hexdump\<close> of \<^verbatim>\<open>libsponge/util/util.cc\<close> and the functions
  \<^verbatim>\<open>to_string\<close> and \<^verbatim>\<open>summary\<close> of the two headers. A stream of the standard library is the text written
  to it; the manipulators are functions on the text of one item. The dump is proved equal to a
  line by line layout from which the bytes can be read back, and the text of a header is
  proved to determine it.
\<close>

section \<open>Formatted output\<close>

text \<open>A number after \<^verbatim>\<open>std::hex\<close>, and an item after \<^verbatim>\<open>std::setw\<close> with the fill character \<^verbatim>\<open>'0'\<close>.\<close>

definition hex_digit :: "nat \<Rightarrow> char" where
  "hex_digit d = (if d < 10 then char_of (48 + d) else char_of (87 + d))"

fun hex_of_nat :: "nat \<Rightarrow> string" where
  "hex_of_nat n = (if n < 16 then [hex_digit n] else hex_of_nat (n div 16) @ [hex_digit (n mod 16)])"

declare hex_of_nat.simps [simp del]

definition setw0 :: "nat \<Rightarrow> string \<Rightarrow> string" where
  "setw0 w s = replicate (w - length s) CHR ''0'' @ s"

definition boolalpha :: "bool \<Rightarrow> string" where
  "boolalpha b = (if b then ''true'' else ''false'')"

text \<open>\<^verbatim>\<open>operator<<\<close> prints the raw value in the base of the stream.\<close>

definition WrappingInt32_hex :: "WrappingInt32 \<Rightarrow> string" where
  "WrappingInt32_hex a = hex_of_nat (unat (raw_value a))"

definition WrappingInt32_dec :: "WrappingInt32 \<Rightarrow> string" where
  "WrappingInt32_dec a = string_of_nat (unat (raw_value a))"

section \<open>The headers\<close>

definition TCPHeader_to_string :: "tcp_header \<Rightarrow> string" where
  "TCPHeader_to_string h =
     ''TCP source port: '' @ hex_of_nat (unat (th_sport h)) @ ''\<newline>'' @
     ''TCP dest port: '' @ hex_of_nat (unat (th_dport h)) @ ''\<newline>'' @
     ''TCP seqno: '' @ WrappingInt32_hex (th_seqno h) @ ''\<newline>'' @
     ''TCP ackno: '' @ WrappingInt32_hex (th_ackno h) @ ''\<newline>'' @
     ''TCP doff: '' @ hex_of_nat (unat (th_doff h)) @ ''\<newline>'' @
     ''Flags: urg: '' @ boolalpha (th_urg h) @ '' ack: '' @ boolalpha (th_ack h) @
     '' psh: '' @ boolalpha (th_psh h) @ '' rst: '' @ boolalpha (th_rst h) @
     '' syn: '' @ boolalpha (th_syn h) @ '' fin: '' @ boolalpha (th_fin h) @ ''\<newline>'' @
     ''TCP winsize: '' @ hex_of_nat (unat (th_win h)) @ ''\<newline>'' @
     ''TCP cksum: '' @ hex_of_nat (unat (th_cksum h)) @ ''\<newline>'' @
     ''TCP uptr: '' @ hex_of_nat (unat (th_uptr h)) @ ''\<newline>''"

definition TCPHeader_summary :: "tcp_header \<Rightarrow> string" where
  "TCPHeader_summary h =
     ''Header(flags='' @ (if th_syn h then ''S'' else []) @ (if th_ack h then ''A'' else []) @
     (if th_rst h then ''R'' else []) @ (if th_fin h then ''F'' else []) @
     '',seqno='' @ WrappingInt32_dec (th_seqno h) @ '',ack='' @ WrappingInt32_dec (th_ackno h) @
     '',win='' @ string_of_nat (unat (th_win h)) @ '')''"

definition IPv4Header_to_string :: "ipv4_header \<Rightarrow> string" where
  "IPv4Header_to_string h =
     ''IP version: '' @ hex_of_nat (unat (ih_ver h)) @ ''\<newline>'' @
     ''IP hdr len: '' @ hex_of_nat (unat (ih_hlen h)) @ ''\<newline>'' @
     ''IP tos: '' @ hex_of_nat (unat (ih_tos h)) @ ''\<newline>'' @
     ''IP dgram len: '' @ hex_of_nat (unat (ih_len h)) @ ''\<newline>'' @
     ''IP id: '' @ hex_of_nat (unat (ih_id h)) @ ''\<newline>'' @
     ''Flags: df: '' @ boolalpha (ih_df h) @ '' mf: '' @ boolalpha (ih_mf h) @ ''\<newline>'' @
     ''Offset: '' @ hex_of_nat (unat (ih_offset h)) @ ''\<newline>'' @
     ''TTL: '' @ hex_of_nat (unat (ih_ttl h)) @ ''\<newline>'' @
     ''Protocol: '' @ hex_of_nat (unat (ih_proto h)) @ ''\<newline>'' @
     ''Checksum: '' @ hex_of_nat (unat (ih_cksum h)) @ ''\<newline>'' @
     ''Src addr: '' @ hex_of_nat (unat (ih_src h)) @ ''\<newline>'' @
     ''Dst addr: '' @ hex_of_nat (unat (ih_dst h)) @ ''\<newline>''"

definition IPv4Header_summary :: "libc \<Rightarrow> ipv4_header \<Rightarrow> string" where
  "IPv4Header_summary lc h =
     ''IPv'' @ hex_of_nat (unat (ih_ver h)) @ '', '' @
     ''len='' @ hex_of_nat (unat (ih_len h)) @ '', '' @
     ''protocol='' @ hex_of_nat (unat (ih_proto h)) @ '', '' @
     (if ih_ttl h \<ge> 10 then [] else ''ttl='' @ string_of_nat (unat (ih_ttl h)) @ '', '') @
     ''src='' @ lc_inet_ntoa lc (be_bytes (ih_src h)) @ '', '' @
     ''dst='' @ lc_inet_ntoa lc (be_bytes (ih_dst h))"

section \<open>The dump of bytes\<close>

text \<open>
  A \<^verbatim>\<open>std::stringstream\<close> made from a text, or given one by \<^verbatim>\<open>str\<close>, writes at its beginning: the
  space that \<^verbatim>\<open>pchars\<close> starts with is overwritten by the first character.
\<close>

record string_stream =
  ss_text :: string
  ss_put :: nat

definition stringstream_of :: "string \<Rightarrow> string_stream" where
  "stringstream_of s = \<lparr>ss_text = s, ss_put = 0\<rparr>"

definition stringstream_char :: "string_stream \<Rightarrow> char \<Rightarrow> string_stream" where
  "stringstream_char ss c =
     \<lparr>ss_text = take (ss_put ss) (ss_text ss) @ c # drop (Suc (ss_put ss)) (ss_text ss),
      ss_put = Suc (ss_put ss)\<rparr>"

definition isprint :: "u8 \<Rightarrow> bool" where
  "isprint b \<longleftrightarrow> 32 \<le> b \<and> b \<le> 126"

definition char_of_byte :: "u8 \<Rightarrow> char" where
  "char_of_byte b = char_of (unat b)"

text \<open>
  The state of the loop: what was written to \<^verbatim>\<open>cout\<close>, \<^verbatim>\<open>pchars\<close> and \<^verbatim>\<open>printed\<close>. The dumped packets
  are shorter than the range of the two counters.
\<close>

record dump_state =
  du_cout :: string
  du_pchars :: string_stream
  du_printed :: nat

definition hexdump_byte :: "nat \<Rightarrow> u8 \<Rightarrow> dump_state \<Rightarrow> dump_state" where
  "hexdump_byte indent b d =
     (let printed = du_printed d;
          d = (if printed mod 16 = 0 then
                 let d = (if printed \<noteq> 0
                          then d\<lparr>du_cout := du_cout d @ ''    '' @ ss_text (du_pchars d) @ ''\<newline>'',
                                 du_pchars := stringstream_of '' ''\<rparr>
                          else d)
                 in d\<lparr>du_cout := du_cout d @ replicate indent CHR '' '' @ setw0 8 (hex_of_nat printed) @ '':    ''\<rparr>
               else if printed mod 2 = 0 then d\<lparr>du_cout := du_cout d @ '' ''\<rparr>
               else d)
      in d\<lparr>du_cout := du_cout d @ setw0 2 (hex_of_nat (unat b)),
           du_pchars := stringstream_char (du_pchars d) (if isprint b then char_of_byte b else CHR ''.''),
           du_printed := printed + 1\<rparr>)"

definition hexdump :: "bytes \<Rightarrow> nat \<Rightarrow> string" where
  "hexdump data indent =
     (let d = fold (hexdump_byte indent) data \<lparr>du_cout = [], du_pchars = stringstream_of '' '', du_printed = 0\<rparr>;
          print_rem = (16 - du_printed d mod 16) mod 16
      in du_cout d @ replicate (2 * print_rem + print_rem div 2 + 4) CHR '' '' @ ss_text (du_pchars d) @
         ''\<newline>\<newline>'')"

section \<open>Hexadecimal numbers\<close>

lemma hex_of_nat_nonempty [simp]: "hex_of_nat n \<noteq> []"
  by (subst hex_of_nat.simps) simp

lemma length_hex_of_byte: "length (setw0 2 (hex_of_nat (unat (b :: u8)))) = 2"
proof -
  have "unat b < 256" using unsigned_less [of b, where 'a = nat] by simp
  then have "unat b div 16 < 16" by simp
  then show ?thesis by (simp add: setw0_def hex_of_nat.simps [of "unat b"] hex_of_nat.simps [of "unat b div 16"])
qed

definition hex_digit_value :: "char \<Rightarrow> nat" where
  "hex_digit_value c = (let v = of_char c in if v < 58 then v - 48 else v - 87)"

definition hex_value :: "string \<Rightarrow> nat" where
  "hex_value s = fold (\<lambda>c n. 16 * n + hex_digit_value c) s 0"

lemma of_char_hex_digit: "d < 16 \<Longrightarrow> of_char (hex_digit d) = (if d < 10 then 48 + d else 87 + d)"
  by (simp add: hex_digit_def of_char_of)

lemma hex_digit_value: "d < 16 \<Longrightarrow> hex_digit_value (hex_digit d) = d"
  using of_char_hex_digit [of d] by (simp add: hex_digit_value_def Let_def split: if_splits)

lemma hex_value_hex_of_nat: "hex_value (hex_of_nat n) = n"
proof (induction n rule: hex_of_nat.induct)
  case (1 n)
  then show ?case using hex_digit_value [of n] hex_digit_value [of "n mod 16"]
    by (subst hex_of_nat.simps) (auto simp: hex_value_def)
qed

lemma hex_of_nat_text: "c \<in> set (hex_of_nat n) \<Longrightarrow> 48 \<le> (of_char c :: nat)"
proof (induction n rule: hex_of_nat.induct)
  case (1 n)
  from 1(2) have "c \<in> set (hex_of_nat (n div 16)) \<and> \<not> n < 16 \<or> c = hex_digit (n mod 16)"
    by (subst (asm) hex_of_nat.simps) (auto split: if_splits)
  then show ?case using 1(1) of_char_hex_digit [of "n mod 16"] by (auto split: if_splits)
qed

lemma hex_of_nat_eq [simp]: "hex_of_nat m = hex_of_nat n \<longleftrightarrow> m = n"
  using hex_value_hex_of_nat by metis

text \<open>A number ends at the first character below \<^verbatim>\<open>'0'\<close>, so it can be read off the text around it.\<close>

lemma append_stop_eq:
  assumes "\<And>x. x \<in> set us \<Longrightarrow> x \<noteq> c" and "\<And>x. x \<in> set vs \<Longrightarrow> x \<noteq> c"
  shows "us @ c # xs = vs @ c # ys \<longleftrightarrow> us = vs \<and> xs = ys"
proof
  assume "us @ c # xs = vs @ c # ys"
  then have "takeWhile (\<lambda>x. x \<noteq> c) (us @ c # xs) = takeWhile (\<lambda>x. x \<noteq> c) (vs @ c # ys)"
    by simp
  with assms have "us = vs" by (simp add: takeWhile_append2)
  with \<open>us @ c # xs = vs @ c # ys\<close> show "us = vs \<and> xs = ys" by simp
qed simp

lemma hex_line_eq [simp]:
  "hex_of_nat m @ CHR ''\<newline>'' # xs = hex_of_nat n @ CHR ''\<newline>'' # ys \<longleftrightarrow> m = n \<and> xs = ys"
proof -
  have "x \<noteq> CHR ''\<newline>''" if "x \<in> set (hex_of_nat k)" for x k
    using hex_of_nat_text [OF that] by auto
  then have "hex_of_nat m @ CHR ''\<newline>'' # xs = hex_of_nat n @ CHR ''\<newline>'' # ys \<longleftrightarrow>
      hex_of_nat m = hex_of_nat n \<and> xs = ys" by (intro append_stop_eq) blast+
  then show ?thesis by simp
qed

lemma boolalpha_eq [simp]: "boolalpha a @ xs = boolalpha b @ ys \<longleftrightarrow> a = b \<and> xs = ys"
  by (simp add: boolalpha_def)

section \<open>The layout of a dump\<close>

text \<open>
  The reference: lines of sixteen bytes, each with its offset, the bytes in pairs in a field of 43
  columns and the bytes as characters; the dump ends with an empty line.
\<close>

abbreviation dump_byte :: "u8 \<Rightarrow> string" where
  "dump_byte b \<equiv> setw0 2 (hex_of_nat (unat b))"

fun hex_pairs :: "bytes \<Rightarrow> string" where
  "hex_pairs (a # b # c # bs) = dump_byte a @ dump_byte b @ CHR '' '' # hex_pairs (c # bs)"
| "hex_pairs bs = concat (map dump_byte bs)"

definition dump_text :: "bytes \<Rightarrow> string" where
  "dump_text bs = map (\<lambda>b. if isprint b then char_of_byte b else CHR ''.'') bs"

definition column :: "nat \<Rightarrow> string \<Rightarrow> string" where
  "column w s = s @ replicate (w - length s) CHR '' ''"

definition dump_line :: "nat \<Rightarrow> nat \<Rightarrow> bytes \<Rightarrow> string" where
  "dump_line indent offset bs =
     replicate indent CHR '' '' @ setw0 8 (hex_of_nat offset) @ '':    '' @ column 43 (hex_pairs bs) @ dump_text bs"

function dump_layout :: "nat \<Rightarrow> nat \<Rightarrow> bytes \<Rightarrow> string" where
  "dump_layout indent offset bs =
     (if length bs \<le> 16 then dump_line indent offset bs @ ''\<newline>\<newline>''
      else dump_line indent offset (take 16 bs) @ ''\<newline>'' @ dump_layout indent (offset + 16) (drop 16 bs))"
  by pat_completeness auto
termination
  by (relation "measure (\<lambda>(_, _, bs). length bs)") auto

declare dump_layout.simps [simp del]

lemma hex_pairs_snoc:
  "hex_pairs (bs @ [b]) =
     hex_pairs bs @ (if bs \<noteq> [] \<and> even (length bs) then '' '' else []) @ dump_byte b"
  by (induction bs rule: hex_pairs.induct) auto

lemma length_hex_pairs: "length (hex_pairs bs) = 2 * length bs + (length bs - 1) div 2"
  by (induction bs rule: hex_pairs.induct) (auto simp: length_hex_of_byte)

text \<open>The state of the loop inside a line that starts at offset \<open>p\<close>.\<close>

definition line_start :: "dump_state \<Rightarrow> string" where
  "line_start d =
     du_cout d @ (if du_printed d \<noteq> 0 then ''    '' @ ss_text (du_pchars d) @ ''\<newline>'' else [])"

definition dump_fresh :: "dump_state \<Rightarrow> bool" where
  "dump_fresh d \<longleftrightarrow> du_printed d mod 16 = 0 \<and> (du_printed d = 0 \<longrightarrow> du_pchars d = stringstream_of '' '')"

lemma stringstream_put:
  "stringstream_char (stringstream_of '' '') c = \<lparr>ss_text = [c], ss_put = 1\<rparr>"
  "n = length s \<Longrightarrow> stringstream_char \<lparr>ss_text = s, ss_put = n\<rparr> c = \<lparr>ss_text = s @ [c], ss_put = Suc n\<rparr>"
  by (simp_all add: stringstream_char_def stringstream_of_def)

lemma hexdump_byte_first:
  assumes "dump_fresh d"
  shows "hexdump_byte indent b d =
    d\<lparr>du_cout := line_start d @ replicate indent CHR '' '' @ setw0 8 (hex_of_nat (du_printed d)) @ '':    '' @ dump_byte b,
      du_pchars := \<lparr>ss_text = dump_text [b], ss_put = 1\<rparr>, du_printed := Suc (du_printed d)\<rparr>"
  using assms by (simp add: hexdump_byte_def Let_def dump_fresh_def line_start_def stringstream_put dump_text_def)

lemma hexdump_byte_next:
  assumes "du_printed d mod 16 \<noteq> 0"
  shows "hexdump_byte indent b d =
    d\<lparr>du_cout := du_cout d @ (if even (du_printed d) then '' '' else []) @ dump_byte b,
      du_pchars := stringstream_char (du_pchars d) (hd (dump_text [b])), du_printed := Suc (du_printed d)\<rparr>"
  using assms by (simp add: hexdump_byte_def Let_def dump_text_def even_iff_mod_2_eq_zero)

lemma hexdump_line:
  assumes "dump_fresh d" and "bs \<noteq> []" and "length bs \<le> 16"
  shows "fold (hexdump_byte indent) bs d =
    d\<lparr>du_cout := line_start d @ replicate indent CHR '' '' @ setw0 8 (hex_of_nat (du_printed d)) @
        '':    '' @ hex_pairs bs,
      du_pchars := \<lparr>ss_text = dump_text bs, ss_put = length (dump_text bs)\<rparr>,
      du_printed := du_printed d + length bs\<rparr>"
  using assms(2,3)
proof (induction bs rule: rev_induct)
  case (snoc b bs)
  show ?case
  proof (cases "bs = []")
    case True
    with assms(1) show ?thesis by (simp add: hexdump_byte_first dump_text_def)
  next
    case False
    let ?d = "fold (hexdump_byte indent) bs d"
    have d: "?d = d\<lparr>du_cout := line_start d @ replicate indent CHR '' '' @ setw0 8 (hex_of_nat (du_printed d)) @
        '':    '' @ hex_pairs bs, du_pchars := \<lparr>ss_text = dump_text bs, ss_put = length (dump_text bs)\<rparr>,
        du_printed := du_printed d + length bs\<rparr>"
      using snoc False by simp
    obtain k where k: "du_printed d = 16 * k" using assms(1) by (auto simp: dump_fresh_def)
    have "du_printed ?d mod 16 \<noteq> 0" "even (du_printed ?d) \<longleftrightarrow> even (length bs)"
      using snoc.prems(2) False by (simp_all add: d k)
    from hexdump_byte_next [OF this(1), of indent b] this(2) show ?thesis
      using False by (simp add: d hex_pairs_snoc stringstream_put dump_text_def)
  qed
qed simp

definition dump_end :: "dump_state \<Rightarrow> string" where
  "dump_end d =
     (let print_rem = (16 - du_printed d mod 16) mod 16
      in du_cout d @ replicate (2 * print_rem + print_rem div 2 + 4) CHR '' '' @ ss_text (du_pchars d) @ ''\<newline>\<newline>'')"

lemma dump_end_pad:
  assumes "p mod 16 = 0" and "0 < n" and "n \<le> 16"
  shows "43 - (2 * n + (n - 1) div 2) =
    2 * ((16 - (p + n) mod 16) mod 16) + ((16 - (p + n) mod 16) mod 16) div 2 + (4 :: nat)"
proof -
  have "(p + n) mod 16 = n mod 16" using assms(1) by (metis add.left_neutral mod_add_left_eq)
  moreover have "n \<in> {1..16}" using assms by simp
  then have "n \<in> set [1..<17]" by auto
  then have "43 - (2 * n + (n - 1) div 2) = 2 * ((16 - n mod 16) mod 16) + ((16 - n mod 16) mod 16) div 2 + (4 :: nat)"
    by (simp add: upt_rec) auto
  ultimately show ?thesis by simp
qed

lemma four_blanks: "replicate 4 CHR '' '' = ''    ''"
  by (simp add: eval_nat_numeral)

lemma dump_end_layout:
  assumes "dump_fresh d" and "bs \<noteq> []"
  shows "dump_end (fold (hexdump_byte indent) bs d) = line_start d @ dump_layout indent (du_printed d) bs"
  using assms
proof (induction "length bs" arbitrary: bs d rule: less_induct)
  case less
  show ?case
  proof (cases "length bs \<le> 16")
    case True
    have "dump_end_pad_ok": "43 - length (hex_pairs bs) =
        2 * ((16 - (du_printed d + length bs) mod 16) mod 16) +
        ((16 - (du_printed d + length bs) mod 16) mod 16) div 2 + 4"
      unfolding length_hex_pairs
      by (rule dump_end_pad) (use less.prems True in \<open>auto simp: dump_fresh_def\<close>)
    show ?thesis
      by (simp add: hexdump_line [OF less.prems True] dump_end_def Let_def dump_layout.simps [of _ _ bs] True
          dump_line_def column_def dump_end_pad_ok)
  next
    case False
    let ?d = "fold (hexdump_byte indent) (take 16 bs) d"
    have l: "take 16 bs \<noteq> []" "length (take 16 bs) \<le> 16" "length (take 16 bs) = 16" using False less.prems by auto
    note d = hexdump_line [OF less.prems(1) l(1,2), of indent]
    have fresh: "dump_fresh ?d" using less.prems(1) l(3) unfolding d dump_fresh_def by simp
    have "fold (hexdump_byte indent) bs d = fold (hexdump_byte indent) (drop 16 bs) ?d"
      by (metis append_take_drop_id comp_apply fold_append)
    moreover have "dump_end (fold (hexdump_byte indent) (drop 16 bs) ?d) =
        line_start ?d @ dump_layout indent (du_printed ?d) (drop 16 bs)"
      by (rule less.hyps) (use False fresh in auto)
    moreover have "line_start ?d @ dump_layout indent (du_printed ?d) (drop 16 bs) =
        line_start d @ dump_layout indent (du_printed d) bs"
      using l(3) length_hex_pairs [of "take 16 bs"] False
      unfolding d dump_layout.simps [of indent "du_printed d" bs]
      by (simp add: line_start_def dump_line_def column_def four_blanks)
    ultimately show ?thesis by simp
  qed
qed

section \<open>Properties\<close>

text \<open>
  C32: the dump of a packet is laid out line by line: every sixteen bytes the offset, the bytes in
  pairs of two hexadecimal digits and, always in the same column, the same bytes as characters.
\<close>

theorem hexdump_layout:
  assumes "data \<noteq> []"
  shows "hexdump data indent = dump_layout indent 0 data"
  using dump_end_layout [of "\<lparr>du_cout = [], du_pchars = stringstream_of '' '', du_printed = 0\<rparr>" data indent] assms
  by (simp add: hexdump_def dump_end_def Let_def dump_fresh_def line_start_def)

theorem hexdump_layout_witness:
  "hexdump [72, 105, 0] 1 = '' 00000000:    4869 00                                    Hi.'' @ ''\<newline>\<newline>''"
proof -
  have "hexdump [72, 105, 0] 1 = dump_layout 1 0 [72, 105, 0]" by (rule hexdump_layout) simp
  also have "\<dots> = '' 00000000:    4869 00                                    Hi.'' @ ''\<newline>\<newline>''"
    by code_simp
  finally show ?thesis .
qed

lemma unat_same: "unat a = unat b \<longleftrightarrow> a = b"
  by (rule word_unat_eq_iff [symmetric])

text \<open>
  The text of a TCP header determines the header.
\<close>

theorem TCPHeader_to_string_injective:
  "TCPHeader_to_string h = TCPHeader_to_string k \<longleftrightarrow> h = k"
proof
  assume "TCPHeader_to_string h = TCPHeader_to_string k"
  then show "h = k"
    by (cases h; cases k) (auto simp: TCPHeader_to_string_def WrappingInt32_hex_def WrappingInt32.expand unat_same)
qed simp

theorem IPv4Header_to_string_injective:
  "IPv4Header_to_string h = IPv4Header_to_string k \<longleftrightarrow> h = k"
proof
  assume "IPv4Header_to_string h = IPv4Header_to_string k"
  then show "h = k" by (cases h; cases k) (auto simp: IPv4Header_to_string_def unat_same)
qed simp

end
