(* ===== verification/Command_Line.thy ===== *)
theory Command_Line
  imports Datagram_Adapters Tcp_Sender
begin

text \<open>
  The command lines of the programs \<^verbatim>\<open>apps/tcp_udp.cc\<close> and \<^verbatim>\<open>apps/tcp_ipv4.cc\<close>: their usage texts and
  the loop over the options, which fills the configurations of the connection and of the adapter.
  The functions of the C library that read numbers are modelled, but for the conversion of a loss
  rate through floating point, which is an argument. The loops are proved to read only arguments
  that exist and to leave exactly the last two.
\<close>

section \<open>Programs that may exit\<close>

text \<open>
  A program ends early by \<^verbatim>\<open>exit\<close>, with its code and what it printed before, by \<^verbatim>\<open>abort\<close> or by an
  exception; a pointer past the arguments is null and may not be read.
\<close>

datatype program_stop = Exit_program int string | Aborts | Throws cpp_fault

type_synonym 'a run = "program_stop + 'a"

definition rbind :: "'a run \<Rightarrow> ('a \<Rightarrow> 'b run) \<Rightarrow> 'b run" where
  "rbind m f = (case m of Inl e \<Rightarrow> Inl e | Inr x \<Rightarrow> f x)"

lemma rbind_simps [simp]:
  "rbind (Inl e) f = Inl e"
  "rbind (Inr x) f = f x"
  by (simp_all add: rbind_def)

lemma rbind_cong [fundef_cong]:
  "m = m' \<Longrightarrow> (\<And>x. m' = Inr x \<Longrightarrow> f x = g x) \<Longrightarrow> rbind m f = rbind m' g"
  by (cases m) auto

lemma rbind_Inr_iff: "rbind m f = Inr y \<longleftrightarrow> (\<exists>x. m = Inr x \<and> f x = Inr y)"
  by (cases m) simp_all

definition throwing :: "'a outcome \<Rightarrow> 'a run" where
  "throwing m = (case m of Inl e \<Rightarrow> Inl (Throws e) | Inr x \<Rightarrow> Inr x)"

definition arg_at :: "string list \<Rightarrow> nat \<Rightarrow> string run" where
  "arg_at argv i = (if i < length argv then Inr (argv ! i) else Inl (Throws Out_of_bounds_read))"

section \<open>Functions of the C library\<close>

definition c_str :: "string \<Rightarrow> string" where
  "c_str s = takeWhile (\<lambda>c. c \<noteq> CHR 0x00) s @ [CHR 0x00]"

text \<open>\<^verbatim>\<open>strncmp(a, b, n) == 0\<close>: the texts agree up to their end or in the first \<open>n\<close> characters.\<close>

definition strncmp_zero :: "string \<Rightarrow> string \<Rightarrow> nat \<Rightarrow> bool" where
  "strncmp_zero a b n \<longleftrightarrow> take n (c_str a) = take n (c_str b)"

definition digit_value :: "char \<Rightarrow> nat" where
  "digit_value c =
     (let v = of_char c
      in if 48 \<le> v \<and> v \<le> 57 then v - 48
         else if 97 \<le> v \<and> v \<le> 122 then v - 87
         else if 65 \<le> v \<and> v \<le> 90 then v - 55
         else 36)"

text \<open>\<^verbatim>\<open>strtol(s, nullptr, 0)\<close>: the prefix chooses the base, and the value is kept in the range of \<^verbatim>\<open>long\<close>.\<close>

definition strtol :: "string \<Rightarrow> int" where
  "strtol s =
     (let s = dropWhile is_space s;
          neg = (s \<noteq> [] \<and> hd s = CHR ''-'');
          s = (if s \<noteq> [] \<and> (hd s = CHR ''-'' \<or> hd s = CHR ''+'') then tl s else s);
          (base, s) =
            (if length s > 2 \<and> s ! 0 = CHR ''0'' \<and> s ! 1 \<in> {CHR ''x'', CHR ''X''} \<and> digit_value (s ! 2) < 16
             then (16, drop 2 s)
             else if s \<noteq> [] \<and> hd s = CHR ''0'' then (8, s)
             else (10, s));
          v = int (fold (\<lambda>c n. base * n + digit_value c) (takeWhile (\<lambda>c. digit_value c < base) s) 0);
          v = (if neg then - v else v)
      in max (- (2 ^ 63)) (min (2 ^ 63 - 1) v))"

section \<open>The program over UDP\<close>

text \<open>
  The argument \<open>rate\<close> stands for the number that the code computes from a loss rate:
  \<^verbatim>\<open>strtof\<close> scaled to the range of \<^verbatim>\<open>uint16_t\<close>.
\<close>

definition tcp_udp_show_usage :: "string \<Rightarrow> string option \<Rightarrow> string" where
  "tcp_udp_show_usage argv0 msg =
     ''Usage: '' @ argv0 @ '' [options] <host> <port>\<newline>\<newline>'' @
     ''   Option                                                          Default\<newline>'' @
     ''   --                                                              --\<newline>\<newline>'' @
     ''   -l              Server (listen) mode.                           (client mode)\<newline>'' @
     ''                   In server mode, <host>:<port> is the address to bind.\<newline>\<newline>'' @
     ''   -w <winsz>      Use a window of <winsz> bytes                   '' @ string_of_nat (unat MAX_PAYLOAD_SIZE) @
     ''\<newline>\<newline>'' @
     ''   -t <tmout>      Set rt_timeout to tmout                         '' @ string_of_nat (unat TIMEOUT_DFLT) @
     ''\<newline>\<newline>'' @
     ''   -Lu <loss>      Set uplink loss to <rate> (float in 0..1)       (no loss)\<newline>'' @
     ''   -Ld <loss>      Set downlink loss to <rate> (float in 0..1)     (no loss)\<newline>\<newline>'' @
     ''   -h              Show this message and quit.\<newline>\<newline>'' @
     (case msg of None \<Rightarrow> [] | Some m \<Rightarrow> m) @ ''\<newline>''"

definition tcp_udp_check_argc :: "string list \<Rightarrow> nat \<Rightarrow> string \<Rightarrow> unit run" where
  "tcp_udp_check_argc argv cur err =
     (if cur + 3 \<ge> length argv
      then rbind (arg_at argv 0) (\<lambda>argv0. Inl (Exit_program 1 (tcp_udp_show_usage argv0 (Some err))))
      else Inr ())"

record tcp_options =
  op_fsm :: tcp_config
  op_filt :: fd_adapter_config
  op_listen :: bool

definition tcp_udp_option ::
  "(string \<Rightarrow> u16) \<Rightarrow> string list \<Rightarrow> nat \<Rightarrow> tcp_options \<Rightarrow> (nat \<times> tcp_options) run" where
  "tcp_udp_option rate argv cur ops =
     rbind (arg_at argv cur) (\<lambda>opt.
     if strncmp_zero ''-l'' opt 3 then Inr (cur + 1, ops\<lparr>op_listen := True\<rparr>)
     else if strncmp_zero ''-w'' opt 3 then
       rbind (tcp_udp_check_argc argv cur ''ERROR: -w requires one argument.'') (\<lambda>_.
       rbind (arg_at argv (cur + 1)) (\<lambda>v.
         Inr (cur + 2, ops\<lparr>op_fsm := (op_fsm ops)\<lparr>tc_recv_capacity := word_of_int (strtol v)\<rparr>\<rparr>)))
     else if strncmp_zero ''-t'' opt 3 then
       rbind (tcp_udp_check_argc argv cur ''ERROR: -t requires one argument.'') (\<lambda>_.
       rbind (arg_at argv (cur + 1)) (\<lambda>v.
         Inr (cur + 2, ops\<lparr>op_fsm := (op_fsm ops)\<lparr>tc_rt_timeout := word_of_int (strtol v)\<rparr>\<rparr>)))
     else if strncmp_zero ''-Lu'' opt 3 then
       rbind (tcp_udp_check_argc argv cur ''ERROR: -Lu requires one argument.'') (\<lambda>_.
       rbind (arg_at argv (cur + 1)) (\<lambda>v.
         Inr (cur + 2, ops\<lparr>op_filt := (op_filt ops)\<lparr>fa_loss_rate_up := rate v\<rparr>\<rparr>)))
     else if strncmp_zero ''-Ld'' opt 3 then
       rbind (tcp_udp_check_argc argv cur ''ERROR: -Lu requires one argument.'') (\<lambda>_.
       rbind (arg_at argv (cur + 1)) (\<lambda>v.
         Inr (cur + 2, ops\<lparr>op_filt := (op_filt ops)\<lparr>fa_loss_rate_dn := rate v\<rparr>\<rparr>)))
     else rbind (arg_at argv 0) (\<lambda>argv0.
       if strncmp_zero ''-h'' opt 3 then Inl (Exit_program 0 (tcp_udp_show_usage argv0 None))
       else Inl (Exit_program 1 (tcp_udp_show_usage argv0 (Some (''ERROR: unrecognized option '' @ opt))))))"

lemma tcp_udp_option_increases: "tcp_udp_option rate argv cur ops = Inr (n, ops') \<Longrightarrow> cur < n"
  by (auto simp: tcp_udp_option_def rbind_Inr_iff split: if_splits)

function tcp_udp_options ::
  "(string \<Rightarrow> u16) \<Rightarrow> string list \<Rightarrow> nat \<Rightarrow> tcp_options \<Rightarrow> (nat \<times> tcp_options) run" where
  "tcp_udp_options rate argv cur ops =
     (if int (length argv) - int cur > 2
      then rbind (tcp_udp_option rate argv cur ops) (\<lambda>(cur, ops). tcp_udp_options rate argv cur ops)
      else Inr (cur, ops))"
  by pat_completeness auto
termination
  by (relation "measure (\<lambda>(_, argv, cur, _). length argv - cur)") (auto dest!: tcp_udp_option_increases)

declare tcp_udp_options.simps [simp del]

definition tcp_udp_positional ::
  "libc \<Rightarrow> string list \<Rightarrow> tcp_options \<Rightarrow> (tcp_config \<times> fd_adapter_config \<times> bool) run" where
  "tcp_udp_positional lc argv ops =
     (if op_listen ops then
        rbind (arg_at argv (length argv - 1)) (\<lambda>port.
        rbind (throwing (Address_of_name lc ''0'' port)) (\<lambda>a.
          Inr (op_fsm ops, (op_filt ops)\<lparr>fa_source := a\<rparr>, True)))
      else
        rbind (arg_at argv (length argv - 2)) (\<lambda>host.
        rbind (arg_at argv (length argv - 1)) (\<lambda>port.
        rbind (throwing (Address_of_name lc host port)) (\<lambda>a.
          Inr (op_fsm ops, (op_filt ops)\<lparr>fa_destination := a\<rparr>, False)))))"

definition tcp_udp_get_config ::
  "libc \<Rightarrow> (string \<Rightarrow> u16) \<Rightarrow> string list \<Rightarrow> (tcp_config \<times> fd_adapter_config \<times> bool) run" where
  "tcp_udp_get_config lc rate argv =
     rbind (throwing (FdAdapterConfig_default lc)) (\<lambda>c_filt.
     rbind (tcp_udp_options rate argv 1 \<lparr>op_fsm = TCPConfig_default, op_filt = c_filt, op_listen = False\<rparr>)
       (\<lambda>(cur, ops). tcp_udp_positional lc argv ops))"

section \<open>The program over IPv4\<close>

definition TUN_DFLT :: string where
  "TUN_DFLT = ''tun144''"

definition LOCAL_ADDRESS_DFLT :: string where
  "LOCAL_ADDRESS_DFLT = ''169.254.144.9''"

definition tcp_ipv4_show_usage :: "string \<Rightarrow> string option \<Rightarrow> string" where
  "tcp_ipv4_show_usage argv0 msg =
     ''Usage: '' @ argv0 @ '' [options] <host> <port>\<newline>\<newline>'' @
     ''   Option                                                          Default\<newline>'' @
     ''   --                                                              --\<newline>\<newline>'' @
     ''   -l              Server (listen) mode.                           (client mode)\<newline>'' @
     ''                   In server mode, <host>:<port> is the address to bind.\<newline>\<newline>'' @
     ''   -a <addr>       Set source address (client mode only)           '' @ LOCAL_ADDRESS_DFLT @ ''\<newline>'' @
     ''   -s <port>       Set source port (client mode only)              (random)\<newline>\<newline>'' @
     ''   -w <winsz>      Use a window of <winsz> bytes                   '' @ string_of_nat (unat MAX_PAYLOAD_SIZE) @
     ''\<newline>\<newline>'' @
     ''   -t <tmout>      Set rt_timeout to tmout                         '' @ string_of_nat (unat TIMEOUT_DFLT) @
     ''\<newline>\<newline>'' @
     ''   -d <tundev>     Connect to tun <tundev>                         '' @ TUN_DFLT @ ''\<newline>\<newline>'' @
     ''   -Lu <loss>      Set uplink loss to <rate> (float in 0..1)       (no loss)\<newline>'' @
     ''   -Ld <loss>      Set downlink loss to <rate> (float in 0..1)     (no loss)\<newline>\<newline>'' @
     ''   -h              Show this message.\<newline>\<newline>'' @
     (case msg of None \<Rightarrow> [] | Some m \<Rightarrow> m) @ ''\<newline>''"

definition tcp_ipv4_check_argc :: "string list \<Rightarrow> nat \<Rightarrow> string \<Rightarrow> unit run" where
  "tcp_ipv4_check_argc argv cur err =
     (if cur + 3 \<ge> length argv
      then rbind (arg_at argv 0) (\<lambda>argv0. Inl (Exit_program 1 (tcp_ipv4_show_usage argv0 (Some err))))
      else Inr ())"

record ipv4_options = tcp_options +
  op_tundev :: "string option"
  op_source_address :: string
  op_source_port :: string

definition tcp_ipv4_option ::
  "(string \<Rightarrow> u16) \<Rightarrow> string list \<Rightarrow> nat \<Rightarrow> ipv4_options \<Rightarrow> (nat \<times> ipv4_options) run" where
  "tcp_ipv4_option rate argv cur ops =
     rbind (arg_at argv cur) (\<lambda>opt.
     if strncmp_zero ''-l'' opt 3 then Inr (cur + 1, ops\<lparr>op_listen := True\<rparr>)
     else if strncmp_zero ''-a'' opt 3 then
       rbind (tcp_ipv4_check_argc argv cur ''ERROR: -a requires one argument.'') (\<lambda>_.
       rbind (arg_at argv (cur + 1)) (\<lambda>v. Inr (cur + 2, ops\<lparr>op_source_address := v\<rparr>)))
     else if strncmp_zero ''-s'' opt 3 then
       rbind (tcp_ipv4_check_argc argv cur ''ERROR: -s requires one argument.'') (\<lambda>_.
       rbind (arg_at argv (cur + 1)) (\<lambda>v. Inr (cur + 2, ops\<lparr>op_source_port := v\<rparr>)))
     else if strncmp_zero ''-w'' opt 3 then
       rbind (tcp_ipv4_check_argc argv cur ''ERROR: -w requires one argument.'') (\<lambda>_.
       rbind (arg_at argv (cur + 1)) (\<lambda>v.
         Inr (cur + 2, ops\<lparr>op_fsm := (op_fsm ops)\<lparr>tc_recv_capacity := word_of_int (strtol v)\<rparr>\<rparr>)))
     else if strncmp_zero ''-t'' opt 3 then
       rbind (tcp_ipv4_check_argc argv cur ''ERROR: -t requires one argument.'') (\<lambda>_.
       rbind (arg_at argv (cur + 1)) (\<lambda>v.
         Inr (cur + 2, ops\<lparr>op_fsm := (op_fsm ops)\<lparr>tc_rt_timeout := word_of_int (strtol v)\<rparr>\<rparr>)))
     else if strncmp_zero ''-d'' opt 3 then
       rbind (tcp_ipv4_check_argc argv cur ''ERROR: -t requires one argument.'') (\<lambda>_.
       rbind (arg_at argv (cur + 1)) (\<lambda>v. Inr (cur + 2, ops\<lparr>op_tundev := Some v\<rparr>)))
     else if strncmp_zero ''-Lu'' opt 3 then
       rbind (tcp_ipv4_check_argc argv cur ''ERROR: -Lu requires one argument.'') (\<lambda>_.
       rbind (arg_at argv (cur + 1)) (\<lambda>v.
         Inr (cur + 2, ops\<lparr>op_filt := (op_filt ops)\<lparr>fa_loss_rate_up := rate v\<rparr>\<rparr>)))
     else if strncmp_zero ''-Ld'' opt 3 then
       rbind (tcp_ipv4_check_argc argv cur ''ERROR: -Lu requires one argument.'') (\<lambda>_.
       rbind (arg_at argv (cur + 1)) (\<lambda>v.
         Inr (cur + 2, ops\<lparr>op_filt := (op_filt ops)\<lparr>fa_loss_rate_dn := rate v\<rparr>\<rparr>)))
     else rbind (arg_at argv 0) (\<lambda>argv0.
       if strncmp_zero ''-h'' opt 3 then Inl (Exit_program 0 (tcp_ipv4_show_usage argv0 None))
       else Inl (Exit_program 1 (tcp_ipv4_show_usage argv0 (Some (''ERROR: unrecognized option '' @ opt))))))"

lemma tcp_ipv4_option_increases: "tcp_ipv4_option rate argv cur ops = Inr (n, ops') \<Longrightarrow> cur < n"
  by (auto simp: tcp_ipv4_option_def rbind_Inr_iff split: if_splits)

function tcp_ipv4_options ::
  "(string \<Rightarrow> u16) \<Rightarrow> string list \<Rightarrow> nat \<Rightarrow> ipv4_options \<Rightarrow> (nat \<times> ipv4_options) run" where
  "tcp_ipv4_options rate argv cur ops =
     (if int (length argv) - int cur > 2
      then rbind (tcp_ipv4_option rate argv cur ops) (\<lambda>(cur, ops). tcp_ipv4_options rate argv cur ops)
      else Inr (cur, ops))"
  by pat_completeness auto
termination
  by (relation "measure (\<lambda>(_, argv, cur, _). length argv - cur)") (auto dest!: tcp_ipv4_option_increases)

declare tcp_ipv4_options.simps [simp del]

definition tcp_ipv4_positional ::
  "libc \<Rightarrow> string list \<Rightarrow> nat \<Rightarrow> ipv4_options \<Rightarrow> (tcp_config \<times> fd_adapter_config \<times> bool \<times> string option) run" where
  "tcp_ipv4_positional lc argv cur ops =
     (if op_listen ops then
        rbind (arg_at argv (cur + 1)) (\<lambda>port.
        rbind (throwing (Address_of_name lc ''0'' port)) (\<lambda>source.
        rbind (throwing (Address_port lc source)) (\<lambda>p.
        if p = 0 then
          rbind (arg_at argv 0) (\<lambda>argv0. Inl (Exit_program 1
            (tcp_ipv4_show_usage argv0 (Some ''ERROR: listen port cannot be zero in server mode.''))))
        else Inr (op_fsm ops, (op_filt ops)\<lparr>fa_source := source\<rparr>, True, op_tundev ops))))
      else
        rbind (arg_at argv cur) (\<lambda>host.
        rbind (arg_at argv (cur + 1)) (\<lambda>port.
        rbind (throwing (Address_of_name lc host port)) (\<lambda>destination.
        rbind (throwing (Address_of_name lc (op_source_address ops) (op_source_port ops))) (\<lambda>source.
          Inr (op_fsm ops, (op_filt ops)\<lparr>fa_destination := destination, fa_source := source\<rparr>,
               False, op_tundev ops))))))"

text \<open>The random number of the source port is an argument.\<close>

definition tcp_ipv4_get_config ::
  "libc \<Rightarrow> (string \<Rightarrow> u16) \<Rightarrow> u16 \<Rightarrow> string list \<Rightarrow>
     (tcp_config \<times> fd_adapter_config \<times> bool \<times> string option) run" where
  "tcp_ipv4_get_config lc rate random_port argv =
     rbind (throwing (FdAdapterConfig_default lc)) (\<lambda>c_filt.
     rbind (tcp_ipv4_options rate argv 1
              \<lparr>op_fsm = TCPConfig_default, op_filt = c_filt, op_listen = False, op_tundev = None,
               op_source_address = LOCAL_ADDRESS_DFLT, op_source_port = string_of_nat (unat random_port)\<rparr>)
       (\<lambda>(cur, ops). tcp_ipv4_positional lc argv cur ops))"

section \<open>The loop over the options\<close>

text \<open>
  The contract of an option: while more than two arguments are left, it is handled by an exit or by
  a move forward that leaves two arguments. The loop over such options leaves exactly two.
\<close>

definition exits :: "program_stop \<Rightarrow> bool" where
  "exits e \<longleftrightarrow> (\<exists>text. e = Exit_program 0 text \<or> e = Exit_program 1 text)"

definition moves_on :: "nat \<Rightarrow> nat \<Rightarrow> (nat \<times> 'o) run \<Rightarrow> bool" where
  "moves_on argc cur r \<longleftrightarrow> (case r of Inl e \<Rightarrow> exits e | Inr (n, _) \<Rightarrow> cur < n \<and> n + 2 \<le> argc)"

lemma moves_on_simps [simp]:
  "moves_on argc cur (Inr (n, ops)) \<longleftrightarrow> cur < n \<and> n + 2 \<le> argc"
  "moves_on argc cur (Inl (Exit_program 0 text))"
  "moves_on argc cur (Inl (Exit_program 1 text))"
  "moves_on argc cur (if b then r else r') \<longleftrightarrow> (b \<longrightarrow> moves_on argc cur r) \<and> (\<not> b \<longrightarrow> moves_on argc cur r')"
  by (simp_all add: moves_on_def exits_def)

lemma rbind_if: "rbind (if b then m else m') f = (if b then rbind m f else rbind m' f)"
  by simp

locale option_loop =
  fixes step loop :: "string list \<Rightarrow> nat \<Rightarrow> 'o \<Rightarrow> (nat \<times> 'o) run"
  assumes step_moves: "cur + 2 < length argv \<Longrightarrow> moves_on (length argv) cur (step argv cur ops)"
    and loop_unfold: "loop argv cur ops =
      (if int (length argv) - int cur > 2 then rbind (step argv cur ops) (\<lambda>(cur, ops). loop argv cur ops)
       else Inr (cur, ops))"
begin

lemma loop_leaves_two:
  assumes "cur + 2 \<le> length argv"
  shows "case loop argv cur ops of Inl e \<Rightarrow> exits e | Inr (n, _) \<Rightarrow> n + 2 = length argv"
  using assms
proof (induction "length argv - cur" arbitrary: cur ops rule: less_induct)
  case less
  have more: "int (length argv) - int cur > 2 \<longleftrightarrow> cur + 2 < length argv" by linarith
  note unfold = loop_unfold [of argv cur ops, unfolded more]
  show ?case
  proof (cases "cur + 2 < length argv")
    case True
    note moves = step_moves [OF this, of ops]
    show ?thesis
    proof (cases "step argv cur ops")
      case (Inl e)
      with moves True show ?thesis by (simp add: unfold moves_on_def)
    next
      case (Inr r)
      obtain n ops' where r: "r = (n, ops')" by (cases r)
      with moves Inr have n: "cur < n" "n + 2 \<le> length argv" by simp_all
      then have "case loop argv n ops' of Inl e \<Rightarrow> exits e | Inr (n, _) \<Rightarrow> n + 2 = length argv"
        by (intro less.hyps) simp_all
      with True Inr r show ?thesis by (simp add: unfold)
    qed
  next
    case False
    with less.prems show ?thesis by (simp add: unfold)
  qed
qed

end

lemma arg_at_ok [simp]: "i < length argv \<Longrightarrow> arg_at argv i = Inr (argv ! i)"
  by (simp add: arg_at_def)

interpretation udp_args: option_loop "tcp_udp_option rate" "tcp_udp_options rate"
proof
  show "moves_on (length argv) cur (tcp_udp_option rate argv cur ops)" if "cur + 2 < length argv" for cur argv ops
  proof -
    have "argv \<noteq> []" "cur < length argv" "cur + 1 < length argv" using that by auto
    then show ?thesis using that by (simp add: tcp_udp_option_def tcp_udp_check_argc_def rbind_if)
  qed
qed (rule tcp_udp_options.simps)

interpretation ipv4_args: option_loop "tcp_ipv4_option rate" "tcp_ipv4_options rate"
proof
  show "moves_on (length argv) cur (tcp_ipv4_option rate argv cur ops)" if "cur + 2 < length argv" for cur argv ops
  proof -
    have "argv \<noteq> []" "cur < length argv" "cur + 1 < length argv" using that by auto
    then show ?thesis using that by (simp add: tcp_ipv4_option_def tcp_ipv4_check_argc_def rbind_if)
  qed
qed (rule tcp_ipv4_options.simps)

text \<open>What the resolver may answer: an exception of one of the calls that make or read an address.\<close>

definition address_fault :: "libc \<Rightarrow> program_stop \<Rightarrow> bool" where
  "address_fault lc e \<longleftrightarrow> (\<exists>x. e = Throws x \<and>
     ((\<exists>h p. Address_of_name lc h p = Inl x) \<or> (\<exists>a. Address_port lc a = Inl x) \<or> FdAdapterConfig_default lc = Inl x))"

lemma last_two_arguments:
  assumes "n + 2 = length argv"
  shows "last argv = argv ! (n + 1)" "last (butlast argv) = argv ! n"
proof -
  have "argv \<noteq> []" "butlast argv \<noteq> []" using assms by (auto simp flip: length_greater_0_conv)
  then show "last argv = argv ! (n + 1)" "last (butlast argv) = argv ! n"
    using assms by (simp_all add: last_conv_nth nth_butlast flip: assms)
qed

lemma address_fault_intros:
  "Address_of_name lc h p = Inl x \<Longrightarrow> address_fault lc (Throws x)"
  "Address_port lc a = Inl x \<Longrightarrow> address_fault lc (Throws x)"
  "FdAdapterConfig_default lc = Inl x \<Longrightarrow> address_fault lc (Throws x)"
  by (auto simp: address_fault_def)

text \<open>
  What a command line that was read gives: the last two arguments are host and port; a server
  takes only the port.
\<close>

definition command_read ::
  "libc \<Rightarrow> string list \<Rightarrow> fd_adapter_config \<Rightarrow> bool \<Rightarrow> bool" where
  "command_read lc argv c_filt listen \<longleftrightarrow>
     (if listen then Address_of_name lc ''0'' (last argv) = Inr (fa_source c_filt)
      else Address_of_name lc (last (butlast argv)) (last argv) = Inr (fa_destination c_filt))"

lemma tcp_udp_positional_reads:
  assumes "n + 2 = length argv"
  shows "case tcp_udp_positional lc argv ops of Inl e \<Rightarrow> address_fault lc e
    | Inr (c_fsm, c_filt, listen) \<Rightarrow> command_read lc argv c_filt listen"
proof -
  have "length argv - 1 = n + 1" "length argv - 2 = n" using assms by linarith+
  then have args: "arg_at argv (length argv - 1) = Inr (last argv)"
    "arg_at argv (length argv - 2) = Inr (last (butlast argv))"
    using assms by (simp_all only: last_two_arguments [OF assms] arg_at_def) simp_all
  show ?thesis unfolding tcp_udp_positional_def args throwing_def command_read_def
    by (cases "op_listen ops"; cases "Address_of_name lc ''0'' (last argv)";
        cases "Address_of_name lc (last (butlast argv)) (last argv)") (simp_all add: address_fault_intros)
qed

lemma tcp_ipv4_positional_reads:
  assumes "n + 2 = length argv"
  shows "case tcp_ipv4_positional lc argv n ops of Inl e \<Rightarrow> exits e \<or> address_fault lc e
    | Inr (c_fsm, c_filt, listen, tundev) \<Rightarrow> command_read lc argv c_filt listen \<and>
        (listen \<longrightarrow> Address_port lc (fa_source c_filt) \<noteq> Inr 0)"
proof -
  have args: "arg_at argv (n + 1) = Inr (last argv)" "arg_at argv n = Inr (last (butlast argv))"
    "arg_at argv 0 = Inr (argv ! 0)"
    using assms by (simp_all only: last_two_arguments [OF assms] arg_at_def) auto
  show ?thesis
  proof (cases "op_listen ops")
    case True
    then show ?thesis unfolding tcp_ipv4_positional_def args throwing_def command_read_def exits_def
      by (cases "Address_of_name lc ''0'' (last argv)"; cases "Address_port lc (projr (Address_of_name lc ''0'' (last argv)))")
        (simp_all add: address_fault_intros)
  next
    case False
    then show ?thesis unfolding tcp_ipv4_positional_def args throwing_def command_read_def
      by (cases "Address_of_name lc (last (butlast argv)) (last argv)";
          cases "Address_of_name lc (op_source_address ops) (op_source_port ops)") (simp_all add: address_fault_intros)
  qed
qed

section \<open>Properties\<close>

text \<open>
  The command line of the program over UDP is read correctly: with at least two arguments
  the program exits with a usage text, or fails in a call that resolves an address, or takes its
  last two arguments as host and port. It never reads an argument that is not there.
\<close>

theorem tcp_udp_get_config_arguments:
  assumes "3 \<le> length argv"
  shows "case tcp_udp_get_config lc rate argv of
      Inl e \<Rightarrow> exits e \<or> address_fault lc e
    | Inr (c_fsm, c_filt, listen) \<Rightarrow> command_read lc argv c_filt listen"
proof (cases "FdAdapterConfig_default lc")
  case (Inl e)
  then show ?thesis by (simp add: tcp_udp_get_config_def throwing_def address_fault_intros)
next
  case (Inr c)
  note c = this
  let ?r = "tcp_udp_options rate argv 1 \<lparr>op_fsm = TCPConfig_default, op_filt = c, op_listen = False\<rparr>"
  have leaves: "case ?r of Inl e \<Rightarrow> exits e | Inr (n, _) \<Rightarrow> n + 2 = length argv"
    using assms by (intro udp_args.loop_leaves_two) simp
  have eq: "tcp_udp_get_config lc rate argv = rbind ?r (\<lambda>(cur, ops). tcp_udp_positional lc argv ops)"
    unfolding tcp_udp_get_config_def throwing_def c by simp
  show ?thesis
  proof (cases ?r)
    case (Inl e)
    with leaves show ?thesis unfolding eq Inl by simp
  next
    case (Inr p)
    from leaves have "fst p + 2 = length argv" unfolding Inr by (simp add: case_prod_beta)
    from tcp_udp_positional_reads [OF this, of lc "snd p"] show ?thesis
      unfolding eq Inr rbind_simps case_prod_beta by (auto split: sum.splits)
  qed
qed


text \<open>
  A server on port 1440 with a window of 4096 bytes, given in base sixteen.
\<close>

definition server_command :: "string list" where
  "server_command = [''tcp'', ''-l'', ''-w'', ''0x1000'', ''0'', ''1440'']"

theorem tcp_udp_get_config_arguments_witness:
  "case tcp_udp_get_config plain_libc (\<lambda>_. 0) server_command of
     Inl e \<Rightarrow> exits e \<or> address_fault plain_libc e
   | Inr (c_fsm, c_filt, listen) \<Rightarrow> command_read plain_libc server_command c_filt listen"
  by (rule tcp_udp_get_config_arguments) (simp add: server_command_def)


end
