(* ===== verification/Packet_Dump.thy ===== *)
theory Packet_Dump
  imports Printing Command_Line
begin

text \<open>
  The packet dumper \<^verbatim>\<open>apps/udp_tcpdump.cc\<close>: the search for the UDP payload in a captured packet, the
  line printed for the TCP segment in it and the loop over the captured packets. The capture
  library is a parameter: the packets it delivers and its type of link are arguments.
\<close>

section \<open>Arguments\<close>

definition dump_show_usage :: "string \<Rightarrow> string option \<Rightarrow> string" where
  "dump_show_usage arg0 errmsg =
     ''Usage: '' @ arg0 @ '' [-i <intf>] [-F <file>] [-h|--help] <expression>\<newline>\<newline>'' @
     ''  -i <intf>    only capture packets from <intf> (default: all)\<newline>\<newline>'' @
     ''  -F <file>    reads in a filter expression from <file>\<newline>'' @
     ''               <expression> is ignored if -F is supplied.\<newline>\<newline>'' @
     ''  -h, --help   show this message\<newline>\<newline>'' @
     ''  <expression> a filter expression in pcap-filter(7) syntax\<newline>'' @
     (case errmsg of None \<Rightarrow> [] | Some m \<Rightarrow> ''\<newline>'' @ m) @ ''\<newline>''"

definition dump_check_arg :: "string \<Rightarrow> string list \<Rightarrow> nat \<Rightarrow> string \<Rightarrow> unit run" where
  "dump_check_arg arg0 argv cur errmsg =
     (if cur + 1 \<ge> length argv then Inl (Exit_program 1 (dump_show_usage arg0 (Some errmsg))) else Inr ())"

function parse_arguments :: "string list \<Rightarrow> nat \<Rightarrow> string option \<Rightarrow> (nat \<times> string option) run" where
  "parse_arguments argv cur dev =
     (if cur < length argv then
        rbind (arg_at argv cur) (\<lambda>opt.
        rbind (arg_at argv 0) (\<lambda>arg0.
        if strncmp_zero ''-i'' opt 3 then
          rbind (dump_check_arg arg0 argv cur ''ERROR: -i requires an argument'') (\<lambda>_.
          rbind (arg_at argv (cur + 1)) (\<lambda>d. parse_arguments argv (cur + 2) (Some d)))
        else if strncmp_zero ''-h'' opt 3 \<or> strncmp_zero ''--help'' opt 7
        then Inl (Exit_program 0 (dump_show_usage arg0 None))
        else Inr (cur, dev)))
      else Inr (cur, dev))"
  by pat_completeness auto
termination
  by (relation "measure (\<lambda>(argv, cur, _). length argv - cur)") auto

declare parse_arguments.simps [simp del]

definition filter_expression :: "string list \<Rightarrow> nat \<Rightarrow> string" where
  "filter_expression argv exp_start = concat (map (\<lambda>a. a @ '' '') (drop exp_start argv))"

section \<open>Finding the UDP payload\<close>

text \<open>
  The bytes of the packet are those that were captured; reading past them is a fault. The
  function \<^verbatim>\<open>inet_ntop\<close> of the C library is the argument \<open>ntop\<close>, given the family and the bytes.
\<close>

definition byte_at :: "bytes \<Rightarrow> nat \<Rightarrow> u8 outcome" where
  "byte_at data i = (if i < length data then Inr (data ! i) else Inl Out_of_bounds_read)"

definition bytes_at :: "bytes \<Rightarrow> nat \<Rightarrow> nat \<Rightarrow> bytes outcome" where
  "bytes_at data i n = (if i + n \<le> length data then Inr (take n (drop i data)) else Inl Out_of_bounds_read)"

definition AF_INET6 :: int where
  "AF_INET6 = 10"

definition inet4_addr :: "(int \<Rightarrow> bytes \<Rightarrow> string option) \<Rightarrow> bytes \<Rightarrow> nat \<Rightarrow> string outcome" where
  "inet4_addr ntop data i =
     obind (bytes_at data i 4) (\<lambda>addr. Inr (case ntop AF_INET addr of None \<Rightarrow> ''unknown'' | Some s \<Rightarrow> s))"

definition inet6_addr :: "(int \<Rightarrow> bytes \<Rightarrow> string option) \<Rightarrow> bytes \<Rightarrow> nat \<Rightarrow> string outcome" where
  "inet6_addr ntop data i =
     obind (bytes_at data i 16) (\<lambda>addr. Inr (case ntop AF_INET6 addr of None \<Rightarrow> ''unknown'' | Some s \<Rightarrow> s))"

text \<open>
  The result is the message printed before the error value \<^verbatim>\<open>-1\<close>, or the offset behind the UDP
  header with both addresses. The loop over the extension headers of IPv6 moves by at least eight
  bytes, up to the end of the packet.
\<close>

type_synonym located = "string + nat \<times> string \<times> string"

function ipv6_extensions :: "nat \<Rightarrow> bytes \<Rightarrow> u8 \<Rightarrow> nat \<Rightarrow> (string + nat) outcome" where
  "ipv6_extensions len data nxt data_offset =
     (if nxt = 0x11 then Inr (Inr data_offset)
      else if nxt \<noteq> 0 \<and> nxt \<noteq> 43 \<and> nxt \<noteq> 60 then Inr (Inl ''Not UDP or fragmented; '')
      else
        obind (byte_at data data_offset) (\<lambda>nxt.
        obind (byte_at data (data_offset + 1)) (\<lambda>ext_len.
        let data_offset = data_offset + 8 * (1 + unat ext_len)
        in if len < data_offset + 2 then Inr (Inl []) else ipv6_extensions len data nxt data_offset)))"
  by pat_completeness auto
termination
  by (relation "measure (\<lambda>(len, _, _, data_offset). len - data_offset)") auto

declare ipv6_extensions.simps [simp del]

definition process_ipv4_ipv6 ::
  "(int \<Rightarrow> bytes \<Rightarrow> string option) \<Rightarrow> nat \<Rightarrow> bytes \<Rightarrow> located outcome" where
  "process_ipv4_ipv6 ntop len data =
     (if len < 1 then Inr (Inl [])
      else obind (byte_at data 0) (\<lambda>first.
        let pt = first AND 0xf0
        in if pt = 0x40 then
             let data_offset = unat (first AND 0x0f) * 4
             in if len < data_offset then Inr (Inl [])
                else obind (byte_at data 9) (\<lambda>proto.
                  if proto \<noteq> 0x11 then Inr (Inl ''Not UDP; '')
                  else
                    obind (inet4_addr ntop data 12) (\<lambda>src.
                    obind (inet4_addr ntop data 16) (\<lambda>dst.
                      Inr (Inr (data_offset + 8, src, dst)))))
           else if pt = 0x60 then
             if len < 42 then Inr (Inl [])
             else
               obind (byte_at data 6) (\<lambda>nxt.
               obind (ipv6_extensions len data nxt 40) (\<lambda>r.
               case r of Inl msg \<Rightarrow> Inr (Inl msg)
               | Inr data_offset \<Rightarrow>
                   obind (inet6_addr ntop data 8) (\<lambda>src.
                   obind (inet6_addr ntop data 24) (\<lambda>dst.
                     Inr (Inr (data_offset + 8, src, dst))))))
           else Inr (Inl [])))"

text \<open>
  The link types that the program handles. The last one is only known to newer versions of the
  capture library.
\<close>

datatype datalink = DLT_RAW | DLT_NULL | DLT_EN10MB | DLT_LINUX_SLL | DLT_LINUX_SLL2

text \<open>
  The header of the link: its length, or the message with which the packet is skipped.
\<close>

definition be_pair :: "u8 \<Rightarrow> u8 \<Rightarrow> u16" where
  "be_pair a b = push_bit 8 (ucast a) OR ucast b"

definition ethertype_offset :: "bytes \<Rightarrow> nat \<Rightarrow> nat \<Rightarrow> (string + nat) outcome" where
  "ethertype_offset pkt hdr_off i =
     (if length pkt < hdr_off then Inr (Inl ''[INFO] Skipping malformed packet.\<newline>'')
      else obind (byte_at pkt i) (\<lambda>a. obind (byte_at pkt (i + 1)) (\<lambda>b.
        if be_pair a b \<noteq> 0x0800 \<and> be_pair a b \<noteq> 0x86dd
        then Inr (Inl ''[INFO] Skipping non-IP packet.\<newline>'')
        else Inr (Inr hdr_off))))"

definition link_offset :: "datalink \<Rightarrow> bytes \<Rightarrow> (string + nat) outcome" where
  "link_offset dl_type pkt =
     (case dl_type of
        DLT_RAW \<Rightarrow> Inr (Inr 0)
      | DLT_NULL \<Rightarrow>
          if length pkt < 4 then Inr (Inl ''[INFO] Skipping malformed packet.\<newline>'')
          else obind (byte_at pkt 3) (\<lambda>pt.
            if pt \<noteq> 2 \<and> pt \<noteq> 24 \<and> pt \<noteq> 28 \<and> pt \<noteq> 30
            then Inr (Inl ''[INFO] Skipping non-IP packet.\<newline>'')
            else Inr (Inr 4))
      | DLT_EN10MB \<Rightarrow> ethertype_offset pkt 14 12
      | DLT_LINUX_SLL \<Rightarrow> ethertype_offset pkt 16 14
      | DLT_LINUX_SLL2 \<Rightarrow> ethertype_offset pkt 20 0)"

section \<open>One packet\<close>

text \<open>
  The enumeration of parse results is ordered; results up to \<^verbatim>\<open>BadChecksum\<close> are shown as a segment.
  The initial sum of the checksum is zero.
\<close>

definition segment_line :: "tcp_header \<Rightarrow> u32 \<Rightarrow> ParseResult \<Rightarrow> string \<Rightarrow> string \<Rightarrow> nat \<Rightarrow> string" where
  "segment_line h seqlen res src dst payload_len =
     src @ '':'' @ string_of_nat (unat (th_sport h)) @ '' > '' @ dst @ '':'' @ string_of_nat (unat (th_dport h)) @
     ''\<newline>    Flags ['' @
     (if th_urg h then ''U'' else []) @ (if th_psh h then ''P'' else []) @ (if th_rst h then ''R'' else []) @
     (if th_syn h then ''S'' else []) @ (if th_fin h then ''F'' else []) @ (if th_ack h then ''.'' else []) @
     ''] cksum 0x'' @ setw0 4 (hex_of_nat (unat (th_cksum h))) @
     (if res = NoError then '' (correct)'' else '' (incorrect!)'') @
     '' seq '' @ WrappingInt32_dec (th_seqno h) @
     (if seqlen > 0 then '':'' @ WrappingInt32_dec (WrappingInt32_plus (th_seqno h) seqlen) else []) @
     '' ack '' @ WrappingInt32_dec (th_ackno h) @ '' win '' @ string_of_nat (unat (th_win h)) @
     '' length '' @ string_of_nat payload_len @ ''\<newline>''"

definition describe_payload :: "string \<Rightarrow> string \<Rightarrow> bytes \<Rightarrow> string outcome" where
  "describe_payload src dst payload =
     obind (TCPSegment_parse TCPSegment_default (Buffer_new payload) 0) (\<lambda>(seg, res).
     Inr ((if res \<notin> {NoError, BadChecksum}
           then ''(did not recognize TCP header) src: '' @ src @ '' dst: '' @ dst @ ''\<newline>''
           else segment_line (ts_header seg) (ucast (TCPSegment_length_in_sequence_space seg)) res src dst
                  (length payload))
          @ hexdump payload 8))"

text \<open>
  The length of the payload is the difference of two numbers of type \<^verbatim>\<open>size_t\<close>. When the packet
  ends before the UDP header does, it wraps around, and the string that is made of it is longer
  than a string can be.
\<close>

datatype shown = Skipped string | Shown string

definition MAX_STRING_SIZE :: nat where
  "MAX_STRING_SIZE = 2 ^ 63 - 1"

definition show_packet :: "(int \<Rightarrow> bytes \<Rightarrow> string option) \<Rightarrow> datalink \<Rightarrow> bytes \<Rightarrow> shown outcome" where
  "show_packet ntop dl_type pkt =
     obind (link_offset dl_type pkt) (\<lambda>l.
     case l of Inl msg \<Rightarrow> Inr (Skipped msg)
     | Inr hdr_off \<Rightarrow>
         obind (process_ipv4_ipv6 ntop (length pkt - hdr_off) (drop hdr_off pkt)) (\<lambda>r.
         case r of Inl msg \<Rightarrow> Inr (Skipped (msg @ ''Error parsing IPv4/IPv6 packet. Skipping.\<newline>''))
         | Inr (start_off, src, dst) \<Rightarrow>
             let payload_off = hdr_off + start_off;
                 payload_len = (word_of_nat (length pkt) - word_of_nat payload_off :: u64)
             in if unat payload_len > MAX_STRING_SIZE then Inl Length_error
                else obind (bytes_at pkt payload_off (unat payload_len)) (\<lambda>payload.
                  obind (describe_payload src dst payload) (\<lambda>text. Inr (Shown text)))))"

section \<open>The capture\<close>

text \<open>
  The calls of \<^verbatim>\<open>pcap_next_ex\<close>: a timeout, a packet, an error or the end of the capture. The loop
  over the calls so far ends with the exit code and what was printed on the standard output, or goes
  on; the messages for skipped packets go to the standard error.
\<close>

datatype capture = Capture_timeout | Capture_packet bytes | Capture_error string | Capture_break

datatype dump_run = Dump_running string | Dump_ended int string

fun capture_loop ::
  "(int \<Rightarrow> bytes \<Rightarrow> string option) \<Rightarrow> datalink \<Rightarrow> string \<Rightarrow> capture list \<Rightarrow> dump_run outcome" where
  "capture_loop ntop dl_type cout [] = Inr (Dump_running cout)"
| "capture_loop ntop dl_type cout (Capture_timeout # cs) = capture_loop ntop dl_type cout cs"
| "capture_loop ntop dl_type cout (Capture_packet pkt # cs) =
     obind (show_packet ntop dl_type pkt) (\<lambda>s.
       case s of Skipped _ \<Rightarrow> capture_loop ntop dl_type cout cs
       | Shown text \<Rightarrow> capture_loop ntop dl_type (cout @ text) cs)"
| "capture_loop ntop dl_type cout (Capture_error msg # cs) =
     Inr (Dump_ended 1 (cout @ ''Error listening for packet: '' @ msg @ ''\<newline>''))"
| "capture_loop ntop dl_type cout (Capture_break # cs) = Inr (Dump_ended 0 cout)"

section \<open>Reads inside the packet\<close>

lemma byte_at_ok [simp]: "i < length data \<Longrightarrow> byte_at data i = Inr (data ! i)"
  by (simp add: byte_at_def)

lemma bytes_at_ok [simp]: "i + n \<le> length data \<Longrightarrow> bytes_at data i n = Inr (take n (drop i data))"
  by (simp add: bytes_at_def)

lemma ipv6_extensions_bounds:
  assumes "len = length data" and "data_offset + 2 \<le> len"
  shows "\<exists>r. ipv6_extensions len data nxt data_offset = Inr r \<and>
    (case r of Inl _ \<Rightarrow> True | Inr off \<Rightarrow> data_offset \<le> off \<and> off + 2 \<le> len)"
  using assms
proof (induction len data nxt data_offset rule: ipv6_extensions.induct)
  case (1 len data nxt data_offset)
  let ?off = "data_offset + 8 * (1 + unat (data ! (data_offset + 1)))"
  have r: "byte_at data data_offset = Inr (data ! data_offset)"
    "byte_at data (data_offset + 1) = Inr (data ! (data_offset + 1))" using "1.prems" by simp_all
  show ?case
  proof (cases "nxt = 0x11 \<or> (nxt \<noteq> 0 \<and> nxt \<noteq> 43 \<and> nxt \<noteq> 60) \<or> len < ?off + 2")
    case True
    then show ?thesis unfolding ipv6_extensions.simps [of len data nxt data_offset] r obind_simps Let_def
      using "1.prems" by auto
  next
    case False
    then have e: "ipv6_extensions len data nxt data_offset = ipv6_extensions len data (data ! data_offset) ?off"
      unfolding ipv6_extensions.simps [of len data nxt data_offset] r obind_simps Let_def by auto
    have "\<exists>r. ipv6_extensions len data (data ! data_offset) ?off = Inr r \<and>
        (case r of Inl _ \<Rightarrow> True | Inr off \<Rightarrow> ?off \<le> off \<and> off + 2 \<le> len)"
      by (rule "1.IH" [OF _ _ r refl]) (use False "1.prems" in auto)
    then show ?thesis unfolding e by (force split: sum.splits)
  qed
qed

text \<open>The name that is printed for an address.\<close>

definition addr_name :: "(int \<Rightarrow> bytes \<Rightarrow> string option) \<Rightarrow> int \<Rightarrow> bytes \<Rightarrow> string" where
  "addr_name ntop family addr = (case ntop family addr of None \<Rightarrow> ''unknown'' | Some s \<Rightarrow> s)"

lemma inet4_addr_ok: "i + 4 \<le> length data \<Longrightarrow> inet4_addr ntop data i = Inr (addr_name ntop AF_INET (take 4 (drop i data)))"
  by (simp add: inet4_addr_def addr_name_def)

lemma inet6_addr_ok: "i + 16 \<le> length data \<Longrightarrow> inet6_addr ntop data i = Inr (addr_name ntop AF_INET6 (take 16 (drop i data)))"
  by (simp add: inet6_addr_def addr_name_def)

section \<open>UDP in IPv4\<close>

text \<open>The header of the link and the IPv4 header in front of a UDP datagram.\<close>

definition link_header :: "datalink \<Rightarrow> bytes \<Rightarrow> bool" where
  "link_header dl_type l \<longleftrightarrow>
     (case dl_type of
        DLT_RAW \<Rightarrow> l = []
      | DLT_NULL \<Rightarrow> length l = 4 \<and> l ! 3 = 2
      | DLT_EN10MB \<Rightarrow> length l = 14 \<and> l ! 12 = 8 \<and> l ! 13 = 0
      | DLT_LINUX_SLL \<Rightarrow> length l = 16 \<and> l ! 14 = 8 \<and> l ! 15 = 0
      | DLT_LINUX_SLL2 \<Rightarrow> length l = 20 \<and> l ! 0 = 8 \<and> l ! 1 = 0)"

definition ipv4_udp_header :: "bytes \<Rightarrow> bool" where
  "ipv4_udp_header h \<longleftrightarrow> 20 \<le> length h \<and> (h ! 0) AND 0xf0 = 0x40 \<and> length h = 4 * unat ((h ! 0) AND 0x0f) \<and> h ! 9 = 0x11"

definition udp_source :: "(int \<Rightarrow> bytes \<Rightarrow> string option) \<Rightarrow> bytes \<Rightarrow> string" where
  "udp_source ntop h = addr_name ntop AF_INET (take 4 (drop 12 h))"

definition udp_destination :: "(int \<Rightarrow> bytes \<Rightarrow> string option) \<Rightarrow> bytes \<Rightarrow> string" where
  "udp_destination ntop h = addr_name ntop AF_INET (take 4 (drop 16 h))"

lemma link_offset_header: "link_header dl_type l \<Longrightarrow> link_offset dl_type (l @ r) = Inr (Inr (length l))"
  by (cases dl_type) (auto simp: link_header_def link_offset_def ethertype_offset_def nth_append be_pair_def)

lemma process_ipv4_udp:
  assumes "ipv4_udp_header h"
  shows "process_ipv4_ipv6 ntop (length (h @ r)) (h @ r) =
    Inr (Inr (length h + 8, udp_source ntop h, udp_destination ntop h))"
proof -
  have h: "20 \<le> length h" "(h ! 0) AND 0xf0 = 0x40" "length h = 4 * unat ((h ! 0) AND 0x0f)" "h ! 9 = 0x11"
    using assms by (simp_all add: ipv4_udp_header_def)
  have a: "(h @ r) ! 0 = h ! 0" "(h @ r) ! 9 = h ! 9" "take 4 (drop 12 (h @ r)) = take 4 (drop 12 h)"
    "take 4 (drop 16 (h @ r)) = take 4 (drop 16 h)" using h(1) by (auto simp: nth_append)
  have "h \<noteq> []" using h(1) by auto
  then show ?thesis using h(1)
    by (simp add: process_ipv4_ipv6_def Let_def a h(2,4) inet4_addr_ok udp_source_def udp_destination_def
        mult.commute flip: h(3))
qed

lemma payload_found:
  assumes "link_header dl_type l" and "ipv4_udp_header h"
  shows "show_packet ntop dl_type (l @ h @ r) =
    (let payload_len = (word_of_nat (length r) - 8 :: u64)
     in if unat payload_len > MAX_STRING_SIZE then Inl Length_error
        else obind (bytes_at (l @ h @ r) (length l + (length h + 8)) (unat payload_len)) (\<lambda>payload.
          obind (describe_payload (udp_source ntop h) (udp_destination ntop h) payload) (\<lambda>text. Inr (Shown text))))"
proof -
  let ?pkt = "l @ h @ r"
  have p: "process_ipv4_ipv6 ntop (length ?pkt - length l) (drop (length l) ?pkt) =
      Inr (Inr (length h + 8, udp_source ntop h, udp_destination ntop h))"
    using process_ipv4_udp [OF assms(2), of ntop r] by simp
  have w: "(word_of_nat (length ?pkt) - word_of_nat (length l + (length h + 8)) :: u64) = word_of_nat (length r) - 8"
    by simp
  show ?thesis
    unfolding show_packet_def link_offset_header [OF assms(1)] obind_simps sum.case p prod.case Let_def w ..
qed

section \<open>Properties\<close>

text \<open>
  C31: the search for the payload stays inside the packet. Every IPv6 packet, and every IPv4 packet of
  at least the twenty bytes of a header, is handled without a read past its end, the loop over the
  extension headers included, and the offset found is at most eight bytes past the end.
\<close>

theorem process_ipv4_ipv6_in_bounds:
  assumes "20 \<le> length data \<or> (data ! 0) AND 0xf0 \<noteq> 0x40"
  shows "\<exists>r. process_ipv4_ipv6 ntop (length data) data = Inr r \<and>
    (case r of Inl _ \<Rightarrow> True | Inr (off, _, _) \<Rightarrow> 8 \<le> off \<and> off \<le> length data + 8)"
proof (cases "length data < 42")
  case True
  show ?thesis
  proof (cases "data = []")
    case False
    then show ?thesis using assms True
      by (auto simp: process_ipv4_ipv6_def Let_def inet4_addr_ok)
  qed (simp add: process_ipv4_ipv6_def)
next
  case False
  then have l: "42 \<le> length data" "data \<noteq> []" by auto
  obtain r where r: "ipv6_extensions (length data) data (data ! 6) 40 = Inr r"
    "case r of Inl _ \<Rightarrow> True | Inr off \<Rightarrow> 40 \<le> off \<and> off + 2 \<le> length data"
    using ipv6_extensions_bounds [of "length data" data 40 "data ! 6"] l by auto
  show ?thesis using l r
    by (cases r) (auto simp: process_ipv4_ipv6_def Let_def inet4_addr_ok inet6_addr_ok)
qed

theorem process_ipv4_ipv6_in_bounds_witness:
  "\<exists>r. process_ipv4_ipv6 (\<lambda>_ _. None) 1 [0x60] = Inr r \<and>
    (case r of Inl _ \<Rightarrow> True | Inr (off, _, _) \<Rightarrow> 8 \<le> off \<and> off \<le> length [0x60 :: u8] + 8)"
  using process_ipv4_ipv6_in_bounds [of "[0x60]" "\<lambda>_ _. None"] by simp

text \<open>
  C30: the dumper recognizes every segment that was sent over UDP. On any of the supported links, a
  packet that carries a serialized segment in UDP in IPv4 is shown with the fields of the segment
  and a correct checksum, followed by the dump of exactly its bytes.
\<close>

theorem show_packet_segment:
  assumes "link_header dl_type l" and "ipv4_udp_header h" and "length udp = 8"
    and "5 \<le> th_doff (ts_header seg)" and "th_doff (ts_header seg) < 16"
    and "65280 * (4 * unat (th_doff (ts_header seg)) + Buffer_size (ts_payload seg)) < 2 ^ 32"
  shows "\<exists>bl cksum. TCPSegment_serialize seg 0 = Inr bl \<and>
    (let payload = BufferList_concatenate bl in
     show_packet ntop dl_type (l @ h @ udp @ payload) =
       Inr (Shown (segment_line ((ts_header seg)\<lparr>th_cksum := cksum\<rparr>)
              (ucast (TCPSegment_length_in_sequence_space seg)) NoError
              (udp_source ntop h) (udp_destination ntop h) (length payload) @ hexdump payload 8)))"
proof -
  have len: "length (tcp_wire seg c) = 4 * unat (th_doff (ts_header seg)) + Buffer_size (ts_payload seg)" for c
    using assms(4) by (simp add: tcp_wire_def tcp_options_def Buffer_size_def word_le_nat_alt)
  obtain bl where bl: "TCPSegment_serialize seg 0 = Inr bl"
    "BufferList_concatenate bl = tcp_wire seg (tcp_cksum seg 0)"
    using TCPSegment_serialize_wire [OF assms(4)] by blast
  have "unat (0 :: u32) + 65280 * length (tcp_wire seg 0) < 2 ^ 32" using assms(6) by (simp add: len)
  from TCPSegment_parse_wire [OF assms(4,5) this Buffer_str_new [of "tcp_wire seg (tcp_cksum seg 0)"], of TCPSegment_default]
  obtain seg' where seg': "TCPSegment_parse TCPSegment_default (Buffer_new (tcp_wire seg (tcp_cksum seg 0))) 0 = Inr (seg', NoError)"
    "ts_header seg' = (ts_header seg)\<lparr>th_cksum := tcp_cksum seg 0\<rparr>"
    "Buffer_str (ts_payload seg') = Buffer_str (ts_payload seg)" by blast
  then have "TCPSegment_length_in_sequence_space seg' = TCPSegment_length_in_sequence_space seg"
    by (simp add: TCPSegment_length_in_sequence_space_def)
  moreover define payload where "payload = tcp_wire seg (tcp_cksum seg 0)"
  have "length payload < 2 ^ 32" using assms(6) by (simp add: payload_def len)
  then have "unat (word_of_nat (length (udp @ payload)) - 8 :: u64) = length payload"
    "\<not> length payload > MAX_STRING_SIZE"
    using assms(3) by (simp_all add: unat_of_nat MAX_STRING_SIZE_def)
  moreover have "bytes_at (l @ h @ udp @ payload) (length l + (length h + 8)) (length payload) = Inr payload"
    using assms(3) by simp
  ultimately show ?thesis using bl seg'
    by (auto simp: payload_found [OF assms(1,2)] describe_payload_def Let_def simp flip: payload_def)
qed

text \<open>An IPv4 header without options for a UDP datagram from 10.0.0.1 to 10.0.0.2.\<close>

definition plain_udp_header :: bytes where
  "plain_udp_header = [0x45, 0, 0, 48, 0, 0, 0, 0, 64, 0x11, 0, 0, 10, 0, 0, 1, 10, 0, 0, 2]"

lemma plain_udp_header_ok: "ipv4_udp_header plain_udp_header"
  by (simp add: ipv4_udp_header_def plain_udp_header_def)

theorem show_packet_segment_witness:
  "\<exists>bl cksum. TCPSegment_serialize TCPSegment_default 0 = Inr bl \<and>
    (let payload = BufferList_concatenate bl in
     show_packet (\<lambda>_ _. None) DLT_RAW (plain_udp_header @ replicate 8 0 @ payload) =
       Inr (Shown (segment_line (TCPHeader_default\<lparr>th_cksum := cksum\<rparr>)
              (ucast (TCPSegment_length_in_sequence_space TCPSegment_default)) NoError
              (udp_source (\<lambda>_ _. None) plain_udp_header) (udp_destination (\<lambda>_ _. None) plain_udp_header)
              (length payload) @ hexdump payload 8)))"
  using show_packet_segment [of DLT_RAW "[]" plain_udp_header "replicate 8 0" TCPSegment_default "\<lambda>_ _. None"]
    plain_udp_header_ok
  by (simp add: link_header_def TCPSegment_default_def TCPHeader_default_def TCPHeader_LENGTH_def
      Buffer_size_def buffer_simps)



text \<open>
  A segment with a wrong checksum is not shown: the line printed for it has the fields of an empty
  header, because the parser gives up before it reads the header.
\<close>

theorem bad_checksum_shows_no_segment:
  assumes "InternetChecksum_value (InternetChecksum_add (InternetChecksum_new 0) payload) \<noteq> 0"
  shows "describe_payload src dst payload =
    Inr (segment_line TCPHeader_default 0 BadChecksum src dst (length payload) @ hexdump payload 8)"
  using assms by (simp add: describe_payload_def TCPSegment_parse_def Buffer_str_new
      TCPSegment_length_in_sequence_space_def TCPSegment_default_def TCPHeader_default_def
      buffer_simps)

theorem bad_checksum_shows_no_segment_witness:
  "describe_payload ''a'' ''b'' [1, 2] =
    Inr (segment_line TCPHeader_default 0 BadChecksum ''a'' ''b'' 2 @ hexdump [1, 2] 8)"
proof -
  have "InternetChecksum_value (InternetChecksum_add (InternetChecksum_new 0) [1, 2]) \<noteq> 0" by code_simp
  from bad_checksum_shows_no_segment [OF this] show ?thesis by (simp add: numeral_2_eq_2)
qed

end
