(* ===== verification/Programs.thy ===== *)
theory Programs
  imports Packet_Dump Stream_Copy Sponge_Socket
begin

text \<open>
  The remaining programs: TUN devices (\<^verbatim>\<open>libsponge/util/tun.cc\<close>) and the program that shows what
  arrives on one (\<^verbatim>\<open>apps/tun.cc\<close>), the opening of the socket in \<^verbatim>\<open>apps/tcp_udp.cc\<close> and
  \<^verbatim>\<open>apps/tcp_ipv4.cc\<close>, the copy over the TCP of the kernel (\<^verbatim>\<open>apps/tcp_native.cc\<close>), and the
  request and the answer of \<^verbatim>\<open>apps/webget.cc\<close>.
\<close>

section \<open>TUN devices\<close>

text \<open>
  Opening a device and the control call that attaches it extend the kernel; the control call gets
  the name and the flags of the request.
\<close>

record 'k tun_kernel = "'k poll_kernel" +
  k_open :: "'k \<Rightarrow> string \<Rightarrow> int \<Rightarrow> sysret \<times> 'k"
  k_tunsetiff :: "'k \<Rightarrow> int \<Rightarrow> string \<Rightarrow> int \<Rightarrow> sysret \<times> 'k"

definition CLONEDEV :: string where "CLONEDEV = ''/dev/net/tun''"
definition O_RDWR :: int where "O_RDWR = 2"
definition IFF_TUN :: int where "IFF_TUN = 1"
definition IFF_TAP :: int where "IFF_TAP = 2"
definition IFF_NO_PI :: int where "IFF_NO_PI = 0x1000"
definition IFNAMSIZ :: nat where "IFNAMSIZ = 16"

text \<open>\<^verbatim>\<open>strncpy\<close> copies up to the end of the text and fills the rest with zeroes.\<close>

definition strncpy :: "string \<Rightarrow> nat \<Rightarrow> string" where
  "strncpy s n = take n (takeWhile (\<lambda>c. c \<noteq> CHR 0x00) s @ replicate n CHR 0x00)"

definition ifr_name :: "string \<Rightarrow> string" where
  "ifr_name devname = (strncpy devname (IFNAMSIZ - 1) @ [CHR 0x00])[IFNAMSIZ - 1 := CHR 0x00]"

definition TunTapFD_new ::
  "('k, 'b) tun_kernel_scheme \<Rightarrow> string \<Rightarrow> bool \<Rightarrow> ('k, 'a) system_scheme \<Rightarrow> (nat \<times> ('k, 'a) system_scheme) outcome" where
  "TunTapFD_new sys devname is_tun s =
     (case k_open sys (sy_kernel s) CLONEDEV O_RDWR of (r, k) \<Rightarrow>
        obind (SystemCall ''open'' r 0) (\<lambda>fd.
        obind (FileDescriptor_new fd (s\<lparr>sy_kernel := k\<rparr>)) (\<lambda>(h, s).
        let flags = (if is_tun then IFF_TUN else IFF_TAP) OR IFF_NO_PI
        in obind (checked ''ioctl'' (k_tunsetiff sys (sy_kernel s) (fd_num s h) (ifr_name devname) flags) s)
             (\<lambda>s. Inr (h, s)))))"

definition TunFD_new ::
  "('k, 'b) tun_kernel_scheme \<Rightarrow> string \<Rightarrow> ('k, 'a) system_scheme \<Rightarrow> (nat \<times> ('k, 'a) system_scheme) outcome" where
  "TunFD_new sys devname = TunTapFD_new sys devname True"

definition TapFD_new ::
  "('k, 'b) tun_kernel_scheme \<Rightarrow> string \<Rightarrow> ('k, 'a) system_scheme \<Rightarrow> (nat \<times> ('k, 'a) system_scheme) outcome" where
  "TapFD_new sys devname = TunTapFD_new sys devname False"

section \<open>Showing the packets of a TUN device\<close>

definition tun_report :: "bytes \<Rightarrow> string outcome" where
  "tun_report buffer =
     (let cout = ''\<newline>\<newline>***\<newline>*** Got packet:\<newline>***\<newline>'' @ hexdump buffer 0 @
            ''attempting to parse as ipv4 datagram... ''
      in obind (IPv4Datagram_parse IPv4Datagram_default (Buffer_new buffer)) (\<lambda>(ip_dgram, res).
         if res \<noteq> NoError then Inr (cout @ ''failed.\<newline>'')
         else
           let h = id_header ip_dgram;
               cout = cout @ ''success! totlen='' @ string_of_nat (unat (ih_len h)) @
                 '', IPv4 header contents:\<newline>'' @ IPv4Header_to_string h
           in if ih_proto h \<noteq> PROTO_TCP then Inr (cout @ ''\<newline>Not TCP, skipping.\<newline>'')
              else
                let cout = cout @ ''\<newline>Attempting to parse as a TCP segment... ''
                in obind (BufferList_to_Buffer (id_payload ip_dgram)) (\<lambda>payload.
                   obind (TCPSegment_parse TCPSegment_default payload (IPv4Header_pseudo_cksum h)) (\<lambda>(tcp_seg, res).
                   if res \<noteq> NoError then Inr (cout @ ''failed.\<newline>'')
                   else Inr (cout @ ''success! payload len='' @
                     string_of_nat (Buffer_size (ts_payload tcp_seg)) @ '', TCP header contents:\<newline>'' @
                     TCPHeader_to_string (ts_header tcp_seg) @ ''\<newline>'')))))"

text \<open>The loop of the program has no end of its own; \<open>n\<close> counts its rounds.\<close>

primrec tun_rounds ::
  "('k, 'b) kernel_scheme \<Rightarrow> nat \<Rightarrow> nat \<Rightarrow> ('k, 'a) system_scheme \<Rightarrow> (string \<times> ('k, 'a) system_scheme) outcome" where
  "tun_rounds sys h 0 s = Inr ([], s)"
| "tun_rounds sys h (Suc n) s =
     obind (tun_rounds sys h n s) (\<lambda>(cout, s).
     obind (FileDescriptor_read sys h (2 ^ 64 - 1) s) (\<lambda>(buffer, s).
     obind (tun_report buffer) (\<lambda>text. Inr (cout @ text, s))))"

definition tun_main ::
  "('k, 'b) tun_kernel_scheme \<Rightarrow> nat \<Rightarrow> ('k, 'a) system_scheme \<Rightarrow> (string \<times> ('k, 'a) system_scheme) outcome" where
  "tun_main sys n s = obind (TunFD_new sys ''tun144'' s) (\<lambda>(h, s). tun_rounds sys h n s)"

section \<open>Opening a socket from the command line\<close>

text \<open>
  The two programs up to the point where the connection is open and its thread runs. The adapter
  loses segments at the configured rates, with the random numbers \<open>rnd\<close>.
\<close>

definition open_socket ::
  "('k, 'b) poll_kernel_scheme \<Rightarrow> libc \<Rightarrow> 'k adapter_ops \<Rightarrow> WrappingInt32 \<Rightarrow> WrappingInt32 \<Rightarrow>
     tcp_config \<Rightarrow> fd_adapter_config \<Rightarrow> bool \<Rightarrow> 'k sponge outcome \<Rightarrow> ('k sponge rule list \<times> 'k sponge) run option" where
  "open_socket sys lc ops stale random_isn c_fsm c_filt listen tcp_socket =
     (case tcp_socket of
        Inl e \<Rightarrow> Some (Inl (Throws e))
      | Inr s \<Rightarrow>
          map_option throwing
            (if listen then TCPSpongeSocket_listen_and_accept sys lc ops stale c_fsm c_filt random_isn s
             else TCPSpongeSocket_connect sys lc ops stale c_fsm c_filt random_isn s))"

definition adapter_new :: "libc \<Rightarrow> fd_adapter outcome" where
  "adapter_new lc = obind (FdAdapterConfig_default lc) (\<lambda>cfg. Inr \<lparr>fb_cfg = cfg, fb_listen = False\<rparr>)"

definition tcp_udp_open ::
  "libc \<Rightarrow> (string \<Rightarrow> u16) \<Rightarrow> ('k, 'b) poll_kernel_scheme \<Rightarrow> ('k \<Rightarrow> u32 \<times> 'k) \<Rightarrow> WrappingInt32 \<Rightarrow> WrappingInt32 \<Rightarrow>
     string list \<Rightarrow> 'k system \<Rightarrow> ('k sponge rule list \<times> 'k sponge) run option" where
  "tcp_udp_open lc rate sys rnd stale random_isn argv s =
     (if length argv < 3
      then Some (Inl (Exit_program 1
        (tcp_udp_show_usage (argv ! 0) (Some ''ERROR: required arguments are missing.''))))
      else case tcp_udp_get_config lc rate argv of
        Inl e \<Rightarrow> Some (Inl e)
      | Inr (c_fsm, c_filt, listen) \<Rightarrow>
          open_socket sys lc (lossy_ops rnd (udp_ops sys lc)) stale random_isn c_fsm c_filt listen
            (obind (UDPSocket_new sys s) (\<lambda>(udp_sock, s).
             obind (if listen then Socket_bind sys udp_sock (fa_source c_filt) s else Inr s) (\<lambda>s.
             obind (adapter_new lc) (\<lambda>adapter. TCPSpongeSocket_new sys udp_sock adapter s)))))"

definition tcp_ipv4_open ::
  "libc \<Rightarrow> (string \<Rightarrow> u16) \<Rightarrow> u16 \<Rightarrow> ('k, 'b) tun_kernel_scheme \<Rightarrow> ('k \<Rightarrow> u32 \<times> 'k) \<Rightarrow> WrappingInt32 \<Rightarrow>
     WrappingInt32 \<Rightarrow> string list \<Rightarrow> 'k system \<Rightarrow> ('k sponge rule list \<times> 'k sponge) run option" where
  "tcp_ipv4_open lc rate random_port sys rnd stale random_isn argv s =
     (if length argv < 3
      then Some (Inl (Exit_program 1
        (tcp_ipv4_show_usage (argv ! 0) (Some ''ERROR: required arguments are missing.''))))
      else case tcp_ipv4_get_config lc rate random_port argv of
        Inl e \<Rightarrow> Some (Inl e)
      | Inr (c_fsm, c_filt, listen, tun_dev_name) \<Rightarrow>
          open_socket sys lc (lossy_ops rnd (tun_ops sys lc)) stale random_isn c_fsm c_filt listen
            (obind (TunFD_new sys (case tun_dev_name of None \<Rightarrow> TUN_DFLT | Some d \<Rightarrow> d) s) (\<lambda>(tun, s).
             obind (adapter_new lc) (\<lambda>adapter. TCPSpongeSocket_new sys tun adapter s))))"

section \<open>Copying over the TCP of the kernel\<close>

definition tcp_native_show_usage :: "string \<Rightarrow> string" where
  "tcp_native_show_usage argv0 =
     ''Usage: '' @ argv0 @ '' [-l] <host> <port>\<newline>\<newline>'' @
     ''  -l specifies listen mode; <host>:<port> is the listening address.'' @ ''\<newline>''"

definition tcp_native_server_mode :: "string list \<Rightarrow> bool" where
  "tcp_native_server_mode argv \<longleftrightarrow> strncmp_zero ''-l'' (argv ! 1) 3"

definition tcp_native_socket ::
  "libc \<Rightarrow> ('k, 'b) socket_kernel_scheme \<Rightarrow> string list \<Rightarrow> 'k system \<Rightarrow> (nat \<times> 'k system) outcome" where
  "tcp_native_socket lc sys argv s =
     (if tcp_native_server_mode argv then
        obind (TCPSocket_new sys s) (\<lambda>(listening_socket, s).
        obind (Socket_set_reuseaddr sys listening_socket s) (\<lambda>s.
        obind (Address_of_name lc (argv ! 2) (argv ! 3)) (\<lambda>a.
        obind (Socket_bind sys listening_socket a s) (\<lambda>s.
        obind (TCPSocket_listen sys listening_socket 16 s) (\<lambda>s.
        obind (TCPSocket_accept sys listening_socket s) (\<lambda>(h, s).
          Inr (h, FDWrapper_destroy sys listening_socket s)))))))
      else
        obind (TCPSocket_new sys s) (\<lambda>(connecting_socket, s).
        obind (Address_of_name lc (argv ! 1) (argv ! 2)) (\<lambda>a.
        obind (Socket_connect sys connecting_socket a s) (\<lambda>s. Inr (connecting_socket, s)))))"

datatype 'k native_end = Native_usage string | Native_failed cpp_fault | Native_done "'k copy_state"

definition tcp_native_main ::
  "libc \<Rightarrow> ('k, 'b) poll_kernel_scheme \<Rightarrow> string list \<Rightarrow> 'k system \<Rightarrow> 'k native_end option" where
  "tcp_native_main lc sys argv s =
     (if length argv < 3 \<or> tcp_native_server_mode argv \<and> length argv < 4
      then Some (Native_usage (tcp_native_show_usage (argv ! 0)))
      else case tcp_native_socket lc sys argv s of
        Inl e \<Rightarrow> Some (Native_failed e)
      | Inr (socket, s) \<Rightarrow>
          (case bidirectional_stream_copy sys socket s of
             None \<Rightarrow> None
           | Some (Inl e) \<Rightarrow> Some (Native_failed e)
           | Some (Inr s) \<Rightarrow> Some (Native_done (FDWrapper_destroy sys socket s))))"

section \<open>Fetching a page\<close>

definition webget_usage :: "string \<Rightarrow> string" where
  "webget_usage argv0 =
     ''Usage: '' @ argv0 @ '' HOST PATH\<newline>'' @
     [CHR 0x09] @ ''Example: '' @ argv0 @ '' stanford.edu /class/cs144\<newline>''"

definition webget_arguments :: "string list \<Rightarrow> (string \<times> string) run" where
  "webget_arguments argv =
     (if argv = [] then Inl Aborts
      else if length argv \<noteq> 3 then Inl (Exit_program 1 (webget_usage (argv ! 0)))
      else Inr (argv ! 1, argv ! 2))"

definition bytes_of_string :: "string \<Rightarrow> bytes" where
  "bytes_of_string s = map (\<lambda>c. word_of_nat (of_char c)) s"

definition crlf :: string where
  "crlf = [CHR 0x0D, CHR 0x0A]"

definition request_parts :: "string \<Rightarrow> string \<Rightarrow> string list" where
  "request_parts host path =
     [''GET '', path, '' HTTP/1.1'' @ crlf, ''Host: '', host, '' '' @ crlf, ''Connection: close'' @ crlf @ crlf]"

primrec write_parts ::
  "('k, 'b) kernel_scheme \<Rightarrow> nat \<Rightarrow> string list \<Rightarrow> ('k, 'a) system_scheme \<Rightarrow> ('k, 'a) system_scheme outcome" where
  "write_parts sys sc [] s = Inr s"
| "write_parts sys sc (p # ps) s =
     obind (FileDescriptor_write sys sc (BufferViewList_of_string (bytes_of_string p)) True s)
       (\<lambda>(_, s). write_parts sys sc ps s)"

text \<open>\<^verbatim>\<open>printf("%s", ...)\<close> prints up to the first byte zero.\<close>

definition printed :: "bytes \<Rightarrow> bytes" where
  "printed data = takeWhile (\<lambda>b. b \<noteq> 0) data"

partial_function (option) read_to_eof ::
  "('k, 'b) kernel_scheme \<Rightarrow> nat \<Rightarrow> bytes \<Rightarrow> ('k, 'a) system_scheme \<Rightarrow> (bytes \<times> ('k, 'a) system_scheme) outcome option" where
  "read_to_eof sys sc out s =
     (if FileDescriptor_eof s sc then Some (Inr (out, s))
      else case FileDescriptor_read sys sc (2 ^ 64 - 1) s of
        Inl e \<Rightarrow> Some (Inl e)
      | Inr (data, s) \<Rightarrow> read_to_eof sys sc (out @ printed data) s)"

definition get_URL_exchange ::
  "('k, 'b) kernel_scheme \<Rightarrow> nat \<Rightarrow> string \<Rightarrow> string \<Rightarrow> ('k, 'a) system_scheme \<Rightarrow>
     (bytes \<times> ('k, 'a) system_scheme) outcome option" where
  "get_URL_exchange sys sc host path s =
     (case write_parts sys sc (request_parts host path) s of
        Inl e \<Rightarrow> Some (Inl e)
      | Inr s \<Rightarrow> read_to_eof sys sc [] s)"

section \<open>The name of a device\<close>

text \<open>The request holds sixteen characters with a final zero, and the name cut to the fifteen before it.\<close>

lemma ifr_name_layout:
  "length (ifr_name devname) = IFNAMSIZ \<and> last (ifr_name devname) = CHR 0x00 \<and>
   takeWhile (\<lambda>c. c \<noteq> CHR 0x00) (ifr_name devname) = take 15 (takeWhile (\<lambda>c. c \<noteq> CHR 0x00) devname)"
proof -
  let ?w = "takeWhile (\<lambda>c. c \<noteq> CHR 0x00) devname"
  have len: "length (strncpy devname 15) = 15" by (simp add: strncpy_def)
  then have eq: "ifr_name devname = strncpy devname 15 @ [CHR 0x00]"
    by (simp add: ifr_name_def IFNAMSIZ_def list_update_append)
  have s: "strncpy devname 15 = take 15 ?w @ replicate (15 - length ?w) CHR 0x00"
    by (simp add: strncpy_def take_append)
  have "\<forall>c \<in> set (take 15 ?w). c \<noteq> CHR 0x00" by (auto dest!: in_set_takeD set_takeWhileD)
  then have "takeWhile (\<lambda>c. c \<noteq> CHR 0x00) (take 15 ?w @ r) = take 15 ?w @ takeWhile (\<lambda>c. c \<noteq> CHR 0x00) r" for r
    by (intro takeWhile_append2) blast
  moreover have "takeWhile (\<lambda>c. c \<noteq> CHR 0x00) (replicate m CHR 0x00 @ [CHR 0x00]) = []" for m
    by (cases m) simp_all
  ultimately have "takeWhile (\<lambda>c. c \<noteq> CHR 0x00) (ifr_name devname) = take 15 ?w"
    unfolding eq s append_assoc by simp
  then show ?thesis using len by (simp add: eq IFNAMSIZ_def)
qed

section \<open>The exchange with a server\<close>

lemma write_loop_keeps_eof:
  assumes "stream_kernel sys got sent" and "FileDescriptor_write_loop sys h write_all buffer tot s = Inr (n, s')"
  shows "FileDescriptor_eof s' h = FileDescriptor_eof s h"
  using assms(2)
proof (induction "length (concat buffer)" arbitrary: buffer tot s rule: less_induct)
  case less
  obtain rv e k' where call:
    "k_writev sys (sy_kernel s) (fd_num s h) (BufferViewList_as_iovecs buffer) = ((rv, e), k')"
    by (metis prod.collapse)
  let ?s = "update_fd h after_write (s\<lparr>sy_kernel := k'\<rparr>)"
  have eof: "FileDescriptor_eof ?s h = FileDescriptor_eof s h"
    by (simp add: FileDescriptor_eof_def update_fd_def after_write_def)
  have b: "\<not> rv < 0" "\<not> (rv = 0 \<and> concat buffer \<noteq> [])"
    using less.prems unfolding FileDescriptor_write_once [OF assms(1) call] by (auto split: if_splits)
  obtain buffer' where b': "BufferViewList_remove_prefix buffer (nat rv) = Inr buffer'"
    and r: "(if write_all \<and> concat buffer' \<noteq> []
      then FileDescriptor_write_loop sys h write_all buffer' (tot + nat rv) ?s
      else Inr (tot + nat rv, ?s)) = Inr (n, s')"
    using less.prems unfolding FileDescriptor_write_once [OF assms(1) call] if_not_P [OF b(1)] if_not_P [OF b(2)]
      obind_Inr_iff by blast
  show ?case
  proof (cases "write_all \<and> concat buffer' \<noteq> []")
    case True
    have "concat buffer' = drop (nat rv) (concat buffer)" using BufferViewList_remove_prefix_str [OF b'] by auto
    then have "length (concat buffer') < length (concat buffer)"
      using b True by (cases "rv = 0") (auto simp del: length_concat)
    from less.hyps [OF this, of "tot + nat rv" ?s] r True eof show ?thesis by simp
  next
    case False
    then show ?thesis using r eof by (simp only: if_False) simp
  qed
qed

text \<open>A descriptor that takes something of everything that is written to it.\<close>

definition takes_writes :: "('k, 'b) kernel_scheme \<Rightarrow> int \<Rightarrow> bool" where
  "takes_writes sys fd \<longleftrightarrow>
     (\<forall>k iov. 0 \<le> fst (fst (k_writev sys k fd iov)) \<and> (iov_bytes iov \<noteq> [] \<longrightarrow> 0 < fst (fst (k_writev sys k fd iov))))"

lemma write_string_returns:
  assumes sys: "stream_kernel sys got sent" and takes: "takes_writes sys (fd_num s h)"
  shows "\<exists>n s'. FileDescriptor_write sys h (BufferViewList_of_string data) True s = Inr (n, s') \<and>
    fd_num s' h = fd_num s h \<and> FileDescriptor_eof s' h = FileDescriptor_eof s h \<and>
    got (sy_kernel s') = got (sy_kernel s) \<and>
    sent (sy_kernel s') (fd_num s h) = sent (sy_kernel s) (fd_num s h) @ data"
proof -
  have "\<exists>r. FileDescriptor_write_loop sys h True [data] 0 s = Inr r"
  proof (cases "data = []")
    case False
    then show ?thesis
      using takes by (intro FileDescriptor_write_loop_returns [OF sys]) (auto simp: takes_writes_def)
  next
    case True
    obtain rv e k' where call:
      "k_writev sys (sy_kernel s) (fd_num s h) (BufferViewList_as_iovecs [data]) = ((rv, e), k')"
      by (metis prod.collapse)
    then have "0 \<le> rv" using takes unfolding takes_writes_def by (metis fst_conv)
    then have "rv = 0" using stream_kernel_writev(1) [OF sys call] True by simp
    then show ?thesis unfolding FileDescriptor_write_once [OF sys call] using True by simp
  qed
  then obtain n s' where r: "FileDescriptor_write_loop sys h True [data] 0 s = Inr (n, s')" by auto
  from FileDescriptor_write_loop_spec [OF sys r] write_loop_keeps_eof [OF sys r] r show ?thesis
    by (simp add: FileDescriptor_write_def BufferViewList_of_string_def)
qed

lemma write_parts_returns:
  assumes "stream_kernel sys got sent" and "takes_writes sys (fd_num s h)"
  shows "\<exists>s'. write_parts sys h ps s = Inr s' \<and>
    fd_num s' h = fd_num s h \<and> FileDescriptor_eof s' h = FileDescriptor_eof s h \<and>
    got (sy_kernel s') = got (sy_kernel s) \<and>
    sent (sy_kernel s') (fd_num s h) = sent (sy_kernel s) (fd_num s h) @ bytes_of_string (concat ps)"
  using assms(2)
proof (induction ps arbitrary: s)
  case (Cons p ps)
  obtain n t where t: "FileDescriptor_write sys h (BufferViewList_of_string (bytes_of_string p)) True s = Inr (n, t)"
    "fd_num t h = fd_num s h" "FileDescriptor_eof t h = FileDescriptor_eof s h"
    "got (sy_kernel t) = got (sy_kernel s)"
    "sent (sy_kernel t) (fd_num s h) = sent (sy_kernel s) (fd_num s h) @ bytes_of_string p"
    using write_string_returns [OF assms(1) Cons.prems] by blast
  obtain s' where "write_parts sys h ps t = Inr s' \<and>
    fd_num s' h = fd_num t h \<and> FileDescriptor_eof s' h = FileDescriptor_eof t h \<and>
    got (sy_kernel s') = got (sy_kernel t) \<and>
    sent (sy_kernel s') (fd_num t h) = sent (sy_kernel t) (fd_num t h) @ bytes_of_string (concat ps)"
    using Cons.IH [of t] Cons.prems t(2) by auto
  with t show ?case by (simp add: bytes_of_string_def)
qed (simp add: bytes_of_string_def)

text \<open>
  The answer of a server: each read gives the next piece of it, and then the end of file.
\<close>

inductive server_sends :: "('k, 'b) kernel_scheme \<Rightarrow> int \<Rightarrow> 'k \<Rightarrow> bytes list \<Rightarrow> 'k \<Rightarrow> bool" for sys fd where
  server_ends: "k_read sys k fd BUFFER_SIZE = ((0, e), [], k') \<Longrightarrow> server_sends sys fd k [] k'"
| server_piece: "k_read sys k fd BUFFER_SIZE = ((int (length c), e), c, k') \<Longrightarrow> c \<noteq> [] \<Longrightarrow>
    server_sends sys fd k' cs k'' \<Longrightarrow> server_sends sys fd k (c # cs) k''"

lemma buffer_size_min [simp]: "min BUFFER_SIZE (2 ^ 64 - 1) = BUFFER_SIZE"
  by (simp add: BUFFER_SIZE_def)

lemma read_to_eof_returns:
  assumes "server_sends sys fd k cs k'" and "stream_kernel sys got sent"
    and "sy_kernel s = k" "fd_num s h = fd" "\<not> FileDescriptor_eof s h"
  shows "\<exists>s'. read_to_eof sys h out s = Some (Inr (out @ concat (map printed cs), s')) \<and>
    sent (sy_kernel s') = sent k"
  using assms(1,3-5)
proof (induction arbitrary: s out)
  case (server_ends k e k')
  let ?s = "update_fd h (after_read (2 ^ 64 - 1) []) (s\<lparr>sy_kernel := k'\<rparr>)"
  have call: "k_read sys (sy_kernel s) (fd_num s h) (min BUFFER_SIZE (2 ^ 64 - 1)) = ((0, e), [], k')"
    using server_ends by (simp only: buffer_size_min)
  have r: "FileDescriptor_read sys h (2 ^ 64 - 1) s = Inr ([], ?s)"
    unfolding FileDescriptor_read_eq [OF assms(2) call] by simp
  have "read_to_eof sys h out s = read_to_eof sys h (out @ printed []) ?s"
    by (subst read_to_eof.simps) (simp only: r server_ends.prems(3) if_False sum.case prod.case)
  also have "\<dots> = Some (Inr (out @ printed [], ?s))"
    by (subst read_to_eof.simps) (simp add: FileDescriptor_eof_def update_fd_def after_read_def)
  finally show ?case
    using stream_kernel_read(7) [OF assms(2) call] server_ends by (simp add: printed_def update_fd_def)
next
  case (server_piece k c e k' cs k'')
  let ?s = "update_fd h (after_read (2 ^ 64 - 1) c) (s\<lparr>sy_kernel := k'\<rparr>)"
  have call: "k_read sys (sy_kernel s) (fd_num s h) (min BUFFER_SIZE (2 ^ 64 - 1)) = ((int (length c), e), c, k')"
    using server_piece by (simp only: buffer_size_min)
  have r: "FileDescriptor_read sys h (2 ^ 64 - 1) s = Inr (c, ?s)"
    unfolding FileDescriptor_read_eq [OF assms(2) call] by simp
  have "sy_kernel ?s = k'" "fd_num ?s h = fd" "\<not> FileDescriptor_eof ?s h"
    using server_piece by (simp_all add: FileDescriptor_eof_def fd_num_def update_fd_def after_read_def)
  from server_piece.IH [OF this, of "out @ printed c"] obtain s' where
    "read_to_eof sys h (out @ printed c) ?s = Some (Inr ((out @ printed c) @ concat (map printed cs), s'))"
    "sent (sy_kernel s') = sent k'" by blast
  moreover have "read_to_eof sys h out s = read_to_eof sys h (out @ printed c) ?s"
    by (subst read_to_eof.simps) (simp only: r server_piece.prems(3) if_False sum.case prod.case)
  moreover have "sent k' = sent k" using stream_kernel_read(7) [OF assms(2) call] server_piece.prems(1) by simp
  ultimately show ?case by simp
qed

section \<open>Properties\<close>

text \<open>The whole report on a packet that holds a TCP segment.\<close>

definition segment_report :: "bytes \<Rightarrow> ipv4_header \<Rightarrow> tcp_header \<Rightarrow> nat \<Rightarrow> string" where
  "segment_report packet ih th n =
     ''\<newline>\<newline>***\<newline>*** Got packet:\<newline>***\<newline>'' @ hexdump packet 0 @
     ''attempting to parse as ipv4 datagram... success! totlen='' @ string_of_nat (unat (ih_len ih)) @
     '', IPv4 header contents:\<newline>'' @ IPv4Header_to_string ih @
     ''\<newline>Attempting to parse as a TCP segment... success! payload len='' @ string_of_nat n @
     '', TCP header contents:\<newline>'' @ TCPHeader_to_string th @ ''\<newline>''"

text \<open>
  The program on a TUN device shows every segment that an adapter sends over the device: both
  headers are recognized and printed, after the dump of the packet.
\<close>

theorem tun_report_segment:
  assumes "numeric_libc lc" and "sends_to ad ip p ip' p'" and "fits_datagram seg"
  shows "\<exists>packet ih th. TunFdAdapter_write lc ad seg = Inr (with_ports p p' seg, packet) \<and>
    tun_report packet = Inr (segment_report packet ih th (Buffer_size (ts_payload seg))) \<and>
    ih_src ih = ip \<and> ih_dst ih = ip' \<and> th = (ts_header (with_ports p p' seg))\<lparr>th_cksum := th_cksum th\<rparr>"
proof -
  obtain packet d b seg' where w: "TunFdAdapter_write lc ad seg = Inr (with_ports p p' seg, packet)"
    "IPv4Datagram_parse IPv4Datagram_default (Buffer_new packet) = Inr (d, NoError)"
    "ih_src (id_header d) = ip" "ih_dst (id_header d) = ip'" "ih_proto (id_header d) = PROTO_TCP"
    "BufferList_to_Buffer (id_payload d) = Inr b"
    "TCPSegment_parse TCPSegment_default b (IPv4Header_pseudo_cksum (id_header d)) = Inr (seg', NoError)"
    "ts_header seg' = (ts_header (with_ports p p' seg))\<lparr>th_cksum := th_cksum (ts_header seg')\<rparr>"
    "Buffer_copy (ts_payload seg') = Buffer_copy (ts_payload seg)"
    using tun_datagram [OF assms] by blast
  have "Buffer_size (ts_payload seg') = Buffer_size (ts_payload seg)"
    using w(9) by (simp add: Buffer_size_def Buffer_copy_def)
  then have "tun_report packet =
      Inr (segment_report packet (id_header d) (ts_header seg') (Buffer_size (ts_payload seg)))"
    by (simp add: tun_report_def Let_def segment_report_def w(2,5,6,7))
  with w(1,3,4,8) show ?thesis
    by (intro exI [of _ packet] exI [of _ "id_header d"] exI [of _ "ts_header seg'"] conjI)
qed

theorem tun_report_segment_witness:
  "\<exists>packet ih th. TunFdAdapter_write plain_libc (host_adapter 1 2 3 4) syn_to_send
      = Inr (with_ports 2 4 syn_to_send, packet) \<and>
    tun_report packet = Inr (segment_report packet ih th 0) \<and> ih_src ih = 1 \<and> ih_dst ih = 3"
proof -
  have "sends_to (host_adapter 1 2 3 4) 1 2 3 4" by (simp add: sends_to_def host_adapter_def)
  from tun_report_segment [OF plain_libc_numeric this syn_fits] obtain packet ih th where
    "TunFdAdapter_write plain_libc (host_adapter 1 2 3 4) syn_to_send = Inr (with_ports 2 4 syn_to_send, packet)"
    "tun_report packet = Inr (segment_report packet ih th (Buffer_size (ts_payload syn_to_send)))"
    "ih_src ih = 1" "ih_dst ih = 3" by blast
  moreover have "Buffer_size (ts_payload syn_to_send) = 0"
    by (simp add: syn_to_send_def TCPSegment_default_def Buffer_size_def buffer_simps)
  ultimately show ?thesis
    by (intro exI [of _ packet] exI [of _ ih] exI [of _ th] conjI) simp_all
qed

text \<open>
  C34: fetching a page ends. On a connected socket that takes what is written to it, the server gets exactly
  the request, and when it answers with some pieces and closes, the program prints each piece up to
  its first byte zero; so it prints the whole answer when no byte of it is zero.
\<close>

theorem get_URL_exchange_prints:
  assumes "stream_kernel sys got sent" and "takes_writes sys (fd_num s sc)" and "\<not> FileDescriptor_eof s sc"
    and "request = bytes_of_string (''GET '' @ path @ '' HTTP/1.1'' @ crlf @ ''Host: '' @ host @ '' '' @ crlf @
      ''Connection: close'' @ crlf @ crlf)"
    and "\<forall>k. sent k (fd_num s sc) = sent (sy_kernel s) (fd_num s sc) @ request \<and> got k = got (sy_kernel s) \<longrightarrow>
      (\<exists>k'. server_sends sys (fd_num s sc) k pieces k')"
  shows "\<exists>s'. get_URL_exchange sys sc host path s = Some (Inr (concat (map printed pieces), s')) \<and>
    sent (sy_kernel s') (fd_num s sc) = sent (sy_kernel s) (fd_num s sc) @ request \<and>
    (0 \<notin> set (concat pieces) \<longrightarrow> concat (map printed pieces) = concat pieces)"
proof -
  have req: "request = bytes_of_string (concat (request_parts host path))"
    by (simp add: assms(4) request_parts_def)
  obtain t where t: "write_parts sys sc (request_parts host path) s = Inr t"
    "fd_num t sc = fd_num s sc" "\<not> FileDescriptor_eof t sc" "got (sy_kernel t) = got (sy_kernel s)"
    "sent (sy_kernel t) (fd_num s sc) = sent (sy_kernel s) (fd_num s sc) @ request"
    using write_parts_returns [OF assms(1,2), of "request_parts host path"] assms(3) by (auto simp: req)
  obtain k' where "server_sends sys (fd_num s sc) (sy_kernel t) pieces k'" using assms(5) t(4,5) by blast
  from read_to_eof_returns [OF this assms(1) refl t(2,3), of "[]"] obtain s' where
    "read_to_eof sys sc [] t = Some (Inr (concat (map printed pieces), s'))" "sent (sy_kernel s') = sent (sy_kernel t)"
    by auto
  moreover have "concat (map printed pieces) = concat pieces" if "0 \<notin> set (concat pieces)"
  proof -
    have "map printed pieces = pieces"
      using that by (intro map_idI) (auto simp: printed_def takeWhile_eq_all_conv)
    then show ?thesis by simp
  qed
  ultimately show ?thesis using t(1,5) by (simp add: get_URL_exchange_def)
qed

text \<open>A server that answers with the two bytes of a greeting and closes.\<close>

definition page_kernel :: "histories kernel" where
  "page_kernel = \<lparr>
     k_read = (\<lambda>(g, t) fd n. if g fd = [] \<and> 2 \<le> n then ((2, 0), [72, 105], (g(fd := [72, 105]), t))
       else ((0, 0), [], (g, t))),
     k_writev = (\<lambda>(g, t) fd iov. let n = min 9 (length (iov_bytes iov)) in
       ((int n, 0), (g, t(fd := t fd @ take n (iov_bytes iov))))),
     k_close = (\<lambda>k fd. ((0, 0), k)), k_getfl = (\<lambda>k fd. ((0, 0), k)), k_setfl = (\<lambda>k fd fl. ((0, 0), k))\<rparr>"

lemma page_kernel_streams: "stream_kernel page_kernel fst snd"
  by (auto simp: stream_kernel_def page_kernel_def Let_def split: if_splits)

lemma page_kernel_takes: "takes_writes page_kernel fd"
  by (auto simp: takes_writes_def page_kernel_def Let_def)

lemma page_kernel_answers:
  assumes "fst k fd = []"
  shows "\<exists>k'. server_sends page_kernel fd k [[72, 105]] k'"
proof -
  obtain g t where k: "k = (g, t)" by (cases k)
  let ?k = "(g(fd := [72, 105]), t)"
  have "server_sends page_kernel fd ?k [] ?k"
    by (rule server_ends [of _ _ _ 0]) (simp add: page_kernel_def)
  then have "server_sends page_kernel fd k [[72, 105]] ?k"
    by (rule server_piece [of _ _ _ _ 0, rotated 2]) (use assms k in \<open>simp_all add: page_kernel_def BUFFER_SIZE_def\<close>)
  then show ?thesis ..
qed

theorem get_URL_exchange_prints_witness:
  "\<exists>s'. get_URL_exchange page_kernel 0 ''a'' ''/'' one_descriptor = Some (Inr ([72, 105], s'))"
proof -
  have "\<exists>s'. get_URL_exchange page_kernel 0 ''a'' ''/'' one_descriptor
      = Some (Inr (concat (map printed [[72, 105]]), s'))"
    using get_URL_exchange_prints [OF page_kernel_streams page_kernel_takes _ refl, of one_descriptor 0
        "''/''" "''a''" "[[72, 105]]"] page_kernel_answers
    by (auto simp: one_descriptor_def FileDescriptor_eof_def)
  then show ?thesis by (simp add: printed_def)
qed

end
