(* ===== verification/Spec2Isabelle.thy ===== *)
theory Spec2Isabelle
  imports Byte_Stream Wrapping_Integers Stream_Reassembler Buffers Net_Parser Internet_Checksum
    Tcp_Segment Ipv4_Datagram Tcp_Receiver Tcp_Sender Tcp_State Tcp_Connection Connection_Lifecycle
    Addresses Datagram_Adapters File_Descriptor Sockets Event_Loop Stream_Copy Sponge_Socket Socket_Session
    Tcp_Network Tcp_Benchmark Printing Command_Line Packet_Dump Programs
begin

text \<open>
  Verification of the sponge TCP stack.

  The program is a user-level TCP implementation in C++: a stream socket whose bytes travel in TCP
  segments, over a TUN device in IPv4 datagrams or in the payload of UDP datagrams, with the
  utilities it needs and a few programs on top. Paths below are relative to \<^verbatim>\<open>src/\<close>.

  \<^bold>\<open>The parts and how they interact.\<close>
  A \<^verbatim>\<open>ByteStream\<close> is the bounded pipe at both ends of a connection. The \<^verbatim>\<open>TCPSender\<close> reads its
  stream, cuts it into segments with 32-bit wrapping sequence numbers, and retransmits them. The
  \<^verbatim>\<open>TCPReceiver\<close> unwraps the numbers and pushes payloads into a \<^verbatim>\<open>StreamReassembler\<close>, which writes the
  assembled bytes into its output stream. A \<^verbatim>\<open>TCPConnection\<close> joins a sender and a receiver: it stamps
  acknowledgments and windows on outgoing segments and decides when the connection closes. Segments
  and datagrams are parsed and serialized with \<^verbatim>\<open>NetParser\<close>, \<^verbatim>\<open>Buffer\<close> and \<^verbatim>\<open>InternetChecksum\<close>. An
  adapter turns segments into datagrams of a descriptor and back. A \<^verbatim>\<open>TCPSpongeSocket\<close> runs a connection
  in a thread with an \<^verbatim>\<open>EventLoop\<close> of four rules between the adapter and a local socket pair, whose
  other end is the socket of the owner. The programs copy the terminal to such a socket, measure
  the throughput of two connections, fetch a page, and show captured packets.

  \<^bold>\<open>How code is modelled.\<close>
  Machine integers are words of their width, so that arithmetic wraps as in the code; \<^verbatim>\<open>std::string\<close> is a
  list of bytes, or of characters where it is text; structures and classes are records, enumerations datatypes,
  containers lists. A method takes the object and returns it changed. An exception, and an operation with
  undefined behaviour, is a value \<open>Inl\<close> of the type \<open>outcome\<close> (\<open>Prelude\<close>), so that freedom from faults is a
  statement about results. Loops are recursive functions with a termination proof; those that wait for the
  outside world and may run forever are partial functions into \<open>option\<close>, where \<open>None\<close> means that
  the loop does not end. No fuel is used, except that the endless loop of \<^verbatim>\<open>apps/tun.cc\<close> is run for a
  given number of rounds. The kernel and the C library are parameters: records of calls on a kernel
  state (\<open>kernel\<close>, \<open>socket_kernel\<close>, \<open>poll_kernel\<close>, \<open>tun_kernel\<close>) and of resolver functions (\<open>libc\<close>), with the
  documented behaviour as hypotheses (\<open>stream_kernel\<close>, \<open>loop_kernel\<close>, \<open>numeric_libc\<close>, \<open>adapter_env\<close>,
  \<open>takes_writes\<close>), each of which a concrete instance satisfies in a witness. Random numbers, and the value
  that reading the front of an empty queue gives, are arguments.

  \<^bold>\<open>The theories.\<close>
  \<^item> \<open>Prelude\<close>: words, bytes, outcomes, the counting loop and shared list and word facts.
  \<^item> \<open>Byte_Stream\<close> (\<^verbatim>\<open>libsponge/byte_stream\<close>): the pipe refines a bounded queue; locale \<open>byte_channel\<close>.
  \<^item> \<open>Wrapping_Integers\<close> (\<^verbatim>\<open>libsponge/wrapping_integers\<close>): \<open>unwrap\<close> gives the closest number; locale
    \<open>seq_codec\<close>.
  \<^item> \<open>Stream_Reassembler\<close> (\<^verbatim>\<open>libsponge/stream_reassembler\<close>): the circular buffer as a window of
    stored bytes; safety, progress, and well-formedness under arbitrary pushes.
  \<^item> \<open>Buffers\<close>, \<open>Net_Parser\<close>, \<open>Internet_Checksum\<close> (\<^verbatim>\<open>libsponge/util\<close>): shared strings with a removed
    prefix, big-endian parsing and unparsing, the one's complement sum; locales \<open>prefix_buffer\<close> and \<open>net_int\<close>.
  \<^item> \<open>Tcp_Segment\<close>, \<open>Ipv4_Datagram\<close> (\<^verbatim>\<open>libsponge/tcp_helpers\<close>): headers, segments and datagrams; round
    trips, exact verdicts of the parsers, and what they accept wrongly.
  \<^item> \<open>Tcp_Receiver\<close>, \<open>Tcp_Sender\<close> (\<^verbatim>\<open>libsponge/tcp_receiver\<close>, \<^verbatim>\<open>libsponge/tcp_sender\<close>): delivery of a prefix
    whatever the order of segments, the exact acknowledgment number; faithful segments, exact outstanding
    queue, retransmission, the window and its overrun when it shrinks.
  \<^item> \<open>Tcp_State\<close>, \<open>Tcp_Connection\<close>, \<open>Connection_Lifecycle\<close> (\<^verbatim>\<open>libsponge/tcp_connection\<close>,
    \<^verbatim>\<open>tcp_helpers/tcp_state\<close>): an invariant of all reachable connections (relation \<open>conn_reach\<close>), delivery,
    closing, the handshake and resets.
  \<^item> \<open>Tcp_Network\<close>: two connections over a network that loses, repeats and reorders segments.
  \<^item> \<open>Tcp_Benchmark\<close> (\<^verbatim>\<open>apps/tcp_benchmark.cc\<close>): its main loop never throws.
  \<^item> \<open>Addresses\<close>, \<open>Datagram_Adapters\<close> (\<^verbatim>\<open>util/address\<close>, \<^verbatim>\<open>tcp_helpers/fd_adapter\<close>, \<^verbatim>\<open>tcp_over_ip\<close>,
    \<^verbatim>\<open>tuntap_adapter\<close>, \<^verbatim>\<open>lossy_fd_adapter\<close>): resolution of addresses, segments across a link; locale
    \<open>segment_link\<close>.
  \<^item> \<open>File_Descriptor\<close>, \<open>Sockets\<close>, \<open>Event_Loop\<close> (\<^verbatim>\<open>util/file_descriptor\<close>, \<^verbatim>\<open>util/socket\<close>,
    \<^verbatim>\<open>util/eventloop\<close>): the wrappers of system calls and the loop; locale \<open>loop_rules\<close>.
  \<^item> \<open>Stream_Copy\<close> (\<^verbatim>\<open>apps/bidirectional_stream_copy.cc\<close>): nothing is lost, repeated or reordered.
  \<^item> \<open>Sponge_Socket\<close>, \<open>Socket_Session\<close> (\<^verbatim>\<open>tcp_helpers/tcp_sponge_socket\<close>): the rules, the loop of the thread
    and the operations of the owner; locale \<open>datagram_link\<close>; sessions of the thread (relation \<open>thread_reach\<close>)
    with their invariant, the end of the thread and the missing reset.
  \<^item> \<open>Printing\<close>, \<open>Command_Line\<close>, \<open>Packet_Dump\<close>, \<open>Programs\<close> (\<^verbatim>\<open>util/util.cc\<close>, \<^verbatim>\<open>util/tun.cc\<close> and \<^verbatim>\<open>apps/\<close>):
    the dump of bytes against a reference layout, the options of the programs (locale \<open>option_loop\<close>), the
    search for a segment in a captured packet, and the request of \<^verbatim>\<open>webget\<close>.

  \<^bold>\<open>Bounds.\<close>
  Statements about whole streams assume that a stream, with its SYN and FIN, is shorter than \<open>2 ^ 31\<close>, half of the
  sequence space, and that window plus stream fit into 64 bits; the checksum statements assume packets
  whose running sum fits into 32 bits, which holds for every packet of at most 65535 bytes. Reads and writes
  of the kernel transfer at most \<^verbatim>\<open>0x7ffff000\<close> bytes, as on Linux.

  \<^bold>\<open>Not modelled.\<close>
  The seeding of the random number generator (\<^verbatim>\<open>get_random_generator\<close>), since random numbers are
  arguments. The messages of \<^verbatim>\<open>cerr\<close> that the socket and the connection print while they run. The
  floating point conversion of loss rates. Opening a capture and compiling a filter in \<^verbatim>\<open>apps/udp_tcpdump.cc\<close>,
  which are calls of the capture library. The thread of a socket and its owner share only the kernel and the
  abort flag; the model runs the thread where the owner waits for it, and \<open>Socket_Session\<close> treats every
  other step of the owner as a step of the environment, so the programs that copy through such a socket are
  modelled up to the open connection and the copy on its own. The examples under \<^verbatim>\<open>doctests/\<close>, the tests and
  the files generated by the build.
\<close>

end
